(* ===== verification/Prelude.thy ===== *)
theory Prelude imports Main "HOL-Library.Word" begin

text \<open>
  The shared vocabulary of the development: the C integer types as words, byte buffers as lists,
  the little- and big-endian memory representation of a word, the C library calls the sources use
  on buffers (\<open>memcpy\<close> into the middle of an array, \<open>memset\<close>), and the generic lemmas on lists and
  words the component theories rest on.
\<close>

unbundle bit_operations_syntax

type_synonym u8 = "8 word"
type_synonym u32 = "32 word"
type_synonym u64 = "64 word"
type_synonym u128 = "128 word"
type_synonym bytes = "8 word list"

named_theorems ct_simps \<open>constant-time primitives reduced to truth values\<close>
named_theorems enc_simps \<open>lengths and contents of encoded buffers\<close>

section \<open>Top bits of words\<close>

lemma unat_bound: "unat (x :: 'a::len word) < 2 ^ LENGTH('a)"
  by (rule unsigned_less)

lemma uint_bound: "uint (x :: 'a::len word) < 2 ^ LENGTH('a)"
  by (rule unsigned_less)

lemma unat_pow2 [simp]: "n < LENGTH('a) \<Longrightarrow> unat (2 ^ n :: 'a::len word) = 2 ^ n"
  by (simp add: unat_eq_nat_uint uint_2p word_gt_0 exp_eq_zero_iff nat_power_eq)

lemma unat_word_of_nat: "n < 2 ^ LENGTH('a) \<Longrightarrow> unat (of_nat n :: 'a::len word) = n"
  by (simp add: unsigned_of_nat take_bit_nat_eq_self)

definition msbit :: "'a::len word \<Rightarrow> bool" where
  "msbit x \<longleftrightarrow> bit x (LENGTH('a) - Suc 0)"

lemma msbit_unat: "msbit x \<longleftrightarrow> 2 ^ (LENGTH('a) - Suc 0) \<le> unat (x :: 'a::len word)"
proof -
  let ?n = "LENGTH('a) - Suc 0"
  have "2 ^ LENGTH('a) = 2 ^ ?n + (2 ^ ?n :: nat)"
    by (simp flip: mult_2 power_Suc)
  with unat_bound [of x] have lt: "unat x < 2 ^ ?n + 2 ^ ?n" by simp
  have "msbit x \<longleftrightarrow> bit (unat x) ?n"
    by (simp add: msbit_def bit_unsigned_iff)
  also have "\<dots> \<longleftrightarrow> odd (unat x div 2 ^ ?n)"
    by (simp add: bit_iff_odd)
  also have "\<dots> \<longleftrightarrow> 2 ^ ?n \<le> unat x"
  proof (cases "2 ^ ?n \<le> unat x")
    case True
    with lt have "unat x div 2 ^ ?n = 1"
      by (intro div_nat_eqI) auto
    with True show ?thesis by simp
  next
    case False
    then show ?thesis by simp
  qed
  finally show ?thesis .
qed

lemma drop_bit_msbit: "drop_bit (LENGTH('a) - Suc 0) x = (of_bool (msbit x) :: 'a::len word)"
proof (rule bit_word_eqI)
  fix n assume "n < LENGTH('a)"
  show "bit (drop_bit (LENGTH('a) - Suc 0) x) n \<longleftrightarrow> bit (of_bool (msbit x) :: 'a word) n"
  proof (cases n)
    case 0
    then show ?thesis by (simp add: bit_simps msbit_def)
  next
    case (Suc m)
    then have "LENGTH('a) \<le> LENGTH('a) - Suc 0 + n" by simp
    then have "\<not> bit x (LENGTH('a) - Suc 0 + n)" by (blast dest: bit_imp_le_length leD)
    with Suc show ?thesis by (simp add: bit_drop_bit_eq bit_of_bool_iff)
  qed
qed

lemma msbit_xor [simp]: "msbit (x XOR y) \<longleftrightarrow> msbit x \<noteq> msbit y"
  by (simp add: msbit_def bit_simps)

lemma msbit_and [simp]: "msbit (x AND y) \<longleftrightarrow> msbit x \<and> msbit y"
  by (simp add: msbit_def bit_simps)

lemma msbit_or [simp]: "msbit (x OR y) \<longleftrightarrow> msbit x \<or> msbit y"
  by (simp add: msbit_def bit_simps)

lemma msbit_not [simp]: "msbit (NOT x) \<longleftrightarrow> \<not> msbit x"
  by (simp add: msbit_def bit_simps)

lemma msbit_zero [simp]: "\<not> msbit 0"
  by (simp add: msbit_def)

lemma msbit_sint: "msbit x \<longleftrightarrow> sint x < 0"
  by (simp add: msbit_def bit_last_iff)

lemma xor_zero_iff: "x XOR y = 0 \<longleftrightarrow> x = (y :: 'a::len word)"
  by (metis xor.assoc xor.right_neutral xor_self_eq xor.left_neutral)

lemma xor_swap: "y XOR (x XOR y) = (x :: 'a::len word)"
  by (metis xor.assoc xor.commute xor.right_neutral xor_self_eq)

text \<open>The top bit of \<open>q | -q\<close> is set exactly when \<open>q\<close> is not zero.\<close>

lemma msbit_or_uminus: "msbit (q OR - q) \<longleftrightarrow> q \<noteq> (0 :: 'a::len word)"
proof (cases "q = 0")
  case False
  have len: "2 ^ LENGTH('a) = 2 * (2 ^ (LENGTH('a) - Suc 0) :: nat)"
    by (simp flip: power_Suc)
  have "unat (- q) = 2 ^ LENGTH('a) - unat q"
    using False unat_sub_if' [of 0 q] by (simp add: unat_eq_zero)
  with False unat_bound [of q] len have "msbit q \<or> msbit (- q)"
    by (auto simp: msbit_unat)
  with False show ?thesis by simp
qed simp

section \<open>Memory representation of words\<close>

fun le_word :: "bytes \<Rightarrow> 'a::len word" where
  "le_word [] = 0"
| "le_word (b # bs) = ucast b OR push_bit 8 (le_word bs)"

definition le_bytes :: "nat \<Rightarrow> 'a::len word \<Rightarrow> bytes" where
  "le_bytes n x = map (\<lambda>i. ucast (drop_bit (8 * i) x)) [0..<n]"

definition be_word :: "bytes \<Rightarrow> 'a::len word" where
  "be_word bs = le_word (rev bs)"

definition be_bytes :: "nat \<Rightarrow> 'a::len word \<Rightarrow> bytes" where
  "be_bytes n x = rev (le_bytes n x)"

fun le_int :: "bytes \<Rightarrow> int" where
  "le_int [] = 0"
| "le_int (b # bs) = uint b + 256 * le_int bs"

lemma length_le_bytes [simp, enc_simps]: "length (le_bytes n x) = n"
  by (simp add: le_bytes_def)

lemma length_be_bytes [simp, enc_simps]: "length (be_bytes n x) = n"
  by (simp add: be_bytes_def)

lemma nth_le_bytes [simp]: "i < n \<Longrightarrow> le_bytes n x ! i = ucast (drop_bit (8 * i) x)"
  by (simp add: le_bytes_def)

lemma bit_le_word:
  "bit (le_word bs :: 'a::len word) n \<longleftrightarrow>
     n < LENGTH('a) \<and> n div 8 < length bs \<and> bit (bs ! (n div 8)) (n mod 8)"
proof (induction bs arbitrary: n)
  case (Cons b bs)
  show ?case
  proof (cases "n < 8")
    case True
    then show ?thesis by (auto simp: bit_simps)
  next
    case False
    then have "n div 8 = Suc ((n - 8) div 8)" "(n - 8) mod 8 = n mod 8"
      by (auto simp: le_div_geq le_mod_geq)
    with False show ?thesis
      by (auto simp: bit_simps Cons.IH dest: bit_imp_le_length)
  qed
qed simp

lemma le_word_append:
  "le_word (xs @ ys) = le_word xs OR push_bit (8 * length xs) (le_word ys :: 'a::len word)"
  by (induction xs) (simp_all add: or.assoc push_bit_or)

lemma ucast_le_word:
  assumes "8 * length xs \<le> LENGTH('b)"
  shows "ucast (le_word xs :: 'b::len word) = (le_word xs :: 'a::len word)"
proof (rule bit_word_eqI)
  fix n
  have "n < LENGTH('b)" if "n div 8 < length xs"
    using that assms by (simp add: div_less_iff_less_mult)
  then show "bit (ucast (le_word xs :: 'b word) :: 'a word) n = bit (le_word xs :: 'a word) n"
    by (auto simp: bit_simps bit_le_word)
qed

lemma length_4_conv: "length xs = 4 \<longleftrightarrow> (\<exists>a b c d. xs = [a, b, c, d])"
  by (auto simp: length_Suc_conv numeral_eq_Suc)

lemma le_word_le_bytes:
  assumes "8 * n = LENGTH('a)"
  shows "le_word (le_bytes n x) = (x :: 'a::len word)"
proof (rule bit_word_eqI)
  fix k assume k: "k < LENGTH('a)"
  with assms have "k div 8 < n" by (simp add: less_mult_imp_div_less mult.commute)
  with k show "bit (le_word (le_bytes n x) :: 'a word) k = bit x k"
    by (simp add: bit_le_word bit_simps)
qed

lemma le_bytes_le_word:
  assumes "length bs = n" and "8 * n \<le> LENGTH('a)"
  shows "le_bytes n (le_word bs :: 'a::len word) = bs"
proof (rule nth_equalityI)
  fix i assume "i < length (le_bytes n (le_word bs :: 'a word))"
  then have i: "i < n" by simp
  show "le_bytes n (le_word bs :: 'a word) ! i = bs ! i"
  proof (rule bit_word_eqI)
    fix k assume "k < LENGTH(8)"
    then have k: "k < 8" by simp
    from i k assms(2) have "8 * i + k < LENGTH('a)" by linarith
    with i k assms(1) show "bit (le_bytes n (le_word bs :: 'a word) ! i) k = bit (bs ! i) k"
      by (simp add: bit_simps bit_le_word)
  qed
qed (simp add: assms)

lemma be_word_be_bytes: "8 * n = LENGTH('a) \<Longrightarrow> be_word (be_bytes n x) = (x :: 'a::len word)"
  by (simp add: be_word_def be_bytes_def le_word_le_bytes)

lemma be_bytes_be_word:
  "length bs = n \<Longrightarrow> 8 * n \<le> LENGTH('a) \<Longrightarrow> be_bytes n (be_word bs :: 'a::len word) = bs"
  by (simp add: be_word_def be_bytes_def le_bytes_le_word)

lemma le_int_nonneg [simp]: "0 \<le> le_int bs"
  by (induction bs) auto

lemma le_int_bound: "le_int bs < 2 ^ (8 * length bs)"
proof (induction bs)
  case (Cons b bs)
  have "uint b < 256" using uint_lt2p [of b] by simp
  with Cons show ?case by (simp add: power_add)
qed simp

lemma le_int_append: "le_int (xs @ ys) = le_int xs + 2 ^ (8 * length xs) * le_int ys"
  by (induction xs) (auto simp: power_add algebra_simps)

section \<open>Buffers\<close>

definition memcpy_at :: "nat \<Rightarrow> 'a list \<Rightarrow> 'a list \<Rightarrow> 'a list" where
  "memcpy_at off src dst = take off dst @ src @ drop (off + length src) dst"

definition xor_bytes :: "bytes \<Rightarrow> bytes \<Rightarrow> bytes" where
  "xor_bytes xs ys = map2 (XOR) xs ys"

lemma length_memcpy_at [simp]:
  "off + length src \<le> length dst \<Longrightarrow> length (memcpy_at off src dst) = length dst"
  by (simp add: memcpy_at_def)

lemma take_memcpy_at [simp]:
  "off + length src \<le> length dst \<Longrightarrow>
     take (off + length src) (memcpy_at off src dst) = take off dst @ src"
  by (simp add: memcpy_at_def)

lemma memcpy_at_whole: "length src = length dst \<Longrightarrow> memcpy_at 0 src dst = src"
  by (simp add: memcpy_at_def)

lemma length_xor_bytes [simp]: "length (xor_bytes xs ys) = min (length xs) (length ys)"
  by (simp add: xor_bytes_def)

lemma nth_xor_bytes [simp]:
  "i < length xs \<Longrightarrow> i < length ys \<Longrightarrow> xor_bytes xs ys ! i = xs ! i XOR ys ! i"
  by (simp add: xor_bytes_def)

lemma xor_bytes_cancel: "length xs \<le> length ys \<Longrightarrow> xor_bytes (xor_bytes xs ys) ys = xs"
  by (rule nth_equalityI) (auto simp: xor.assoc)

lemma xor_bytes_append:
  "length a = length c \<Longrightarrow> xor_bytes (a @ b) (c @ d) = xor_bytes a c @ xor_bytes b d"
  by (simp add: xor_bytes_def)

end
