(* ===== verification/CT_Inner.thy ===== *)
theory CT_Inner imports Prelude begin

text \<open>
  The inline support code of \<open>c_src/bearssl/inner.h\<close>: byte encoding and decoding of 16-, 32- and
  64-bit integers, byte swapping, and the constant-time comparisons and multiplexers. A function
  that writes through a \<open>void *dst\<close> is modelled by the bytes it writes, in address order; a function
  that reads \<open>const void *src\<close> takes the bytes from that address on. The encoders are given in the
  portable form; \<open>enc32le_native\<close> and its siblings show that the direct store selected by
  \<open>BR_LE_UNALIGNED\<close> (the memory image of the word on a little-endian machine) writes the same bytes.
\<close>

section \<open>Encoding and decoding\<close>

definition br_enc16le :: "u32 \<Rightarrow> bytes" where
  "br_enc16le x = [ucast x, ucast (drop_bit 8 x)]"

definition br_enc16be :: "u32 \<Rightarrow> bytes" where
  "br_enc16be x = [ucast (drop_bit 8 x), ucast x]"

definition br_dec16le :: "bytes \<Rightarrow> u32" where
  "br_dec16le buf = ucast (buf ! 0) OR push_bit 8 (ucast (buf ! 1))"

definition br_dec16be :: "bytes \<Rightarrow> u32" where
  "br_dec16be buf = push_bit 8 (ucast (buf ! 0)) OR ucast (buf ! 1)"

definition br_enc32le :: "u32 \<Rightarrow> bytes" where
  "br_enc32le x = [ucast x, ucast (drop_bit 8 x), ucast (drop_bit 16 x), ucast (drop_bit 24 x)]"

definition br_enc32be :: "u32 \<Rightarrow> bytes" where
  "br_enc32be x = [ucast (drop_bit 24 x), ucast (drop_bit 16 x), ucast (drop_bit 8 x), ucast x]"

definition br_dec32le :: "bytes \<Rightarrow> u32" where
  "br_dec32le buf = ucast (buf ! 0) OR push_bit 8 (ucast (buf ! 1))
     OR push_bit 16 (ucast (buf ! 2)) OR push_bit 24 (ucast (buf ! 3))"

definition br_dec32be :: "bytes \<Rightarrow> u32" where
  "br_dec32be buf = push_bit 24 (ucast (buf ! 0)) OR push_bit 16 (ucast (buf ! 1))
     OR push_bit 8 (ucast (buf ! 2)) OR ucast (buf ! 3)"

definition br_enc64le :: "u64 \<Rightarrow> bytes" where
  "br_enc64le x = br_enc32le (ucast x) @ br_enc32le (ucast (drop_bit 32 x))"

definition br_enc64be :: "u64 \<Rightarrow> bytes" where
  "br_enc64be x = br_enc32be (ucast (drop_bit 32 x)) @ br_enc32be (ucast x)"

definition br_dec64le :: "bytes \<Rightarrow> u64" where
  "br_dec64le buf = ucast (br_dec32le buf) OR push_bit 32 (ucast (br_dec32le (drop 4 buf)))"

definition br_dec64be :: "bytes \<Rightarrow> u64" where
  "br_dec64be buf = push_bit 32 (ucast (br_dec32be buf)) OR ucast (br_dec32be (drop 4 buf))"

definition br_swap32 :: "u32 \<Rightarrow> u32" where
  "br_swap32 x =
     (let x = push_bit 8 (x AND 0x00FF00FF) OR (drop_bit 8 x AND 0x00FF00FF)
      in push_bit 16 x OR drop_bit 16 x)"

section \<open>Constant-time primitives\<close>

definition NOT_ctl :: "u32 \<Rightarrow> u32" where
  "NOT_ctl ctl = ctl XOR 1"

definition MUX :: "u32 \<Rightarrow> u32 \<Rightarrow> u32 \<Rightarrow> u32" where
  "MUX ctl x y = y XOR (- ctl AND (x XOR y))"

definition EQ :: "u32 \<Rightarrow> u32 \<Rightarrow> u32" where
  "EQ x y = (let q = x XOR y in NOT_ctl (drop_bit 31 (q OR - q)))"

definition NEQ :: "u32 \<Rightarrow> u32 \<Rightarrow> u32" where
  "NEQ x y = (let q = x XOR y in drop_bit 31 (q OR - q))"

definition GT :: "u32 \<Rightarrow> u32 \<Rightarrow> u32" where
  "GT x y = (let z = y - x in drop_bit 31 (z XOR ((x XOR y) AND (x XOR z))))"

definition GE :: "u32 \<Rightarrow> u32 \<Rightarrow> u32" where
  "GE x y = NOT_ctl (GT y x)"

definition LT :: "u32 \<Rightarrow> u32 \<Rightarrow> u32" where
  "LT x y = GT y x"

definition LE :: "u32 \<Rightarrow> u32 \<Rightarrow> u32" where
  "LE x y = NOT_ctl (GT x y)"

definition CMP :: "u32 \<Rightarrow> u32 \<Rightarrow> u32" where
  "CMP x y = GT x y OR - GT y x"

definition EQ0 :: "u32 \<Rightarrow> u32" where
  "EQ0 x = (let q = x in drop_bit 31 (NOT (q OR - q)))"

definition GT0 :: "u32 \<Rightarrow> u32" where
  "GT0 x = (let q = x in drop_bit 31 (NOT q AND - q))"

definition GE0 :: "u32 \<Rightarrow> u32" where
  "GE0 x = drop_bit 31 (NOT x)"

definition LT0 :: "u32 \<Rightarrow> u32" where
  "LT0 x = drop_bit 31 x"

definition LE0 :: "u32 \<Rightarrow> u32" where
  "LE0 x = (let q = x in drop_bit 31 (q OR NOT (- q)))"

definition BIT_LENGTH :: "u32 \<Rightarrow> u32" where
  "BIT_LENGTH x =
     (let k = NEQ x 0;
          c = GT x 0xFFFF; x = MUX c (drop_bit 16 x) x; k = k + push_bit 4 c;
          c = GT x 0x00FF; x = MUX c (drop_bit 8 x) x; k = k + push_bit 3 c;
          c = GT x 0x000F; x = MUX c (drop_bit 4 x) x; k = k + push_bit 2 c;
          c = GT x 0x0003; x = MUX c (drop_bit 2 x) x; k = k + push_bit 1 c
      in k + GT x 0x0001)"

definition MIN_u32 :: "u32 \<Rightarrow> u32 \<Rightarrow> u32" where
  "MIN_u32 x y = MUX (GT x y) y x"

definition MAX_u32 :: "u32 \<Rightarrow> u32 \<Rightarrow> u32" where
  "MAX_u32 x y = MUX (GT x y) x y"

section \<open>Lemmas: encodings\<close>

lemma length_enc [simp, enc_simps]:
  "length (br_enc16le y) = 2" "length (br_enc16be y) = 2"
  "length (br_enc32le y) = 4" "length (br_enc32be y) = 4"
  "length (br_enc64le z) = 8" "length (br_enc64be z) = 8"
  by (simp_all add: br_enc16le_def br_enc16be_def br_enc32le_def br_enc32be_def
      br_enc64le_def br_enc64be_def)

lemma enc32le_native: "br_enc32le x = le_bytes 4 x"
  by (simp add: br_enc32le_def le_bytes_def upt_rec)

lemma enc32be_be_bytes: "br_enc32be x = be_bytes 4 x"
  by (simp add: br_enc32be_def be_bytes_def le_bytes_def upt_rec)

lemma enc64le_native: "br_enc64le x = le_bytes 8 x"
  by (auto simp: br_enc64le_def br_enc32le_def le_bytes_def upt_rec bit_simps intro!: bit_word_eqI)

lemma enc64be_be_bytes: "br_enc64be x = be_bytes 8 x"
  by (auto simp: br_enc64be_def br_enc32be_def be_bytes_def le_bytes_def upt_rec bit_simps
      intro!: bit_word_eqI)

lemma dec32le_native: "length buf = 4 \<Longrightarrow> br_dec32le buf = le_word buf"
  by (auto simp: length_4_conv br_dec32le_def push_bit_or or.assoc)

lemma dec32be_be_word: "length buf = 4 \<Longrightarrow> br_dec32be buf = be_word buf"
  by (auto simp: length_4_conv br_dec32be_def be_word_def push_bit_or or.assoc or.commute
      or.left_commute)

lemma dec32_prefix:
  "4 \<le> length buf \<Longrightarrow> br_dec32le buf = le_word (take 4 buf)"
  "4 \<le> length buf \<Longrightarrow> br_dec32be buf = be_word (take 4 buf)"
  using dec32le_native [of "take 4 buf"] dec32be_be_word [of "take 4 buf"]
  by (simp_all add: br_dec32le_def br_dec32be_def)

lemma dec64le_native: "length buf = 8 \<Longrightarrow> br_dec64le buf = le_word buf"
  using le_word_append [of "take 4 buf" "drop 4 buf", where 'a = 64]
  by (simp add: br_dec64le_def dec32_prefix ucast_le_word)

lemma dec64be_be_word: "length buf = 8 \<Longrightarrow> br_dec64be buf = be_word buf"
  using le_word_append [of "rev (drop 4 buf)" "rev (take 4 buf)", where 'a = 64]
  by (simp add: br_dec64be_def dec32_prefix be_word_def ucast_le_word or.commute
      flip: rev_append)

lemmas enc_dec_native = enc32le_native enc32be_be_bytes enc64le_native enc64be_be_bytes
  dec32le_native dec32be_be_word dec64le_native dec64be_be_word

lemma bit_mask_00FF00FF: "bit (0x00FF00FF :: u32) n \<longleftrightarrow> n < 8 \<or> 16 \<le> n \<and> n < 24"
proof -
  have "(0x00FF00FF :: u32) = mask 8 OR push_bit 16 (mask 8)"
    by (simp add: mask_eq_exp_minus_1 push_bit_eq_mult)
  then show ?thesis by (simp only: bit_or_iff bit_push_bit_iff bit_mask_iff possible_bit_word) auto
qed

lemma br_swap32_bytes: "le_bytes 4 (br_swap32 x) = be_bytes 4 x"
proof -
  define m :: u32 where "m = 0x00FF00FF"
  have swap: "br_swap32 x = (let x = push_bit 8 (x AND m) OR (drop_bit 8 x AND m)
      in push_bit 16 x OR drop_bit 16 x)"
    by (simp only: br_swap32_def m_def)
  have m: "bit m k \<longleftrightarrow> k < 8 \<or> 16 \<le> k \<and> k < 24" for k
    by (simp only: m_def bit_mask_00FF00FF)
  have byte: "ucast (drop_bit n (br_swap32 x)) = (ucast (drop_bit (24 - n) x) :: u8)"
    if "n \<in> {0, 8, 16, 24}" for n
  proof (rule bit_word_eqI)
    fix k assume "k < LENGTH(8)"
    then have "k < 8" by simp
    with that show "bit (ucast (drop_bit n (br_swap32 x)) :: u8) k
        = bit (ucast (drop_bit (24 - n) x) :: u8) k"
      unfolding swap Let_def by (elim insertE) (simp_all add: bit_simps m)
  qed
  show ?thesis
    using byte [of 0] byte [of 8] byte [of 16] byte [of 24]
    by (simp add: be_bytes_def le_bytes_def upt_rec)
qed

lemma br_swap32_be_le: "length buf = 4 \<Longrightarrow> br_swap32 (br_dec32le buf) = br_dec32be buf"
  using br_swap32_bytes [of "br_dec32le buf"] le_word_le_bytes [of 4 "br_swap32 (br_dec32le buf)"]
  by (simp add: dec32le_native dec32be_be_word be_bytes_def le_bytes_le_word be_word_def)

section \<open>Lemmas: truth values\<close>

lemma push_bit_of_bool: "push_bit n (of_bool b) = (if b then 2 ^ n else 0 :: u32)"
  by (simp add: push_bit_eq_mult)

lemma drop31 [ct_simps]: "drop_bit 31 x = (of_bool (msbit x) :: u32)"
  using drop_bit_msbit [of x] by simp

lemma NOT_ctl_of_bool [ct_simps]: "NOT_ctl (of_bool b) = of_bool (\<not> b)"
  by (simp add: NOT_ctl_def)

lemma MUX_of_bool [ct_simps]: "MUX (of_bool b) x y = (if b then x else y)"
  by (simp add: MUX_def xor_swap)

lemma EQ_ct [ct_simps]: "EQ x y = of_bool (x = y)"
  by (simp only: EQ_def Let_def drop31 msbit_or_uminus NOT_ctl_of_bool not_not xor_zero_iff)

lemma NEQ_ct [ct_simps]: "NEQ x y = of_bool (x \<noteq> y)"
  by (simp only: NEQ_def Let_def drop31 msbit_or_uminus xor_zero_iff)

lemma GT_ct [ct_simps]: "GT x y = of_bool (y < x)"
proof -
  have "msbit (y - x) \<longleftrightarrow> (if unat x \<le> unat y then 2 ^ 31 \<le> unat y - unat x
      else 2 ^ 31 \<le> unat y + 2 ^ 32 - unat x)"
    using msbit_unat [of "y - x"] unat_sub_if' [of y x] by simp
  then have "(let z = y - x in msbit (z XOR ((x XOR y) AND (x XOR z)))) \<longleftrightarrow> unat y < unat x"
    using msbit_unat [of x] msbit_unat [of y] unat_bound [of x] unat_bound [of y]
    by (auto simp: Let_def split: if_splits)
  then show ?thesis
    by (simp only: GT_def Let_def drop31 word_less_nat_alt)
qed

lemma cmp_ct [ct_simps]:
  "GE x y = of_bool (y \<le> x)" "LT x y = of_bool (x < y)" "LE x y = of_bool (x \<le> y)"
  by (simp_all add: GE_def LT_def LE_def ct_simps not_less)

lemma EQ0_ct [ct_simps]: "EQ0 x = of_bool (x = 0)"
  by (simp only: EQ0_def Let_def drop31 msbit_not msbit_or_uminus not_not)

lemma GE0_ct [ct_simps]: "GE0 x = of_bool (0 \<le> sint x)"
  by (simp only: GE0_def drop31 msbit_not) (simp add: msbit_sint not_less)

lemma LT0_ct [ct_simps]: "LT0 x = of_bool (sint x < 0)"
  by (simp only: LT0_def drop31 msbit_sint)

text \<open>Negation of a signed value, with the wrap-around at \<open>INT32_MIN\<close>.\<close>

lemma msbit_uminus: "msbit (- x) \<longleftrightarrow> x \<noteq> 0 \<and> unat x \<le> 2 ^ 31" for x :: u32
proof (cases "x = 0")
  case False
  then have "unat (- x) = 2 ^ 32 - unat x"
    using unat_sub_if' [of 0 x] by (simp add: unat_eq_zero)
  with False show ?thesis
    using msbit_unat [of "- x"] unat_bound [of x] by auto
qed simp

lemma sint_pos_iff: "0 < sint x \<longleftrightarrow> x \<noteq> 0 \<and> \<not> msbit x" for x :: u32
  by (metis msbit_sint not_less_iff_gr_or_eq signed_0 signed_word_eqI)

lemma GT0_ct [ct_simps]: "GT0 x = of_bool (0 < sint x)"
proof -
  have "msbit (NOT x AND - x) \<longleftrightarrow> 0 < sint x"
    using msbit_unat [of x] by (auto simp: msbit_uminus sint_pos_iff)
  then show ?thesis by (simp only: GT0_def Let_def drop31)
qed

lemma LE0_ct [ct_simps]: "LE0 x = of_bool (sint x \<le> 0)"
proof -
  have "msbit (x OR NOT (- x)) \<longleftrightarrow> \<not> 0 < sint x"
    using msbit_unat [of x] by (auto simp: msbit_uminus sint_pos_iff)
  then show ?thesis by (simp only: LE0_def Let_def drop31 not_less)
qed

lemma CMP_ct: "CMP x y = (if y < x then 1 else if x < y then - 1 else 0)"
  by (auto simp: CMP_def ct_simps)

lemma MIN_MAX_ct [ct_simps]: "MIN_u32 x y = min x y" "MAX_u32 x y = max x y"
  by (auto simp: MIN_u32_def MAX_u32_def ct_simps min_def max_def)

section \<open>Bit length\<close>

fun bit_len :: "nat \<Rightarrow> nat" where
  "bit_len n = (if n = 0 then 0 else Suc (bit_len (n div 2)))"

declare bit_len.simps [simp del]

lemma bit_len_0 [simp]: "bit_len 0 = 0"
  by (simp add: bit_len.simps)

lemma bit_len_shift: "2 ^ s \<le> n \<Longrightarrow> bit_len n = s + bit_len (n div 2 ^ s)"
proof (induction s arbitrary: n)
  case (Suc s)
  have "0 < (2::nat) ^ s" by simp
  with Suc.prems have "0 < n" by (simp only: power_Suc)
  from Suc.prems have "2 ^ s \<le> n div 2" by auto
  with Suc.IH [of "n div 2"] \<open>0 < n\<close> show ?case
    by (simp add: bit_len.simps [of n] div_mult2_eq)
qed simp

lemma bit_len_small: "n < 4 \<Longrightarrow> bit_len n = of_bool (0 < n) + of_bool (1 < n)"
proof -
  assume "n < 4"
  then consider "n = 0" | "n = 1" | "n = 2" | "n = 3" by linarith
  then show ?thesis by cases (simp_all add: bit_len.simps)
qed

lemma bit_len_bounds: "n < 2 ^ bit_len n \<and> (0 < n \<longrightarrow> 2 ^ (bit_len n - 1) \<le> n)"
proof (induction n rule: bit_len.induct)
  case (1 n)
  show ?case
  proof (cases "n = 0")
    case False
    with 1 have IH: "n div 2 < 2 ^ bit_len (n div 2)"
      "0 < n div 2 \<longrightarrow> 2 ^ (bit_len (n div 2) - 1) \<le> n div 2" by auto
    have eq: "bit_len n = Suc (bit_len (n div 2))"
      using False by (simp add: bit_len.simps [of n])
    have "2 ^ bit_len (n div 2) \<le> n"
    proof (cases "n div 2 = 0")
      case True
      with False show ?thesis by simp
    next
      case pos: False
      then have "0 < bit_len (n div 2)" by (simp add: bit_len.simps [of "n div 2"])
      with IH pos show ?thesis
        by (cases "bit_len (n div 2)") auto
    qed
    with IH eq show ?thesis by auto
  qed simp
qed

text \<open>One halving step of \<open>BIT_LENGTH\<close>: shift right by \<open>s\<close> when the value has more than \<open>s\<close> bits.\<close>

definition halve :: "nat \<Rightarrow> u32 \<Rightarrow> u32" where
  "halve s x = (if 2 ^ s \<le> unat x then drop_bit s x else x)"

lemma unat_halve: "unat (halve s x) = (if 2 ^ s \<le> unat x then unat x div 2 ^ s else unat x)"
  by (simp add: halve_def unat_drop_bit_eq flip: drop_bit_eq_div)

lemma halve_bit_len:
  "bit_len (unat x) = (if 2 ^ s \<le> unat x then s else 0) + bit_len (unat (halve s x))"
  using bit_len_shift [of s "unat x"] by (simp add: unat_halve)

lemma halve_bound: "unat x < 2 ^ (s + s) \<Longrightarrow> unat (halve s x) < 2 ^ s"
  by (simp add: unat_halve power_add less_mult_imp_div_less)

lemma halve_pos: "0 < unat (halve s x) \<longleftrightarrow> 0 < unat x"
proof -
  have "0 < unat x" if "2 ^ s \<le> unat x"
    using that less_le_trans [of 0 "2 ^ s" "unat x"] by simp
  then show ?thesis by (auto simp: unat_halve div_greater_zero_iff)
qed

lemma MUX_halve:
  assumes "m = 2 ^ s - 1" and "s < 32"
  shows "MUX (GT x m) (drop_bit s x) x = halve s x" "GT x m = of_bool (2 ^ s \<le> unat x)"
proof -
  have "unat m = 2 ^ s - 1"
    using assms by (simp add: unat_minus_one)
  then have "m < x \<longleftrightarrow> 2 ^ s \<le> unat x"
    using one_le_power [of "2::nat" s] by (simp only: word_less_nat_alt) linarith
  then show "MUX (GT x m) (drop_bit s x) x = halve s x" "GT x m = of_bool (2 ^ s \<le> unat x)"
    by (simp_all add: ct_simps halve_def)
qed

lemma BIT_LENGTH_bit_len: "BIT_LENGTH x = of_nat (bit_len (unat x))"
proof -
  define x1 where "x1 = halve 16 x"
  define x2 where "x2 = halve 8 x1"
  define x3 where "x3 = halve 4 x2"
  define x4 where "x4 = halve 2 x3"
  have e: "MUX (GT x 0xFFFF) (drop_bit 16 x) x = x1" "MUX (GT x1 0xFF) (drop_bit 8 x1) x1 = x2"
    "MUX (GT x2 0xF) (drop_bit 4 x2) x2 = x3" "MUX (GT x3 3) (drop_bit 2 x3) x3 = x4"
    unfolding x1_def x2_def x3_def x4_def by (rule MUX_halve; simp)+
  have g: "GT x 0xFFFF = of_bool (2 ^ 16 \<le> unat x)" "GT x1 0xFF = of_bool (2 ^ 8 \<le> unat x1)"
    "GT x2 0xF = of_bool (2 ^ 4 \<le> unat x2)" "GT x3 3 = of_bool (2 ^ 2 \<le> unat x3)"
    "GT x4 1 = of_bool (1 < unat x4)"
    by (rule MUX_halve; simp)+ (simp add: GT_ct word_less_nat_alt)
  have b: "unat x1 < 2 ^ 16" "unat x2 < 2 ^ 8" "unat x3 < 2 ^ 4" "unat x4 < 2 ^ 2"
    using halve_bound [of x 16] halve_bound [of x1 8] halve_bound [of x2 4] halve_bound [of x3 2]
      unat_bound [of x]
    by (simp_all add: x1_def x2_def x3_def x4_def)
  have pos: "0 < unat x4 \<longleftrightarrow> x \<noteq> 0"
    using halve_pos [of 16 x] halve_pos [of 8 x1] halve_pos [of 4 x2] halve_pos [of 2 x3]
    unfolding x1_def [symmetric] x2_def [symmetric] x3_def [symmetric] x4_def [symmetric]
    by (simp add: unat_gt_0)
  have last: "bit_len (unat x4) = of_bool (x \<noteq> 0) + of_bool (1 < unat x4)"
    using bit_len_small [of "unat x4"] b(4) pos by simp
  have "bit_len (unat x) = of_bool (x \<noteq> 0) + (if 2 ^ 16 \<le> unat x then 16 else 0)
      + (if 2 ^ 8 \<le> unat x1 then 8 else 0) + (if 2 ^ 4 \<le> unat x2 then 4 else 0)
      + (if 2 ^ 2 \<le> unat x3 then 2 else 0) + of_bool (1 < unat x4)"
    using halve_bit_len [of x 16] halve_bit_len [of x1 8] halve_bit_len [of x2 4]
      halve_bit_len [of x3 2] last
    unfolding x1_def [symmetric] x2_def [symmetric] x3_def [symmetric] x4_def [symmetric]
    by simp
  moreover have "BIT_LENGTH x = of_bool (x \<noteq> 0) + (if 2 ^ 16 \<le> unat x then 16 else 0)
      + (if 2 ^ 8 \<le> unat x1 then 8 else 0) + (if 2 ^ 4 \<le> unat x2 then 4 else 0)
      + (if 2 ^ 2 \<le> unat x3 then 2 else 0) + of_bool (1 < unat x4)"
    unfolding BIT_LENGTH_def Let_def e
    by (simp add: g NEQ_ct push_bit_of_bool)
  ultimately show ?thesis by simp
qed

lemma bit_len_least: "bit_len n = (LEAST k. n < 2 ^ k)"
proof (rule Least_equality [symmetric])
  show "n < 2 ^ bit_len n" using bit_len_bounds by blast
next
  fix k assume k: "n < 2 ^ k"
  show "bit_len n \<le> k"
  proof (rule ccontr)
    assume "\<not> bit_len n \<le> k"
    then have "k \<le> bit_len n - 1" and "0 < n" by (auto intro: gr0I)
    then have "(2::nat) ^ k \<le> 2 ^ (bit_len n - 1)" by (intro power_increasing) auto
    also have "\<dots> \<le> n" using bit_len_bounds [of n] \<open>0 < n\<close> by blast
    finally show False using k by simp
  qed
qed

lemma bit_len_le_32: "bit_len (unat (x :: u32)) \<le> 32"
  unfolding bit_len_least using unat_bound [of x] by (intro Least_le) simp

section \<open>Properties\<close>

text \<open>The constant-time comparison primitives return exactly the truth value of the comparison
  they are named after, as 0 or 1, for every pair of 32-bit inputs (unsigned comparisons) and every
  signed operand (the comparisons with zero): there is no input on which the subtract-and-mask
  arithmetic gives the wrong answer.\<close>

theorem inner_comparisons_correct:
  "EQ x y = of_bool (x = y) \<and> NEQ x y = of_bool (x \<noteq> y) \<and> GT x y = of_bool (y < x)
    \<and> GE x y = of_bool (y \<le> x) \<and> LT x y = of_bool (x < y) \<and> LE x y = of_bool (x \<le> y)
    \<and> CMP x y = (if y < x then 1 else if x < y then - 1 else 0)
    \<and> MIN_u32 x y = min x y \<and> MAX_u32 x y = max x y
    \<and> EQ0 z = of_bool (sint z = 0) \<and> GT0 z = of_bool (0 < sint z)
    \<and> GE0 z = of_bool (0 \<le> sint z) \<and> LT0 z = of_bool (sint z < 0)
    \<and> LE0 z = of_bool (sint z \<le> 0)"
proof -
  have "z = 0 \<longleftrightarrow> sint z = 0" by (metis signed_0 signed_word_eqI)
  then show ?thesis by (simp only: ct_simps CMP_ct simp_thms)
qed

text \<open>\<open>BIT_LENGTH\<close> returns the bit length of its argument: the least number of bits that can hold
  it.\<close>

theorem bit_length_correct: "unat (BIT_LENGTH x) = (LEAST k. unat x < 2 ^ k)"
proof -
  have "bit_len (unat x) < 2 ^ 32" using bit_len_le_32 [of x] by simp
  then have "unat (BIT_LENGTH x) = bit_len (unat x)"
    by (simp add: BIT_LENGTH_bit_len unat_of_nat)
  then show ?thesis by (simp add: bit_len_least)
qed

text \<open>Every encoder of \<open>inner.h\<close> is inverted by its decoder, and the decoders are inverted by the
  encoders on buffers of the right size; \<open>br_swap32\<close> exchanges the two byte orders.\<close>

theorem inner_codec_roundtrip:
  "br_dec32be (br_enc32be x) = x \<and> br_dec32le (br_enc32le x) = x
    \<and> br_dec64be (br_enc64be y) = y \<and> br_dec64le (br_enc64le y) = y
    \<and> br_enc32be (br_dec32be [a, b, c, d]) = [a, b, c, d]
    \<and> br_enc32le (br_dec32le [a, b, c, d]) = [a, b, c, d]
    \<and> br_swap32 (br_dec32le [a, b, c, d]) = br_dec32be [a, b, c, d]"
  using br_swap32_be_le [of "[a, b, c, d]"]
  by (simp add: enc_dec_native le_word_le_bytes be_word_be_bytes le_bytes_le_word be_bytes_be_word
      del: le_word.simps)

end
