(* ===== verification/Hash_Stream.thy ===== *)
theory Hash_Stream imports CT_Inner begin

text \<open>
  What the hash functions of \<open>bearssl/hash\<close> share. A context (\<open>br_sha1_context\<close>,
  \<open>br_sha224_context\<close>, which is also \<open>br_sha256_context\<close>) is one record type. The second half is
  the Merkle-Damgard reading of such a context: \<open>md_rel\<close> relates the buffer and the running value
  to the message injected so far, and the interface \<open>stream_hash\<close> states what the methods of a
  \<open>br_hash_class\<close> promise about it; its client is HMAC.
\<close>

section \<open>Contexts and range codecs\<close>

datatype hash_vtable = vtable_sha1 | vtable_sha224 | vtable_sha256

record hash_context =
  hc_vtable :: hash_vtable
  hc_buf :: bytes
  hc_count :: u64
  hc_val :: "u32 list"

fun br_range_dec32be :: "nat \<Rightarrow> bytes \<Rightarrow> u32 list" where
  "br_range_dec32be 0 src = []"
| "br_range_dec32be (Suc num) src = br_dec32be src # br_range_dec32be num (drop 4 src)"

fun br_range_enc32be :: "u32 list \<Rightarrow> bytes" where
  "br_range_enc32be [] = []"
| "br_range_enc32be (v # vs) = br_enc32be v @ br_range_enc32be vs"

lemma length_range_dec32be [simp]: "length (br_range_dec32be n src) = n"
  by (induction n arbitrary: src) auto

lemma length_range_enc32be [simp]: "length (br_range_enc32be vs) = 4 * length vs"
  by (induction vs) auto

lemma br_dec32be_append: "length xs = 4 \<Longrightarrow> br_dec32be (xs @ ys) = br_dec32be xs"
  by (auto simp: length_4_conv br_dec32be_def)

lemma dec_enc_32be: "br_dec32be (br_enc32be v) = v"
  by (simp add: enc_dec_native be_word_be_bytes)

lemma range_dec_enc [simp]: "br_range_dec32be (length vs) (br_range_enc32be vs @ rest) = vs"
  by (induction vs) (auto simp: br_dec32be_append dec_enc_32be)

lemma range_dec_enc_prefix: "length vs = n \<Longrightarrow> br_range_dec32be n (br_range_enc32be vs @ rest) = vs"
  using range_dec_enc [of vs rest] by simp

lemma nth_range_dec32be:
  "i < n \<Longrightarrow> br_range_dec32be n src ! i = br_dec32be (drop (4 * i) src)"
proof (induction n arbitrary: i src)
  case (Suc n)
  then show ?case by (cases i) (auto simp: drop_drop add.commute)
qed simp

lemma range_enc32be_concat: "br_range_enc32be vs = concat (map (be_bytes 4) vs)"
  by (induction vs) (simp_all add: enc_dec_native)

section \<open>Merkle-Damgard iteration\<close>

function md_fold :: "(bytes \<Rightarrow> 'v \<Rightarrow> 'v) \<Rightarrow> 'v \<Rightarrow> bytes \<Rightarrow> 'v" where
  "md_fold round v m =
     (if length m < 64 then v else md_fold round (round (take 64 m) v) (drop 64 m))"
  by pat_completeness auto
termination by (relation "measure (\<lambda>(_, _, m). length m)") auto

declare md_fold.simps [simp del]

lemma md_fold_short: "length m < 64 \<Longrightarrow> md_fold round v m = v"
  by (simp add: md_fold.simps)

lemma md_fold_append:
  assumes "64 dvd length a"
  shows "md_fold round v (a @ b) = md_fold round (md_fold round v a) b"
  using assms
proof (induction round v a rule: md_fold.induct)
  case (1 round v a)
  show ?case
  proof (cases "length a < 64")
    case True
    with 1 have "a = []" using nat_dvd_not_less by fastforce
    then show ?thesis by (simp add: md_fold_short)
  next
    case False
    with 1 show ?thesis
      by (simp add: md_fold.simps [of round v "a @ b"] md_fold.simps [of round v a] dvd_diff_nat)
  qed
qed

lemma md_fold_block: "length a = 64 \<Longrightarrow> md_fold round v a = round a v"
  by (simp add: md_fold.simps [of round v a] md_fold_short)

lemma md_fold_cong:
  assumes "\<And>b v. length b = 64 \<Longrightarrow> f b v = g b v"
  shows "md_fold f v m = md_fold g v m"
  using assms
  by (induction f v m rule: md_fold.induct) (subst (1 2) md_fold.simps, simp)

lemma count_and_63 [simp]: "unat ((of_nat n :: u64) AND 63) = n mod 64"
proof -
  have "unat ((of_nat n :: u64) AND 63) = take_bit 64 n AND mask 6"
    by (simp add: unsigned_and_eq unsigned_of_nat mask_numeral)
  also have "\<dots> = n mod 64"
    by (simp only: take_bit_eq_mask [symmetric] take_bit_take_bit) (simp add: take_bit_eq_mod)
  finally show ?thesis .
qed

definition md_full :: "bytes \<Rightarrow> nat" where
  "md_full m = 64 * (length m div 64)"

definition md_rel ::
  "(bytes \<Rightarrow> 'v \<Rightarrow> 'v) \<Rightarrow> 'v \<Rightarrow> bytes \<Rightarrow> bytes \<Rightarrow> 'v \<Rightarrow> bool" where
  "md_rel round iv m b v \<longleftrightarrow> length b = 64
     \<and> v = md_fold round iv (take (md_full m) m)
     \<and> take (length m mod 64) b = drop (md_full m) m"

lemma mod64_add:
  fixes n d :: nat
  assumes "n mod 64 + d < 64"
  shows "(n + d) div 64 = n div 64 \<and> (n + d) mod 64 = n mod 64 + d"
proof -
  obtain q r where n: "n = 64 * q + r" and r: "r < 64"
    using that [of "n div 64" "n mod 64"] by simp
  then have "n div 64 = q" "n mod 64 = r" by simp_all
  moreover have "(n + d) div 64 = q"
    using assms n r by (intro div_nat_eqI) simp_all
  moreover have "(n + d) mod 64 = r + d"
    using assms n r by (intro mod_nat_eqI) simp_all
  ultimately show ?thesis by simp
qed

lemma mod64_fill:
  fixes n d :: nat
  assumes "n mod 64 + d = 64"
  shows "n + d = 64 * Suc (n div 64)"
proof -
  obtain q r where "n = 64 * q + r" and "r < 64"
    using that [of "n div 64" "n mod 64"] by simp
  with assms show ?thesis by simp
qed

lemma md_full_le: "md_full m \<le> length m"
  by (simp add: md_full_def)

lemma md_full_plus: "md_full m + length m mod 64 = length m"
  by (simp add: md_full_def)

lemma md_rel_init: "length b = 64 \<Longrightarrow> md_rel round iv [] b iv"
  by (simp add: md_rel_def md_full_def md_fold_short)

text \<open>Copying \<open>d\<close> behind the pending bytes without completing a block.\<close>

lemma md_rel_partial:
  assumes "md_rel round iv m b v" and "length m mod 64 + length d < 64"
  shows "md_rel round iv (m @ d) (memcpy_at (length m mod 64) d b) v"
proof -
  have "(length m + length d) div 64 = length m div 64"
    and "(length m + length d) mod 64 = length m mod 64 + length d"
    using mod64_add [of "length m" "length d"] assms(2) by simp_all
  with assms show ?thesis
    by (simp add: md_rel_def md_full_def memcpy_at_def minus_mult_div_eq_mod)
qed

text \<open>Copying \<open>d\<close> completes the block, which is then processed.\<close>

lemma md_rel_complete:
  assumes "md_rel round iv m b v" and "length m mod 64 + length d = 64"
  shows "md_rel round iv (m @ d) (memcpy_at (length m mod 64) d b)
    (round (memcpy_at (length m mod 64) d b) v)"
proof -
  let ?b = "memcpy_at (length m mod 64) d b"
  have split: "length m + length d = 64 * Suc (length m div 64)"
    using mod64_fill [of "length m" "length d"] assms(2) by simp
  have full: "md_full (m @ d) = length (m @ d)"
    by (simp add: md_full_def split)
  have b: "?b = drop (md_full m) m @ d"
    using assms by (simp add: md_rel_def memcpy_at_def)
  have "md_fold round iv (m @ d) = md_fold round v ?b"
    using assms(1) md_fold_append [of "take (md_full m) m" round iv ?b] md_full_le [of m]
    by (simp add: md_rel_def b min_absorb2 flip: append_assoc) (simp add: md_full_def)
  moreover have "length ?b = 64"
    using assms md_full_plus [of m] by (simp add: md_rel_def)
  ultimately show ?thesis
    by (simp add: md_rel_def full md_fold_block) (simp add: split)
qed

text \<open>
  Both update loops copy what fits behind the \<open>ptr\<close> pending bytes, process the block when it is full
  and start again at 0. \<open>md_loop\<close> is that loop for a round function.
\<close>

function md_loop :: "(bytes \<Rightarrow> 'v \<Rightarrow> 'v) \<Rightarrow> nat \<Rightarrow> bytes \<Rightarrow> bytes \<Rightarrow> 'v \<Rightarrow> bytes \<times> 'v" where
  "md_loop round ptr data b v =
     (if data = [] \<or> 64 \<le> ptr then (b, v)
      else let clen = min (64 - ptr) (length data);
               b = memcpy_at ptr (take clen data) b;
               ptr = ptr + clen;
               data = drop clen data
           in if ptr = 64 then md_loop round 0 data b (round b v) else md_loop round ptr data b v)"
  by pat_completeness auto
termination by (relation "measure (\<lambda>(_, _, data, _, _). length data)") auto

declare md_loop.simps [simp del]

lemma length_md_loop:
  "(\<And>b v. length (round b v) = k) \<Longrightarrow> length v = k \<Longrightarrow> length (snd (md_loop round ptr data b v)) = k"
  by (induction round ptr data b v rule: md_loop.induct) (subst md_loop.simps, simp add: Let_def)

lemma md_loop_rel:
  assumes "md_rel round iv m b v" and "ptr = length m mod 64"
  shows "case md_loop round ptr data b v of (b', v') \<Rightarrow> md_rel round iv (m @ data) b' v'"
  using assms
proof (induction round ptr data b v arbitrary: m rule: md_loop.induct)
  case (1 round ptr data b v)
  let ?d = "take (min (64 - ptr) (length data)) data" and ?r = "drop (min (64 - ptr) (length data)) data"
  let ?b = "memcpy_at ptr ?d b"
  have lt: "ptr < 64" using 1(4) by simp
  consider "data = []" | "data \<noteq> []" "ptr + length ?d = 64" | "data \<noteq> []" "ptr + length ?d < 64"
    using lt by force
  then show ?case
  proof cases
    case 1
    with \<open>md_rel round iv m b v\<close> show ?thesis by (simp add: md_loop.simps)
  next
    case 2
    from 2 1(3,4) have "md_rel round iv (m @ ?d) ?b (round ?b v)"
      using md_rel_complete [of round iv m b v ?d] by simp
    moreover have "0 = length (m @ ?d) mod 64"
      unfolding length_append using 2 1(4) by (subst mod64_fill) simp_all
    ultimately have "case md_loop round 0 ?r ?b (round ?b v) of
        (b', v') \<Rightarrow> md_rel round iv ((m @ ?d) @ ?r) b' v'"
      using 2 lt by (intro 1(1) [OF _ refl refl refl refl]) auto
    then show ?thesis using 2 lt by (simp add: md_loop.simps [of round ptr] Let_def)
  next
    case 3
    from 3 1(3,4) have "md_rel round iv (m @ ?d) ?b v"
      using md_rel_partial [of round iv m b v ?d] by simp
    moreover have "ptr + min (64 - ptr) (length data) = length (m @ ?d) mod 64"
      using mod64_add [of "length m" "length ?d"] 3 1(4) by simp
    ultimately have "case md_loop round (ptr + min (64 - ptr) (length data)) ?r ?b v of
        (b', v') \<Rightarrow> md_rel round iv ((m @ ?d) @ ?r) b' v'"
      using 3 lt by (intro 1(2) [OF _ refl refl refl refl]) auto
    moreover have "ptr + length data < 64" using 3 lt by (auto simp: min_def split: if_splits)
    ultimately show ?thesis using 3 lt by (simp add: md_loop.simps [of round ptr] Let_def)
  qed
qed

section \<open>Padding\<close>

definition md_pad :: "bytes \<Rightarrow> bytes" where
  "md_pad m = m @ [0x80] @ replicate ((119 - length m mod 64) mod 64) 0
     @ be_bytes 8 (of_nat (8 * length m) :: u64)"

text \<open>
  The code pads in a local block: the pending bytes, 0x80, zeros, and the bit count in the last
  eight bytes, going through a second block when fewer than nine bytes are left in the first.
  \<open>md_close\<close> is that computation with the bit count given.
\<close>

definition md_close :: "(bytes \<Rightarrow> 'v \<Rightarrow> 'v) \<Rightarrow> nat \<Rightarrow> bytes \<Rightarrow> bytes \<Rightarrow> 'v \<Rightarrow> 'v" where
  "md_close round ptr b enc v =
     (if 56 < Suc ptr
      then round (replicate 56 0 @ enc) (round (take ptr b @ [0x80] @ replicate (63 - ptr) 0) v)
      else round (take ptr b @ [0x80] @ replicate (55 - ptr) 0 @ enc) v)"

lemma md_buf_mark:
  assumes "length b = 64" and "ptr < 64"
  shows "(memcpy_at 0 (take ptr b) (replicate 64 0))[ptr := x] = take ptr b @ [x] @ replicate (63 - ptr) 0"
proof -
  have "64 - ptr = Suc (63 - ptr)" using assms(2) by simp
  then show ?thesis using assms by (simp add: memcpy_at_def list_update_append)
qed

lemma md_close_pad:
  assumes rel: "md_rel round iv m b v" and enc: "enc = be_bytes 8 (of_nat (8 * length m) :: u64)"
  shows "md_close round (length m mod 64) b enc v = md_fold round iv (md_pad m)"
proof -
  let ?r = "length m mod 64" and ?t = "take (md_full m) m"
  have r: "?r < 64" by simp
  have tl: "take ?r b = drop (md_full m) m" and v: "v = md_fold round iv ?t"
    using rel by (simp_all add: md_rel_def)
  have len: "length (take ?r b) = ?r" using rel md_full_plus [of m] by (simp add: md_rel_def)
  have pad: "md_pad m = ?t @ take ?r b @ [0x80] @ replicate ((119 - ?r) mod 64) 0 @ enc"
    by (simp add: md_pad_def tl enc flip: append_assoc)
  have fold: "md_fold round iv (md_pad m)
      = md_fold round v (take ?r b @ [0x80] @ replicate ((119 - ?r) mod 64) 0 @ enc)"
    unfolding pad v by (rule md_fold_append) (simp add: md_full_def)
  show ?thesis
  proof (cases "56 < Suc ?r")
    case True
    then have z: "(119 - ?r) mod 64 = (63 - ?r) + 56" using r by simp
    have "md_fold round v (take ?r b @ [0x80] @ replicate ((119 - ?r) mod 64) 0 @ enc)
        = md_fold round v ((take ?r b @ [0x80] @ replicate (63 - ?r) 0) @ replicate 56 0 @ enc)"
      by (simp only: z replicate_add append_assoc)
    also have "\<dots> = round (replicate 56 0 @ enc) (round (take ?r b @ [0x80] @ replicate (63 - ?r) 0) v)"
      using len r by (subst md_fold_append) (simp_all add: md_fold_block enc)
    finally show ?thesis using True fold by (simp add: md_close_def)
  next
    case False
    then have z: "(119 - ?r) mod 64 = 55 - ?r" by (simp add: le_mod_geq)
    show ?thesis using False fold len by (simp add: md_close_def z md_fold_block enc)
  qed
qed

section \<open>The streaming hash interface\<close>

text \<open>
  What the methods of a \<open>br_hash_class\<close> promise: \<open>repr m c\<close> says that context \<open>c\<close> stands for the
  message \<open>m\<close>; \<open>init\<close> starts the empty message, \<open>update\<close> appends, \<open>out\<close> yields the digest of the
  message and does not need it to end on a block, and the running state taken on a block boundary can
  be installed in any other context.
\<close>

locale stream_hash =
  fixes init :: "hash_context \<Rightarrow> hash_context"
    and update :: "hash_context \<Rightarrow> bytes \<Rightarrow> hash_context"
    and out :: "hash_context \<Rightarrow> bytes"
    and state :: "hash_context \<Rightarrow> bytes \<times> u64"
    and set_state :: "hash_context \<Rightarrow> bytes \<Rightarrow> u64 \<Rightarrow> hash_context"
    and digest :: "bytes \<Rightarrow> bytes"
    and repr :: "bytes \<Rightarrow> hash_context \<Rightarrow> bool"
    and hlen :: nat
  assumes repr_init: "length (hc_buf c) = 64 \<Longrightarrow> repr [] (init c)"
    and repr_update: "repr m c \<Longrightarrow> repr (m @ d) (update c d)"
    and repr_buf: "repr m c \<Longrightarrow> length (hc_buf c) = 64"
    and out_digest: "repr m c \<Longrightarrow> out c = digest m"
    and restore: "repr m c \<Longrightarrow> 64 dvd length m \<Longrightarrow> length (hc_buf c') = 64 \<Longrightarrow>
      repr m (set_state c' (fst (state c) @ rest) (of_nat (length m)))"
    and digest_length: "length (digest m) = hlen"
begin

lemma repr_foldl: "repr m c \<Longrightarrow> repr (m @ concat ds) (foldl update c ds)"
proof (induction ds arbitrary: m c)
  case (Cons d ds)
  from repr_update [OF Cons.prems, of d] have "repr ((m @ d) @ concat ds) (foldl update (update c d) ds)"
    by (rule Cons.IH)
  then show ?case by simp
qed simp

lemma chunks_digest: "length (hc_buf c) = 64 \<Longrightarrow> out (foldl update (init c) ds) = digest (concat ds)"
  using repr_foldl [OF repr_init, of c ds] by (simp add: out_digest)

lemma one_shot: "length (hc_buf c) = 64 \<Longrightarrow> out (update (init c) d) = digest d"
  using chunks_digest [of c "[d]"] by simp

lemma resume:
  "length (hc_buf c) = 64 \<Longrightarrow> length (hc_buf c') = 64 \<Longrightarrow> length k = 64 \<Longrightarrow>
   repr k (set_state c' (fst (state (update (init c) k)) @ rest) 64)"
  using restore [OF repr_update [OF repr_init, of c k], of c'] by simp

end

end
