(* ===== verification/SHA1.thy ===== *)
theory SHA1 imports Hash_Stream begin

text \<open>
  \<open>c_src/bearssl/hash/sha1.c\<close>: SHA-1, used only as a hash the HMAC code may be keyed with. The code's
  five-fold unrolled rounds are related to the FIPS 180-4 description, and its context methods to
  the streaming interface.
\<close>

section \<open>The code\<close>

definition F :: "u32 \<Rightarrow> u32 \<Rightarrow> u32 \<Rightarrow> u32" where
  "F B C D = ((C XOR D) AND B) XOR D"

definition G :: "u32 \<Rightarrow> u32 \<Rightarrow> u32 \<Rightarrow> u32" where
  "G B C D = B XOR C XOR D"

definition H :: "u32 \<Rightarrow> u32 \<Rightarrow> u32 \<Rightarrow> u32" where
  "H B C D = (D AND C) OR ((D OR C) AND B)"

definition I :: "u32 \<Rightarrow> u32 \<Rightarrow> u32 \<Rightarrow> u32" where
  "I B C D = G B C D"

definition ROTL :: "u32 \<Rightarrow> nat \<Rightarrow> u32" where
  "ROTL x n = push_bit n x OR drop_bit (32 - n) x"

definition K1 :: u32 where "K1 = 0x5A827999"
definition K2 :: u32 where "K2 = 0x6ED9EBA1"
definition K3 :: u32 where "K3 = 0x8F1BBCDC"
definition K4 :: u32 where "K4 = 0xCA62C1D6"

definition br_sha1_IV :: "u32 list" where
  "br_sha1_IV = [0x67452301, 0xEFCDAB89, 0x98BADCFE, 0x10325476, 0xC3D2E1F0]"

text \<open>
  One line of the round loops, \<open>e += ROTL(a, 5) + f(b, c, d) + k + m[j]; b = ROTL(b, 30);\<close>, returns the
  new \<open>e\<close> and \<open>b\<close>; a loop body is five of them with the registers rotated.
\<close>

definition sha1_line ::
  "(u32 \<Rightarrow> u32 \<Rightarrow> u32 \<Rightarrow> u32) \<Rightarrow> u32 \<Rightarrow> u32 list \<Rightarrow> nat \<Rightarrow> u32 \<Rightarrow> u32 \<Rightarrow> u32 \<Rightarrow> u32 \<Rightarrow> u32 \<Rightarrow> u32 \<times> u32" where
  "sha1_line f k m j a b c d e = (e + (ROTL a 5 + f b c d + k + m ! j), ROTL b 30)"

type_synonym sha1_regs = "u32 \<times> u32 \<times> u32 \<times> u32 \<times> u32"

definition sha1_body ::
  "(u32 \<Rightarrow> u32 \<Rightarrow> u32 \<Rightarrow> u32) \<Rightarrow> u32 \<Rightarrow> u32 list \<Rightarrow> nat \<Rightarrow> sha1_regs \<Rightarrow> sha1_regs" where
  "sha1_body f k m i = (\<lambda>(a, b, c, d, e).
     (let (e, b) = sha1_line f k m (i + 0) a b c d e;
          (d, a) = sha1_line f k m (i + 1) e a b c d;
          (c, e) = sha1_line f k m (i + 2) d e a b c;
          (b, d) = sha1_line f k m (i + 3) c d e a b;
          (a, c) = sha1_line f k m (i + 4) b c d e a
      in (a, b, c, d, e)))"

definition sha1_expand :: "nat \<Rightarrow> u32 list \<Rightarrow> u32 list" where
  "sha1_expand i m =
     (let x = m ! (i - 3) XOR m ! (i - 8) XOR m ! (i - 14) XOR m ! (i - 16) in m[i := ROTL x 1])"

definition sha1_schedule :: "bytes \<Rightarrow> u32 list" where
  "sha1_schedule buf =
     fold sha1_expand [16..<80] (memcpy_at 0 (br_range_dec32be 16 buf) (replicate 80 0))"

definition br_sha1_round :: "bytes \<Rightarrow> u32 list \<Rightarrow> u32 list" where
  "br_sha1_round buf val =
     (let m = sha1_schedule buf;
          r = (val ! 0, val ! 1, val ! 2, val ! 3, val ! 4);
          r = fold (sha1_body F K1 m) [0, 5, 10, 15] r;
          r = fold (sha1_body G K2 m) [20, 25, 30, 35] r;
          r = fold (sha1_body H K3 m) [40, 45, 50, 55] r;
          (a, b, c, d, e) = fold (sha1_body I K4 m) [60, 65, 70, 75] r
      in [val ! 0 + a, val ! 1 + b, val ! 2 + c, val ! 3 + d, val ! 4 + e])"

definition br_sha1_init :: "hash_context \<Rightarrow> hash_context" where
  "br_sha1_init cc = cc\<lparr>hc_vtable := vtable_sha1, hc_val := br_sha1_IV, hc_count := 0\<rparr>"

text \<open>The loop of \<open>br_sha1_update\<close>, which counts the bytes as it copies them; \<open>ptr < 64\<close> always holds.\<close>

function sha1_loop :: "nat \<Rightarrow> bytes \<Rightarrow> hash_context \<Rightarrow> hash_context" where
  "sha1_loop ptr data cc =
     (if data = [] \<or> 64 \<le> ptr then cc
      else let clen = min (64 - ptr) (length data);
               cc = cc\<lparr>hc_buf := memcpy_at ptr (take clen data) (hc_buf cc)\<rparr>;
               ptr = ptr + clen;
               data = drop clen data;
               cc = cc\<lparr>hc_count := hc_count cc + of_nat clen\<rparr>
           in if ptr = 64
              then sha1_loop 0 data (cc\<lparr>hc_val := br_sha1_round (hc_buf cc) (hc_val cc)\<rparr>)
              else sha1_loop ptr data cc)"
  by pat_completeness auto
termination by (relation "measure (\<lambda>(_, data, _). length data)") auto

definition br_sha1_update :: "hash_context \<Rightarrow> bytes \<Rightarrow> hash_context" where
  "br_sha1_update cc data = sha1_loop (unat (hc_count cc AND 63)) data cc"

definition br_sha1_out :: "hash_context \<Rightarrow> bytes" where
  "br_sha1_out cc =
     (let ptr = unat (hc_count cc AND 63);
          b = memcpy_at 0 (take ptr (hc_buf cc)) (replicate 64 0);
          v = hc_val cc;
          b = b[ptr := 0x80];
          ptr = ptr + 1;
          (b, v) = (if 56 < ptr
            then let b = memcpy_at ptr (replicate (64 - ptr) 0) b;
                     v = br_sha1_round b v
                 in (memcpy_at 0 (replicate 56 0) b, v)
            else (memcpy_at ptr (replicate (56 - ptr) 0) b, v));
          b = memcpy_at 56 (br_enc64be (push_bit 3 (hc_count cc))) b;
          v = br_sha1_round b v
      in br_range_enc32be (take 5 v))"

definition br_sha1_state :: "hash_context \<Rightarrow> bytes \<times> u64" where
  "br_sha1_state cc = (br_range_enc32be (take 5 (hc_val cc)), hc_count cc)"

definition br_sha1_set_state :: "hash_context \<Rightarrow> bytes \<Rightarrow> u64 \<Rightarrow> hash_context" where
  "br_sha1_set_state cc stb n = cc\<lparr>hc_val := br_range_dec32be 5 stb, hc_count := n\<rparr>"

section \<open>FIPS 180-4\<close>

definition sha1_f :: "nat \<Rightarrow> u32 \<Rightarrow> u32 \<Rightarrow> u32 \<Rightarrow> u32" where
  "sha1_f t x y z =
     (if t < 20 then (x AND y) XOR (NOT x AND z)
      else if 40 \<le> t \<and> t < 60 then (x AND y) XOR (x AND z) XOR (y AND z)
      else x XOR y XOR z)"

definition sha1_K :: "nat \<Rightarrow> u32" where
  "sha1_K t = (if t < 20 then 0x5A827999 else if t < 40 then 0x6ED9EBA1
     else if t < 60 then 0x8F1BBCDC else 0xCA62C1D6)"

fun sha1_W :: "bytes \<Rightarrow> nat \<Rightarrow> u32" where
  "sha1_W blk t =
     (if t < 16 then be_word (take 4 (drop (4 * t) blk))
      else word_rotl 1 (sha1_W blk (t - 3) XOR sha1_W blk (t - 8)
        XOR sha1_W blk (t - 14) XOR sha1_W blk (t - 16)))"

declare sha1_W.simps [simp del]

definition sha1_step :: "(nat \<Rightarrow> u32) \<Rightarrow> nat \<Rightarrow> sha1_regs \<Rightarrow> sha1_regs" where
  "sha1_step W t = (\<lambda>(a, b, c, d, e).
     (word_rotl 5 a + sha1_f t b c d + e + sha1_K t + W t, a, word_rotl 30 b, c, d))"

definition sha1_compress :: "bytes \<Rightarrow> u32 list \<Rightarrow> u32 list" where
  "sha1_compress blk h =
     (let (a, b, c, d, e) =
        fold (sha1_step (sha1_W blk)) [0..<80] (h ! 0, h ! 1, h ! 2, h ! 3, h ! 4)
      in [h ! 0 + a, h ! 1 + b, h ! 2 + c, h ! 3 + d, h ! 4 + e])"

definition fips_sha1 :: "bytes \<Rightarrow> bytes" where
  "fips_sha1 m = concat (map (be_bytes 4) (md_fold sha1_compress br_sha1_IV (md_pad m)))"

section \<open>The round function\<close>

lemma ROTL_rotl: "0 < n \<Longrightarrow> n < 32 \<Longrightarrow> ROTL x n = word_rotl n x"
proof (rule bit_word_eqI)
  fix k assume n: "0 < n" "n < 32" and "k < LENGTH(32)"
  then have k: "k < 32" by simp
  show "bit (ROTL x n) k = bit (word_rotl n x) k"
  proof (cases "n \<le> k")
    case True
    then have "(k + (32 - n)) mod 32 = k - n" using k n by (simp add: le_mod_geq)
    moreover have "\<not> bit x (32 - n + k)" using True n bit_imp_le_length [of x "32 - n + k"] by auto
    ultimately show ?thesis using True k n by (simp add: ROTL_def bit_simps)
  next
    case False
    then have "(k + (32 - n)) mod 32 = 32 - n + k" using k n by simp
    with False k n show ?thesis by (simp add: ROTL_def bit_word_rotl_iff bit_or_iff bit_push_bit_iff
          bit_drop_bit_eq)
  qed
qed

lemma sha1_functions:
  "F x y z = (x AND y) XOR (NOT x AND z)" "G x y z = x XOR y XOR z"
  "H x y z = (x AND y) XOR (x AND z) XOR (y AND z)" "I x y z = x XOR y XOR z"
  by (auto simp: F_def G_def H_def I_def bit_simps intro!: bit_word_eqI)

lemma sha1_line_step:
  assumes "m ! t = W t" and "\<And>x y z. f x y z = sha1_f t x y z" and "k = sha1_K t"
    and "sha1_line f k m t a b c d e = (e', b')"
  shows "sha1_step W t (a, b, c, d, e) = (e', a, b', c, d)"
  using assms by (auto simp: sha1_line_def sha1_step_def ROTL_rotl)

lemma sha1_body_steps:
  assumes W: "\<And>j. j < 5 \<Longrightarrow> m ! (i + j) = W (i + j)"
    and f: "\<And>j x y z. j < 5 \<Longrightarrow> f x y z = sha1_f (i + j) x y z"
    and k: "\<And>j. j < 5 \<Longrightarrow> k = sha1_K (i + j)"
  shows "sha1_body f k m i regs = fold (sha1_step W) [i..<i + 5] regs"
proof -
  have up: "[i..<i + 5] = [i + 0, i + 1, i + 2, i + 3, i + 4]"
    by (simp add: upt_rec)
  obtain a b c d e where regs: "regs = (a, b, c, d, e)" by (cases regs)
  obtain e0 b0 where s0: "sha1_line f k m (i + 0) a b c d e = (e0, b0)" by fastforce
  obtain d1 a1 where s1: "sha1_line f k m (i + 1) e0 a b0 c d = (d1, a1)" by fastforce
  obtain c2 e2 where s2: "sha1_line f k m (i + 2) d1 e0 a1 b0 c = (c2, e2)" by fastforce
  obtain b3 d3 where s3: "sha1_line f k m (i + 3) c2 d1 e2 a1 b0 = (b3, d3)" by fastforce
  obtain a4 c4 where s4: "sha1_line f k m (i + 4) b3 c2 d3 e2 a1 = (a4, c4)" by fastforce
  note steps = s0 s1 s2 s3 s4
  have line: "sha1_step W (i + j) (a, b, c, d, e) = (e', a, b', c, d)"
    if "sha1_line f k m (i + j) a b c d e = (e', b')" and "j < 5" for j a b c d e e' b'
    using that W f k by (intro sha1_line_step) auto
  have "sha1_body f k m i regs = (a4, b3, c4, d3, e2)"
    by (simp only: sha1_body_def regs prod.case Let_def steps)
  moreover have "fold (sha1_step W) [i..<i + 5] regs = (a4, b3, c4, d3, e2)"
    by (simp only: up regs fold_simps steps [THEN line])
  ultimately show ?thesis by simp
qed

lemma sha1_upt_80:
  "[0..<80] = concat (map (\<lambda>i. [i..<i + 5])
     ([0, 5, 10, 15] @ [20, 25, 30, 35] @ [40, 45, 50, 55] @ [60, 65, 70, 75]))"
  by (simp add: upt_rec)

lemma sha1_expand_schedule:
  assumes "length blk = 64" and "16 \<le> k" and "k \<le> 80"
  shows "length (fold sha1_expand [16..<k] (memcpy_at 0 (br_range_dec32be 16 blk) (replicate 80 0))) = 80
    \<and> (\<forall>j<k. fold sha1_expand [16..<k] (memcpy_at 0 (br_range_dec32be 16 blk) (replicate 80 0)) ! j
        = sha1_W blk j)"
  using assms(2,3)
proof (induction k rule: nat_induct_at_least)
  case base
  have "memcpy_at 0 (br_range_dec32be 16 blk) (replicate 80 0) ! j = sha1_W blk j" if "j < 16" for j
    using that assms(1)
    by (simp add: memcpy_at_def nth_append nth_range_dec32be dec32_prefix sha1_W.simps [of blk j])
  then show ?case by simp
next
  case (Suc k)
  then show ?case
    by (auto simp: sha1_expand_def Let_def nth_list_update ROTL_rotl sha1_W.simps [of blk k] less_Suc_eq)
qed

lemma sha1_schedule_W: "length blk = 64 \<Longrightarrow> j < 80 \<Longrightarrow> sha1_schedule blk ! j = sha1_W blk j"
  using sha1_expand_schedule [of blk 80] by (simp add: sha1_schedule_def)

lemma fold_sha1_body:
  assumes "length blk = 64"
    and "\<forall>i\<in>set is. i \<le> 75 \<and> (\<forall>j<5. f = sha1_f (i + j) \<and> k = sha1_K (i + j))"
  shows "fold (sha1_body f k (sha1_schedule blk)) is regs
    = fold (sha1_step (sha1_W blk)) (concat (map (\<lambda>i. [i..<i + 5]) is)) regs"
  using assms(2)
  by (induction "is" arbitrary: regs)
    (auto simp: sha1_body_steps [where W = "sha1_W blk"] sha1_schedule_W assms(1))

lemma sha1_f_cases:
  "t < 20 \<Longrightarrow> F = sha1_f t" "20 \<le> t \<Longrightarrow> t < 40 \<Longrightarrow> G = sha1_f t"
  "40 \<le> t \<Longrightarrow> t < 60 \<Longrightarrow> H = sha1_f t" "60 \<le> t \<Longrightarrow> I = sha1_f t"
  by (auto simp: sha1_f_def sha1_functions fun_eq_iff)

lemma br_sha1_round_fips: "length blk = 64 \<Longrightarrow> br_sha1_round blk v = sha1_compress blk v"
  unfolding br_sha1_round_def sha1_compress_def Let_def sha1_upt_80 map_append concat_append fold_append
  by (subst (1 2 3 4) fold_sha1_body)
    (auto simp: sha1_K_def K1_def K2_def K3_def K4_def sha1_f_cases)

section \<open>Streaming\<close>

definition sha1_repr :: "bytes \<Rightarrow> hash_context \<Rightarrow> bool" where
  "sha1_repr m c \<longleftrightarrow> hc_count c = of_nat (length m) \<and> length (hc_val c) = 5
     \<and> md_rel br_sha1_round br_sha1_IV m (hc_buf c) (hc_val c)"

declare sha1_loop.simps [simp del]

lemma length_sha1_round [simp]: "length (br_sha1_round b v) = 5"
  by (simp add: br_sha1_round_def Let_def split: prod.split)

lemma sha1_loop_md:
  "ptr < 64 \<Longrightarrow> sha1_loop ptr data cc =
     (let (b, v) = md_loop br_sha1_round ptr data (hc_buf cc) (hc_val cc)
      in cc\<lparr>hc_buf := b, hc_val := v, hc_count := hc_count cc + of_nat (length data)\<rparr>)"
proof (induction ptr data cc rule: sha1_loop.induct)
  case (1 ptr data cc)
  let ?n = "min (64 - ptr) (length data)"
  have "of_nat ?n + of_nat (length data - ?n) = (of_nat (length data) :: u64)"
    by (simp flip: of_nat_add)
  then have cnt: "x + of_nat ?n + of_nat (length data - ?n) = x + of_nat (length data)" for x :: u64
    by (simp add: add.assoc)
  show ?case
  proof (cases "data = []")
    case True
    then show ?thesis by (simp add: sha1_loop.simps md_loop.simps)
  next
    case False
    with 1(3) have "ptr + ?n \<noteq> 64 \<Longrightarrow> ptr + ?n < 64" by auto
    with False 1 cnt show ?thesis
      by (subst sha1_loop.simps, subst md_loop.simps) (simp add: Let_def split: prod.splits)
  qed
qed

lemma sha1_repr_update: "sha1_repr m c \<Longrightarrow> sha1_repr (m @ d) (br_sha1_update c d)"
  using md_loop_rel [of br_sha1_round br_sha1_IV m "hc_buf c" "hc_val c" "length m mod 64" d]
    length_md_loop [of br_sha1_round 5 "hc_val c" "length m mod 64" d "hc_buf c"]
  by (auto simp: sha1_repr_def br_sha1_update_def sha1_loop_md split: prod.splits)

lemma br_sha1_out_close:
  assumes "length (hc_buf c) = 64" and "ptr = unat (hc_count c AND 63)" and "ptr < 64"
  shows "br_sha1_out c = br_range_enc32be (take 5
    (md_close br_sha1_round ptr (hc_buf c) (br_enc64be (push_bit 3 (hc_count c))) (hc_val c)))"
proof -
  have "(memcpy_at 0 (take ptr (hc_buf c)) (replicate 64 0))[ptr := 0x80]
      = take ptr (hc_buf c) @ [0x80] @ replicate (63 - ptr) 0"
    using assms(1,3) by (rule md_buf_mark)
  moreover have "56 - ptr = Suc (55 - ptr)" if "\<not> 55 < ptr" using that by simp
  ultimately show ?thesis
    using assms(1,3)
    by (auto simp: br_sha1_out_def Let_def md_close_def memcpy_at_def simp flip: assms(2))
qed

lemma length_sha1_fold: "length v = 5 \<Longrightarrow> length (md_fold sha1_compress v m) = 5"
  by (induction sha1_compress v m rule: md_fold.induct)
    (subst md_fold.simps, simp add: sha1_compress_def Let_def split: prod.split)

lemma br_sha1_out_digest:
  assumes "sha1_repr m c"
  shows "br_sha1_out c = fips_sha1 m"
proof -
  have rel: "md_rel br_sha1_round br_sha1_IV m (hc_buf c) (hc_val c)"
    and cnt: "hc_count c = of_nat (length m)" using assms by (simp_all add: sha1_repr_def)
  have "br_enc64be (push_bit 3 (hc_count c)) = be_bytes 8 (of_nat (8 * length m) :: u64)"
    by (simp add: enc_dec_native cnt push_bit_eq_mult mult.commute)
  moreover have "length br_sha1_IV = 5" by (simp add: br_sha1_IV_def)
  ultimately show ?thesis using md_close_pad [OF rel] rel cnt
    by (simp add: br_sha1_out_close [of c "length m mod 64"] md_rel_def range_enc32be_concat
        fips_sha1_def length_sha1_fold md_fold_cong [of br_sha1_round sha1_compress, OF br_sha1_round_fips])
qed

interpretation sha1: stream_hash br_sha1_init br_sha1_update br_sha1_out br_sha1_state
  br_sha1_set_state fips_sha1 sha1_repr 20
proof unfold_locales
  show "length (fips_sha1 m) = 20" for m
    by (simp add: fips_sha1_def range_enc32be_concat [symmetric] length_sha1_fold br_sha1_IV_def)
  show "sha1_repr [] (br_sha1_init c)" if "length (hc_buf c) = 64" for c
    using that by (simp add: sha1_repr_def br_sha1_init_def md_rel_init) (simp add: br_sha1_IV_def)
qed (auto simp: sha1_repr_update br_sha1_out_digest, auto simp: sha1_repr_def br_sha1_set_state_def
    br_sha1_state_def md_rel_def range_dec_enc_prefix md_full_def)

end
