(* ===== verification/SHA2.thy ===== *)
theory SHA2 imports Hash_Stream begin

text \<open>
  \<open>c_src/bearssl/hash/sha2small.c\<close>: SHA-224 and SHA-256. The first part is the code, macro by macro
  and loop by loop; the second is the FIPS 180-4 description (rotating tuple, recursive message
  schedule, padding); the lemmas show that the code's unrolled, buffered computation is the
  standard's for every way of cutting the message into updates.
\<close>

section \<open>The code\<close>

definition CH :: "u32 \<Rightarrow> u32 \<Rightarrow> u32 \<Rightarrow> u32" where
  "CH X Y Z = ((Y XOR Z) AND X) XOR Z"

definition MAJ :: "u32 \<Rightarrow> u32 \<Rightarrow> u32 \<Rightarrow> u32" where
  "MAJ X Y Z = (Y AND Z) OR ((Y OR Z) AND X)"

definition ROTR :: "u32 \<Rightarrow> nat \<Rightarrow> u32" where
  "ROTR x n = push_bit (32 - n) x OR drop_bit n x"

definition BSG2_0 :: "u32 \<Rightarrow> u32" where
  "BSG2_0 x = ROTR x 2 XOR ROTR x 13 XOR ROTR x 22"

definition BSG2_1 :: "u32 \<Rightarrow> u32" where
  "BSG2_1 x = ROTR x 6 XOR ROTR x 11 XOR ROTR x 25"

definition SSG2_0 :: "u32 \<Rightarrow> u32" where
  "SSG2_0 x = ROTR x 7 XOR ROTR x 18 XOR drop_bit 3 x"

definition SSG2_1 :: "u32 \<Rightarrow> u32" where
  "SSG2_1 x = ROTR x 17 XOR ROTR x 19 XOR drop_bit 10 x"

definition br_sha224_IV :: "u32 list" where
  "br_sha224_IV = [
    0xC1059ED8, 0x367CD507, 0x3070DD17, 0xF70E5939,
    0xFFC00B31, 0x68581511, 0x64F98FA7, 0xBEFA4FA4]"

definition br_sha256_IV :: "u32 list" where
  "br_sha256_IV = [
    0x6A09E667, 0xBB67AE85, 0x3C6EF372, 0xA54FF53A,
    0x510E527F, 0x9B05688C, 0x1F83D9AB, 0x5BE0CD19]"

definition K :: "u32 list" where
  "K = [
    0x428A2F98, 0x71374491, 0xB5C0FBCF, 0xE9B5DBA5,
    0x3956C25B, 0x59F111F1, 0x923F82A4, 0xAB1C5ED5,
    0xD807AA98, 0x12835B01, 0x243185BE, 0x550C7DC3,
    0x72BE5D74, 0x80DEB1FE, 0x9BDC06A7, 0xC19BF174,
    0xE49B69C1, 0xEFBE4786, 0x0FC19DC6, 0x240CA1CC,
    0x2DE92C6F, 0x4A7484AA, 0x5CB0A9DC, 0x76F988DA,
    0x983E5152, 0xA831C66D, 0xB00327C8, 0xBF597FC7,
    0xC6E00BF3, 0xD5A79147, 0x06CA6351, 0x14292967,
    0x27B70A85, 0x2E1B2138, 0x4D2C6DFC, 0x53380D13,
    0x650A7354, 0x766A0ABB, 0x81C2C92E, 0x92722C85,
    0xA2BFE8A1, 0xA81A664B, 0xC24B8B70, 0xC76C51A3,
    0xD192E819, 0xD6990624, 0xF40E3585, 0x106AA070,
    0x19A4C116, 0x1E376C08, 0x2748774C, 0x34B0BCB5,
    0x391C0CB3, 0x4ED8AA4A, 0x5B9CCA4F, 0x682E6FF3,
    0x748F82EE, 0x78A5636F, 0x84C87814, 0x8CC70208,
    0x90BEFFFA, 0xA4506CEB, 0xBEF9A3F7, 0xC67178F2]"

text \<open>\<open>SHA2_STEP\<close> assigns its fourth and eighth arguments; the model returns their new values.\<close>

definition SHA2_STEP ::
  "u32 list \<Rightarrow> u32 \<Rightarrow> u32 \<Rightarrow> u32 \<Rightarrow> u32 \<Rightarrow> u32 \<Rightarrow> u32 \<Rightarrow> u32 \<Rightarrow> u32 \<Rightarrow> nat \<Rightarrow> u32 \<times> u32" where
  "SHA2_STEP w A B C D E F G H j =
     (let T1 = H + BSG2_1 E + CH E F G + K ! j + w ! j;
          T2 = BSG2_0 A + MAJ A B C
      in (D + T1, T1 + T2))"

type_synonym sha2_regs = "u32 \<times> u32 \<times> u32 \<times> u32 \<times> u32 \<times> u32 \<times> u32 \<times> u32"

definition sha2_steps8 :: "u32 list \<Rightarrow> nat \<Rightarrow> sha2_regs \<Rightarrow> sha2_regs" where
  "sha2_steps8 w i = (\<lambda>(a, b, c, d, e, f, g, h).
     (let (d, h) = SHA2_STEP w a b c d e f g h (i + 0);
          (c, g) = SHA2_STEP w h a b c d e f g (i + 1);
          (b, f) = SHA2_STEP w g h a b c d e f (i + 2);
          (a, e) = SHA2_STEP w f g h a b c d e (i + 3);
          (h, d) = SHA2_STEP w e f g h a b c d (i + 4);
          (g, c) = SHA2_STEP w d e f g h a b c (i + 5);
          (f, b) = SHA2_STEP w c d e f g h a b (i + 6);
          (e, a) = SHA2_STEP w b c d e f g h a (i + 7)
      in (a, b, c, d, e, f, g, h)))"

text \<open>The array \<open>w[64]\<close> is uninitialised in C; every entry is written before it is read.\<close>

definition sha2_expand :: "nat \<Rightarrow> u32 list \<Rightarrow> u32 list" where
  "sha2_expand i w = w[i := SSG2_1 (w ! (i - 2)) + w ! (i - 7) + SSG2_0 (w ! (i - 15)) + w ! (i - 16)]"

definition sha2_schedule :: "bytes \<Rightarrow> u32 list" where
  "sha2_schedule buf =
     fold sha2_expand [16..<64] (memcpy_at 0 (br_range_dec32be 16 buf) (replicate 64 0))"

definition br_sha2small_round :: "bytes \<Rightarrow> u32 list \<Rightarrow> u32 list" where
  "br_sha2small_round buf val =
     (let w = sha2_schedule buf;
          (a, b, c, d, e, f, g, h) =
            fold (sha2_steps8 w) [0, 8, 16, 24, 32, 40, 48, 56]
              (val ! 0, val ! 1, val ! 2, val ! 3, val ! 4, val ! 5, val ! 6, val ! 7)
      in [val ! 0 + a, val ! 1 + b, val ! 2 + c, val ! 3 + d,
          val ! 4 + e, val ! 5 + f, val ! 6 + g, val ! 7 + h])"

text \<open>
  The \<open>while (len > 0)\<close> loop of \<open>sha2small_update\<close>. On entry \<open>ptr = count & 63\<close> and the loop resets
  it to 0 at 64, so \<open>ptr < 64\<close> always holds; the guard on it only makes the recursion total.
\<close>

function sha2small_loop :: "nat \<Rightarrow> bytes \<Rightarrow> bytes \<Rightarrow> u32 list \<Rightarrow> bytes \<times> u32 list" where
  "sha2small_loop ptr data b v =
     (if data = [] \<or> 64 \<le> ptr then (b, v)
      else let clen = min (64 - ptr) (length data);
               b = memcpy_at ptr (take clen data) b;
               ptr = ptr + clen;
               data = drop clen data
           in if ptr = 64 then sha2small_loop 0 data b (br_sha2small_round b v)
              else sha2small_loop ptr data b v)"
  by pat_completeness auto
termination by (relation "measure (\<lambda>(_, data, _, _). length data)") auto

definition sha2small_update :: "hash_context \<Rightarrow> bytes \<Rightarrow> hash_context" where
  "sha2small_update cc data =
     (let ptr = unat (hc_count cc AND 63);
          cc = cc\<lparr>hc_count := hc_count cc + of_nat (length data)\<rparr>;
          (b, v) = sha2small_loop ptr data (hc_buf cc) (hc_val cc)
      in cc\<lparr>hc_buf := b, hc_val := v\<rparr>)"

definition sha2small_out :: "hash_context \<Rightarrow> nat \<Rightarrow> bytes" where
  "sha2small_out cc num =
     (let ptr = unat (hc_count cc AND 63);
          b = memcpy_at 0 (take ptr (hc_buf cc)) (replicate 64 0);
          v = hc_val cc;
          b = b[ptr := 0x80];
          ptr = ptr + 1;
          (b, v) = (if 56 < ptr
            then let b = memcpy_at ptr (replicate (64 - ptr) 0) b;
                     v = br_sha2small_round b v
                 in (memcpy_at 0 (replicate 56 0) b, v)
            else (memcpy_at ptr (replicate (56 - ptr) 0) b, v));
          b = memcpy_at 56 (br_enc64be (push_bit 3 (hc_count cc))) b;
          v = br_sha2small_round b v
      in br_range_enc32be (take num v))"

definition br_sha224_init :: "hash_context \<Rightarrow> hash_context" where
  "br_sha224_init cc = cc\<lparr>hc_vtable := vtable_sha224, hc_val := br_sha224_IV, hc_count := 0\<rparr>"

definition br_sha224_update :: "hash_context \<Rightarrow> bytes \<Rightarrow> hash_context" where
  "br_sha224_update cc data = sha2small_update cc data"

definition br_sha224_out :: "hash_context \<Rightarrow> bytes" where
  "br_sha224_out cc = sha2small_out cc 7"

definition br_sha224_state :: "hash_context \<Rightarrow> bytes \<times> u64" where
  "br_sha224_state cc = (br_range_enc32be (take 8 (hc_val cc)), hc_count cc)"

definition br_sha224_set_state :: "hash_context \<Rightarrow> bytes \<Rightarrow> u64 \<Rightarrow> hash_context" where
  "br_sha224_set_state cc stb n = cc\<lparr>hc_val := br_range_dec32be 8 stb, hc_count := n\<rparr>"

definition br_sha256_init :: "hash_context \<Rightarrow> hash_context" where
  "br_sha256_init cc = cc\<lparr>hc_vtable := vtable_sha256, hc_val := br_sha256_IV, hc_count := 0\<rparr>"

definition br_sha256_out :: "hash_context \<Rightarrow> bytes" where
  "br_sha256_out cc = sha2small_out cc 8"

section \<open>FIPS 180-4\<close>

text \<open>
  The constants of the standard, from their definition and not from the tables of the code: the first 32 bits of the fractional parts of the cube
  roots of the first 64 primes, those of the square roots of the first eight primes for SHA-256, and the second 32 bits of
  the fractional parts of the square roots of the ninth to sixteenth primes for SHA-224. \<open>iroot\<close> finds a whole root bit by bit.
\<close>

definition fips_primes :: "nat list" where
  "fips_primes = filter (\<lambda>p. list_all (\<lambda>d. p \<le> d \<or> \<not> d dvd p) [2..<18]) [2..<312]"

fun iroot :: "nat \<Rightarrow> nat \<Rightarrow> nat \<Rightarrow> nat \<Rightarrow> nat" where
  "iroot k n 0 r = r"
| "iroot k n (Suc b) r = iroot k n b (if (r + 2 ^ b) ^ k \<le> n then r + 2 ^ b else r)"

definition root_bits :: "nat \<Rightarrow> nat \<Rightarrow> nat \<Rightarrow> u32" where
  "root_bits k i p = of_nat (iroot k (p * 2 ^ (k * i)) 70 0)"

definition fips_K :: "u32 list" where "fips_K = map (root_bits 3 32) fips_primes"
definition fips_H256 :: "u32 list" where "fips_H256 = map (root_bits 2 32) (take 8 fips_primes)"
definition fips_H224 :: "u32 list" where "fips_H224 = map (root_bits 2 64) (take 8 (drop 8 fips_primes))"

definition fips_Ch :: "u32 \<Rightarrow> u32 \<Rightarrow> u32 \<Rightarrow> u32" where
  "fips_Ch x y z = (x AND y) XOR (NOT x AND z)"

definition fips_Maj :: "u32 \<Rightarrow> u32 \<Rightarrow> u32 \<Rightarrow> u32" where
  "fips_Maj x y z = (x AND y) XOR (x AND z) XOR (y AND z)"

definition fips_Sigma0 :: "u32 \<Rightarrow> u32" where
  "fips_Sigma0 x = word_rotr 2 x XOR word_rotr 13 x XOR word_rotr 22 x"

definition fips_Sigma1 :: "u32 \<Rightarrow> u32" where
  "fips_Sigma1 x = word_rotr 6 x XOR word_rotr 11 x XOR word_rotr 25 x"

definition fips_sigma0 :: "u32 \<Rightarrow> u32" where
  "fips_sigma0 x = word_rotr 7 x XOR word_rotr 18 x XOR drop_bit 3 x"

definition fips_sigma1 :: "u32 \<Rightarrow> u32" where
  "fips_sigma1 x = word_rotr 17 x XOR word_rotr 19 x XOR drop_bit 10 x"

fun fips_W :: "bytes \<Rightarrow> nat \<Rightarrow> u32" where
  "fips_W blk t =
     (if t < 16 then be_word (take 4 (drop (4 * t) blk))
      else fips_sigma1 (fips_W blk (t - 2)) + fips_W blk (t - 7)
        + fips_sigma0 (fips_W blk (t - 15)) + fips_W blk (t - 16))"

declare fips_W.simps [simp del]

definition fips_step :: "(nat \<Rightarrow> u32) \<Rightarrow> nat \<Rightarrow> sha2_regs \<Rightarrow> sha2_regs" where
  "fips_step W t = (\<lambda>(a, b, c, d, e, f, g, h).
     (let T1 = h + fips_Sigma1 e + fips_Ch e f g + fips_K ! t + W t;
          T2 = fips_Sigma0 a + fips_Maj a b c
      in (T1 + T2, a, b, c, d + T1, e, f, g)))"

definition fips_compress :: "bytes \<Rightarrow> u32 list \<Rightarrow> u32 list" where
  "fips_compress blk H =
     (let (a, b, c, d, e, f, g, h) = fold (fips_step (fips_W blk)) [0..<64]
            (H ! 0, H ! 1, H ! 2, H ! 3, H ! 4, H ! 5, H ! 6, H ! 7)
      in [H ! 0 + a, H ! 1 + b, H ! 2 + c, H ! 3 + d, H ! 4 + e, H ! 5 + f, H ! 6 + g, H ! 7 + h])"

definition fips_sha256 :: "bytes \<Rightarrow> bytes" where
  "fips_sha256 m = concat (map (be_bytes 4) (md_fold fips_compress fips_H256 (md_pad m)))"

definition fips_sha224 :: "bytes \<Rightarrow> bytes" where
  "fips_sha224 m =
     concat (map (be_bytes 4) (take 7 (md_fold fips_compress fips_H224 (md_pad m))))"

section \<open>The constants\<close>

lemma iroot_bounds:
  assumes "0 < k" "r ^ k \<le> n" "n < (r + 2 ^ b) ^ k"
  shows "iroot k n b r ^ k \<le> n \<and> n < Suc (iroot k n b r) ^ k"
  using assms(2,3)
proof (induction b arbitrary: r)
  case (Suc b)
  then show ?case by (cases "(r + 2 ^ b) ^ k \<le> n") (auto simp: mult_2 add.assoc)
qed simp

lemma root_unique:
  assumes "0 < k" "r ^ k \<le> n" "n < Suc r ^ k" "q ^ k \<le> n" "n < Suc q ^ k"
  shows "r = q"
proof -
  have "r < Suc q" "q < Suc r" using assms by (meson le_less_trans power_less_imp_less_base zero_le)+
  then show ?thesis by simp
qed

lemma root_bits_eq:
  assumes "0 < k" "r ^ k \<le> p * 2 ^ (k * i)" "p * 2 ^ (k * i) < Suc r ^ k" "r < 2 ^ 70"
  shows "root_bits k i p = of_nat r"
proof -
  have "p * 2 ^ (k * i) < (2 ^ 70) ^ k"
    using assms(3,4) power_mono [of "Suc r" "2 ^ 70" k] by simp
  then have "iroot k (p * 2 ^ (k * i)) 70 0 = r"
    using iroot_bounds [of k 0 "p * 2 ^ (k * i)" 70] assms by (intro root_unique [of k _ "p * 2 ^ (k * i)"]) (auto simp: zero_power)
  then show ?thesis by (simp add: root_bits_def)
qed

definition roots_of :: "nat \<Rightarrow> nat \<Rightarrow> nat list \<Rightarrow> nat list \<Rightarrow> bool" where
  "roots_of k i ps rs \<longleftrightarrow> list_all2 (\<lambda>p r. r ^ k \<le> p * 2 ^ (k * i) \<and> p * 2 ^ (k * i) < Suc r ^ k \<and> r < 2 ^ 70) ps rs"

lemma roots_of_bits: "roots_of k i ps rs \<Longrightarrow> 0 < k \<Longrightarrow> map (root_bits k i) ps = map of_nat rs"
  unfolding roots_of_def by (induction rule: list_all2_induct) (auto intro: root_bits_eq)

lemma fips_primes_eq: "fips_primes = [
    2, 3, 5, 7, 11, 13, 17, 19, 23, 29, 31, 37, 41, 43, 47, 53, 59, 61, 67, 71, 73, 79, 83, 89, 97, 101, 103, 107, 109, 113,
    127, 131, 137, 139, 149, 151, 157, 163, 167, 173, 179, 181, 191, 193, 197, 199, 211, 223, 227, 229, 233, 239, 241, 251,
    257, 263, 269, 271, 277, 281, 283, 293, 307, 311]"
  unfolding fips_primes_def by (simp add: upt_rec_numeral)

lemma K_fips: "K = fips_K"
proof -
  have "roots_of 3 32 fips_primes [
    5411319704, 6194414737, 7344290767, 8215976869, 9551921755, 10098905585, 11043570340, 11460697813, 12214315672,
    13195500289, 13492127166, 14311783875, 14809980276, 15046980094, 15499789991, 16133124468, 16720292289, 16907126662,
    17444216262, 17784676812, 17950125167, 18429019306, 18734950876, 19175934170, 19734090066, 20001703533, 20132865992,
    20390182855, 20516441075, 20764397895, 21588763473, 21813078375, 22141143685, 22248366392, 22769593852, 22871018771,
    23170020180, 23461497531, 23651862830, 23931792517, 24205322401, 24295138891, 24734567280, 24820601251, 24990902297,
    25075189284, 25569408389, 26045227120, 26200031510, 26276752392, 26428864332, 26653801653, 26727943347, 27092625994,
    27306805839, 27517677555, 27725365998, 27793908591, 27997534228, 28131656200, 28198240250, 28526537963, 28973835255,
    29099129074]"
    by (simp add: roots_of_def fips_primes_eq)
  from roots_of_bits [OF this] show ?thesis by (simp add: K_def fips_K_def)
qed

lemma IV_fips: "br_sha256_IV = fips_H256" "br_sha224_IV = fips_H224"
proof -
  have "roots_of 2 32 (take 8 fips_primes) [
    6074000999, 7439101573, 9603838834, 11363415354, 14244795007, 15485724812, 17708603819, 18721328409]"
    by (simp add: roots_of_def fips_primes_eq)
  from roots_of_bits [OF this] show "br_sha256_IV = fips_H256" by (simp add: br_sha256_IV_def fips_H256_def)
  have "roots_of 2 64 (take 8 (drop 8 fips_primes)) [
    88467476731178360536, 99338756991957652743, 102707124263845944599, 112207163657561200953, 118116794080090393393,
    120963390236882638097, 126464505871347584935, 134294323956039700388]"
    by (simp add: roots_of_def fips_primes_eq)
  from roots_of_bits [OF this] show "br_sha224_IV = fips_H224" by (simp add: br_sha224_IV_def fips_H224_def)
qed

section \<open>The round function\<close>

lemma ROTR_rotr: "0 < n \<Longrightarrow> n < 32 \<Longrightarrow> ROTR x n = word_rotr n x"
proof (rule bit_word_eqI)
  fix k assume n: "0 < n" "n < 32" and "k < LENGTH(32)"
  then have k: "k < 32" by simp
  show "bit (ROTR x n) k = bit (word_rotr n x) k"
  proof (cases "k + n < 32")
    case True
    then have "\<not> 32 - n \<le> k" using n by simp
    with True k n show ?thesis by (simp add: ROTR_def bit_simps add.commute)
  next
    case False
    then have "(k + n) mod 32 = k - (32 - n)" using k n by (simp add: le_mod_geq)
    moreover have "\<not> bit x (n + k)" using False bit_imp_le_length [of x "n + k"] by auto
    moreover have "32 - n \<le> k" using False by simp
    ultimately show ?thesis using False k n by (simp add: ROTR_def bit_simps)
  qed
qed

lemma fips_functions:
  "CH x y z = fips_Ch x y z" "MAJ x y z = fips_Maj x y z"
  "BSG2_0 x = fips_Sigma0 x" "BSG2_1 x = fips_Sigma1 x"
  "SSG2_0 x = fips_sigma0 x" "SSG2_1 x = fips_sigma1 x"
  by (auto simp: CH_def fips_Ch_def MAJ_def fips_Maj_def bit_simps intro!: bit_word_eqI)
    (simp_all add: BSG2_0_def fips_Sigma0_def BSG2_1_def fips_Sigma1_def SSG2_0_def
      fips_sigma0_def SSG2_1_def fips_sigma1_def ROTR_rotr)

lemma SHA2_STEP_fips:
  "w ! t = W t \<Longrightarrow> SHA2_STEP w a b c d e f g h t = (d', h') \<Longrightarrow>
   fips_step W t (a, b, c, d, e, f, g, h) = (h', a, b, c, d', e, f, g)"
  by (auto simp: SHA2_STEP_def fips_step_def Let_def fips_functions K_fips)

lemma sha2_steps8_fips:
  assumes W: "\<And>j. j < 8 \<Longrightarrow> w ! (i + j) = W (i + j)"
  shows "sha2_steps8 w i regs = fold (fips_step W) [i..<i + 8] regs"
proof -
  have up: "[i..<i + 8] = [i + 0, i + 1, i + 2, i + 3, i + 4, i + 5, i + 6, i + 7]"
    by (simp add: upt_rec)
  obtain a b c d e f g h where regs: "regs = (a, b, c, d, e, f, g, h)"
    by (cases regs) (metis surj_pair)
  obtain d0 h0 where s0: "SHA2_STEP w a b c d e f g h (i + 0) = (d0, h0)" by fastforce
  obtain c1 g1 where s1: "SHA2_STEP w h0 a b c d0 e f g (i + 1) = (c1, g1)" by fastforce
  obtain b2 f2 where s2: "SHA2_STEP w g1 h0 a b c1 d0 e f (i + 2) = (b2, f2)" by fastforce
  obtain a3 e3 where s3: "SHA2_STEP w f2 g1 h0 a b2 c1 d0 e (i + 3) = (a3, e3)" by fastforce
  obtain h4 d4 where s4: "SHA2_STEP w e3 f2 g1 h0 a3 b2 c1 d0 (i + 4) = (h4, d4)" by fastforce
  obtain g5 c5 where s5: "SHA2_STEP w d4 e3 f2 g1 h4 a3 b2 c1 (i + 5) = (g5, c5)" by fastforce
  obtain f6 b6 where s6: "SHA2_STEP w c5 d4 e3 f2 g5 h4 a3 b2 (i + 6) = (f6, b6)" by fastforce
  obtain e7 a7 where s7: "SHA2_STEP w b6 c5 d4 e3 f6 g5 h4 a3 (i + 7) = (e7, a7)" by fastforce
  note steps = s0 s1 s2 s3 s4 s5 s6 s7
  have "sha2_steps8 w i regs = (a7, b6, c5, d4, e7, f6, g5, h4)"
    by (simp only: sha2_steps8_def regs prod.case Let_def steps)
  moreover have "fold (fips_step W) [i..<i + 8] regs = (a7, b6, c5, d4, e7, f6, g5, h4)"
    by (simp only: up regs fold_simps steps [THEN SHA2_STEP_fips [rotated, where W = W], OF W])
  ultimately show ?thesis by simp
qed

lemma upt_64: "[0..<64] = concat (map (\<lambda>i. [i..<i + 8]) [0, 8, 16, 24, 32, 40, 48, 56])"
  by (simp add: upt_rec)

lemma sha2_expand_schedule:
  assumes "length blk = 64" and "16 \<le> k" and "k \<le> 64"
  shows "length (fold sha2_expand [16..<k] (memcpy_at 0 (br_range_dec32be 16 blk) (replicate 64 0))) = 64
    \<and> (\<forall>j<k. fold sha2_expand [16..<k] (memcpy_at 0 (br_range_dec32be 16 blk) (replicate 64 0)) ! j
        = fips_W blk j)"
  using assms(2,3)
proof (induction k rule: nat_induct_at_least)
  case base
  have "memcpy_at 0 (br_range_dec32be 16 blk) (replicate 64 0) ! j = fips_W blk j" if "j < 16" for j
    using that assms(1)
    by (simp add: memcpy_at_def nth_append nth_range_dec32be dec32_prefix fips_W.simps [of blk j])
  then show ?case by simp
next
  case (Suc k)
  then show ?case
    by (auto simp: sha2_expand_def nth_list_update fips_functions fips_W.simps [of blk k]
        less_Suc_eq)
qed

lemma sha2_schedule_W: "length blk = 64 \<Longrightarrow> j < 64 \<Longrightarrow> sha2_schedule blk ! j = fips_W blk j"
  using sha2_expand_schedule [of blk 64] by (simp add: sha2_schedule_def)

lemma fold_steps8:
  assumes "length blk = 64" and "\<forall>i\<in>set is. i \<le> 56"
  shows "fold (sha2_steps8 (sha2_schedule blk)) is regs
    = fold (fips_step (fips_W blk)) (concat (map (\<lambda>i. [i..<i + 8]) is)) regs"
  using assms(2)
  by (induction "is" arbitrary: regs)
    (simp_all add: sha2_steps8_fips [where W = "fips_W blk"] sha2_schedule_W assms(1))

lemma br_sha2small_round_fips: "length blk = 64 \<Longrightarrow> br_sha2small_round blk v = fips_compress blk v"
  unfolding br_sha2small_round_def fips_compress_def Let_def upt_64
  by (subst fold_steps8) simp_all

section \<open>Streaming\<close>

definition sha2_repr :: "u32 list \<Rightarrow> bytes \<Rightarrow> hash_context \<Rightarrow> bool" where
  "sha2_repr iv m c \<longleftrightarrow> hc_count c = of_nat (length m) \<and> length (hc_val c) = 8
     \<and> md_rel br_sha2small_round iv m (hc_buf c) (hc_val c)"

declare sha2small_loop.simps [simp del]

lemma length_round [simp]: "length (br_sha2small_round b v) = 8"
  by (simp add: br_sha2small_round_def Let_def split: prod.split)

lemma sha2small_loop_md: "sha2small_loop ptr data b v = md_loop br_sha2small_round ptr data b v"
  by (induction ptr data b v rule: sha2small_loop.induct)
    (subst sha2small_loop.simps, subst md_loop.simps, simp add: Let_def)

lemma sha2_repr_update: "sha2_repr iv m c \<Longrightarrow> sha2_repr iv (m @ d) (sha2small_update c d)"
  using md_loop_rel [of br_sha2small_round iv m "hc_buf c" "hc_val c" "length m mod 64" d]
    length_md_loop [of br_sha2small_round 8 "hc_val c" "length m mod 64" d "hc_buf c"]
  by (auto simp: sha2_repr_def sha2small_update_def sha2small_loop_md Let_def split: prod.splits)

lemma sha2small_out_close:
  assumes "length (hc_buf c) = 64" and "ptr = unat (hc_count c AND 63)" and "ptr < 64"
  shows "sha2small_out c num = br_range_enc32be (take num
    (md_close br_sha2small_round ptr (hc_buf c) (br_enc64be (push_bit 3 (hc_count c))) (hc_val c)))"
proof -
  have "(memcpy_at 0 (take ptr (hc_buf c)) (replicate 64 0))[ptr := 0x80]
      = take ptr (hc_buf c) @ [0x80] @ replicate (63 - ptr) 0"
    using assms(1,3) by (rule md_buf_mark)
  moreover have "56 - ptr = Suc (55 - ptr)" if "\<not> 55 < ptr" using that by simp
  ultimately show ?thesis
    using assms(1,3)
    by (auto simp: sha2small_out_def Let_def md_close_def memcpy_at_def simp flip: assms(2))
qed

lemma sha2small_out_digest:
  assumes "sha2_repr iv m c"
  shows "sha2small_out c num
    = concat (map (be_bytes 4) (take num (md_fold fips_compress iv (md_pad m))))"
proof -
  have rel: "md_rel br_sha2small_round iv m (hc_buf c) (hc_val c)"
    and cnt: "hc_count c = of_nat (length m)" using assms by (simp_all add: sha2_repr_def)
  have "br_enc64be (push_bit 3 (hc_count c)) = be_bytes 8 (of_nat (8 * length m) :: u64)"
    by (simp add: enc_dec_native cnt push_bit_eq_mult mult.commute)
  from md_close_pad [OF rel this] rel cnt show ?thesis
    by (simp add: sha2small_out_close [of c "length m mod 64"] md_rel_def range_enc32be_concat
        md_fold_cong [of br_sha2small_round fips_compress, OF br_sha2small_round_fips])
qed

lemma sha2_repr_restore:
  assumes "sha2_repr iv m c" and "64 dvd length m" and "length (hc_buf c') = 64"
  shows "sha2_repr iv m (br_sha224_set_state c' (fst (br_sha224_state c) @ rest) (of_nat (length m)))"
  using assms
  by (auto simp: sha2_repr_def br_sha224_set_state_def br_sha224_state_def md_rel_def range_dec_enc_prefix
      md_full_def)

lemma sha2_repr_init:
  "length (hc_buf c) = 64 \<Longrightarrow> sha2_repr br_sha224_IV [] (br_sha224_init c)"
  "length (hc_buf c) = 64 \<Longrightarrow> sha2_repr br_sha256_IV [] (br_sha256_init c)"
  by (simp_all add: sha2_repr_def br_sha224_init_def br_sha256_init_def md_rel_init,
      simp_all add: br_sha224_IV_def br_sha256_IV_def)

lemma length_md_pad: "64 \<le> length (md_pad m)"
proof -
  have "length m mod 64 < 64" by simp
  then show ?thesis
  proof (cases "length m mod 64 < 56")
    case True
    then have "(119 - length m mod 64) mod 64 = 55 - length m mod 64" by (simp add: le_mod_geq)
    then show ?thesis using True mod_less_eq_dividend [of "length m" 64] by (simp add: md_pad_def)
  next
    case False
    then have "56 \<le> length m" using mod_less_eq_dividend [of "length m" 64] by simp
    then show ?thesis by (simp add: md_pad_def)
  qed
qed

lemma length_fips_fold: "length v = 8 \<Longrightarrow> length (md_fold fips_compress v m) = 8"
  by (induction fips_compress v m rule: md_fold.induct)
    (subst md_fold.simps, simp add: fips_compress_def Let_def split: prod.split)

lemma length_concat_be4: "length (concat (map (be_bytes 4) vs)) = 4 * length (vs :: u32 list)"
  by (induction vs) simp_all

interpretation sha224: stream_hash br_sha224_init br_sha224_update br_sha224_out br_sha224_state
  br_sha224_set_state fips_sha224 "sha2_repr br_sha224_IV" 28
proof unfold_locales
  show "length (fips_sha224 m) = 28" for m
    by (simp add: fips_sha224_def IV_fips(2) [symmetric] length_concat_be4 length_fips_fold br_sha224_IV_def)
qed (simp_all add: sha2_repr_init sha2_repr_update br_sha224_update_def br_sha224_out_def
    sha2small_out_digest fips_sha224_def IV_fips(2) [symmetric] sha2_repr_restore, simp add: sha2_repr_def md_rel_def)

text \<open>\<open>br_sha256_update\<close>, \<open>br_sha256_state\<close> and \<open>br_sha256_set_state\<close> are macros for the SHA-224 ones.\<close>

interpretation sha256: stream_hash br_sha256_init br_sha224_update br_sha256_out br_sha224_state
  br_sha224_set_state fips_sha256 "sha2_repr br_sha256_IV" 32
proof unfold_locales
  have iv: "length br_sha256_IV = 8" by (simp add: br_sha256_IV_def)
  show "length (fips_sha256 m) = 32" for m
    by (simp add: fips_sha256_def IV_fips(1) [symmetric] length_concat_be4 length_fips_fold iv)
  show "br_sha256_out c = fips_sha256 m" if "sha2_repr br_sha256_IV m c" for m c
    using that by (simp add: br_sha256_out_def sha2small_out_digest fips_sha256_def IV_fips(1) [symmetric] length_fips_fold iv)
qed (simp_all add: sha2_repr_init sha2_repr_update br_sha224_update_def sha2_repr_restore,
    simp add: sha2_repr_def md_rel_def)

end
