(* ===== verification/HMAC.thy ===== *)
theory HMAC imports SHA1 SHA2 begin

text \<open>
  \<open>c_src/bearssl/mac/hmac.c\<close> and the hash classes (\<open>br_hash_class\<close>) it dispatches on. The C code keeps
  in a key context the hash states after the inner and the outer padded key, and resumes from them;
  the lemmas show that this is RFC 2104 for each of the three classes, for every key length, every
  way of cutting the message and every requested output length. A stack variable the C code leaves
  uninitialised before its first call is a parameter of the model, so nothing depends on it.
\<close>

section \<open>Hash classes\<close>

record br_hash_class =
  desc :: u32
  cls_init :: "hash_context \<Rightarrow> hash_context"
  cls_update :: "hash_context \<Rightarrow> bytes \<Rightarrow> hash_context"
  cls_out :: "hash_context \<Rightarrow> bytes"
  cls_state :: "hash_context \<Rightarrow> bytes \<times> u64"
  cls_set_state :: "hash_context \<Rightarrow> bytes \<Rightarrow> u64 \<Rightarrow> hash_context"

definition BR_HASHDESC_ID :: "u32 \<Rightarrow> u32" where "BR_HASHDESC_ID x = push_bit 0 x"
definition BR_HASHDESC_OUT :: "u32 \<Rightarrow> u32" where "BR_HASHDESC_OUT x = push_bit 8 x"
definition BR_HASHDESC_STATE :: "u32 \<Rightarrow> u32" where "BR_HASHDESC_STATE x = push_bit 15 x"
definition BR_HASHDESC_LBLEN :: "u32 \<Rightarrow> u32" where "BR_HASHDESC_LBLEN x = push_bit 23 x"
definition BR_HASHDESC_MD_PADDING :: u32 where "BR_HASHDESC_MD_PADDING = push_bit 28 1"
definition BR_HASHDESC_MD_PADDING_BE :: u32 where "BR_HASHDESC_MD_PADDING_BE = push_bit 30 1"

definition br_sha1_vtable :: br_hash_class where
  "br_sha1_vtable = \<lparr>
     desc = BR_HASHDESC_ID 2 OR BR_HASHDESC_OUT 20 OR BR_HASHDESC_STATE 20 OR BR_HASHDESC_LBLEN 6
       OR BR_HASHDESC_MD_PADDING OR BR_HASHDESC_MD_PADDING_BE,
     cls_init = br_sha1_init, cls_update = br_sha1_update, cls_out = br_sha1_out,
     cls_state = br_sha1_state, cls_set_state = br_sha1_set_state\<rparr>"

definition br_sha224_vtable :: br_hash_class where
  "br_sha224_vtable = \<lparr>
     desc = BR_HASHDESC_ID 3 OR BR_HASHDESC_OUT 28 OR BR_HASHDESC_STATE 32 OR BR_HASHDESC_LBLEN 6
       OR BR_HASHDESC_MD_PADDING OR BR_HASHDESC_MD_PADDING_BE,
     cls_init = br_sha224_init, cls_update = br_sha224_update, cls_out = br_sha224_out,
     cls_state = br_sha224_state, cls_set_state = br_sha224_set_state\<rparr>"

definition br_sha256_vtable :: br_hash_class where
  "br_sha256_vtable = \<lparr>
     desc = BR_HASHDESC_ID 4 OR BR_HASHDESC_OUT 32 OR BR_HASHDESC_STATE 32 OR BR_HASHDESC_LBLEN 6
       OR BR_HASHDESC_MD_PADDING OR BR_HASHDESC_MD_PADDING_BE,
     cls_init = br_sha256_init, cls_update = br_sha224_update, cls_out = br_sha256_out,
     cls_state = br_sha224_state, cls_set_state = br_sha224_set_state\<rparr>"

text \<open>Dereferencing a vtable pointer.\<close>

fun hash_class :: "hash_vtable \<Rightarrow> br_hash_class" where
  "hash_class vtable_sha1 = br_sha1_vtable"
| "hash_class vtable_sha224 = br_sha224_vtable"
| "hash_class vtable_sha256 = br_sha256_vtable"

definition br_digest_size :: "br_hash_class \<Rightarrow> nat" where
  "br_digest_size c = unat (drop_bit 8 (desc c) AND 0x7F)"

definition block_size :: "br_hash_class \<Rightarrow> nat" where
  "block_size dig = (let ls = unat (drop_bit 23 (desc dig) AND 0x0F) in push_bit ls 1)"

section \<open>HMAC\<close>

record br_hmac_key_context =
  dig_vtable :: hash_vtable
  ksi :: bytes
  kso :: bytes

record br_hmac_context =
  hmac_dig :: hash_context
  hmac_kso :: bytes
  out_len :: nat

definition process_key :: "hash_context \<Rightarrow> bytes \<Rightarrow> bytes \<Rightarrow> u8 \<Rightarrow> hash_context \<times> bytes" where
  "process_key hc ks key bb =
     (let cls = hash_class (hc_vtable hc);
          blen = block_size cls;
          key_len = length key;
          tmp = memcpy_at 0 key (replicate 256 0);
          tmp = map (\<lambda>x. x XOR bb) (take key_len tmp) @ drop key_len tmp;
          tmp = memcpy_at key_len (replicate (blen - key_len) bb) tmp;
          hc = cls_init cls hc;
          hc = cls_update (hash_class (hc_vtable hc)) hc (take blen tmp);
          (st, _) = cls_state (hash_class (hc_vtable hc)) hc
      in (hc, memcpy_at 0 st ks))"

definition br_hmac_key_init ::
  "br_hmac_key_context \<Rightarrow> hash_context \<Rightarrow> hash_vtable \<Rightarrow> bytes \<Rightarrow> br_hmac_key_context" where
  "br_hmac_key_init kc hc vt key =
     (let cls = hash_class vt;
          kc = kc\<lparr>dig_vtable := vt\<rparr>;
          hc = hc\<lparr>hc_vtable := vt\<rparr>;
          (hc, key) = (if block_size cls < length key
            then let hc = cls_init cls hc;
                     hc = cls_update cls hc key;
                     kbuf = memcpy_at 0 (cls_out cls hc) (replicate 64 0)
                 in (hc, take (br_digest_size cls) kbuf)
            else (hc, key));
          (hc, ks) = process_key hc (ksi kc) key 0x36;
          kc = kc\<lparr>ksi := ks\<rparr>;
          (hc, ks) = process_key hc (kso kc) key 0x5C
      in kc\<lparr>kso := ks\<rparr>)"

definition br_hmac_init :: "br_hmac_context \<Rightarrow> br_hmac_key_context \<Rightarrow> nat \<Rightarrow> br_hmac_context" where
  "br_hmac_init ctx kc olen =
     (let cls = hash_class (dig_vtable kc);
          blen = block_size cls;
          d = cls_init cls (hmac_dig ctx);
          d = cls_set_state cls d (ksi kc) (of_nat blen);
          hlen = br_digest_size cls;
          hlen = (if 0 < olen \<and> olen < hlen then olen else hlen)
      in ctx\<lparr>hmac_dig := d, hmac_kso := kso kc, out_len := hlen\<rparr>)"

definition br_hmac_update :: "br_hmac_context \<Rightarrow> bytes \<Rightarrow> br_hmac_context" where
  "br_hmac_update ctx data =
     ctx\<lparr>hmac_dig := cls_update (hash_class (hc_vtable (hmac_dig ctx))) (hmac_dig ctx) data\<rparr>"

definition br_hmac_out :: "br_hmac_context \<Rightarrow> hash_context \<Rightarrow> bytes" where
  "br_hmac_out ctx hc =
     (let cls = hash_class (hc_vtable (hmac_dig ctx));
          tmp = memcpy_at 0 (cls_out cls (hmac_dig ctx)) (replicate 64 0);
          blen = block_size cls;
          hc = cls_init cls hc;
          hc = cls_set_state cls hc (hmac_kso ctx) (of_nat blen);
          hlen = br_digest_size cls;
          hc = cls_update cls hc (take hlen tmp);
          tmp = memcpy_at 0 (cls_out cls hc) tmp
      in take (out_len ctx) tmp)"

section \<open>RFC 2104\<close>

definition rfc2104_key :: "(bytes \<Rightarrow> bytes) \<Rightarrow> bytes \<Rightarrow> bytes" where
  "rfc2104_key digest key =
     (let k = (if 64 < length key then digest key else key) in k @ replicate (64 - length k) 0)"

definition rfc2104_hmac :: "(bytes \<Rightarrow> bytes) \<Rightarrow> bytes \<Rightarrow> bytes \<Rightarrow> bytes" where
  "rfc2104_hmac digest key text =
     (let k = rfc2104_key digest key
      in digest (map (\<lambda>x. x XOR 0x5C) k @ digest (map (\<lambda>x. x XOR 0x36) k @ text)))"

text \<open>
  What HMAC asks of a hash class: the streaming contract, methods that keep the vtable pointer, a
  64-byte block, and digests and states that fit the 64-byte buffers.
\<close>

locale hmac_hash = stream_hash +
  fixes vt :: hash_vtable
  assumes cls_methods [simp]:
      "cls_init (hash_class vt) = init" "cls_update (hash_class vt) = update"
      "cls_out (hash_class vt) = out" "cls_state (hash_class vt) = state"
      "cls_set_state (hash_class vt) = set_state"
    and keeps_vtable [simp]: "hc_vtable (init c) = vt" "hc_vtable (update c d) = hc_vtable c"
      "hc_vtable (set_state c st n) = hc_vtable c"
    and sizes [simp]: "block_size (hash_class vt) = 64" "br_digest_size (hash_class vt) = hlen"
    and fits: "hlen \<le> 64" "repr m c \<Longrightarrow> length (fst (state c)) \<le> 64"
begin

lemma process_key_state:
  assumes "hc_vtable hc = vt" "length (hc_buf hc) = 64" "length key \<le> 64" "length ks = 64"
  shows "\<exists>hc' rest. process_key hc ks key bb = (hc', fst (state (update (init hc)
      (map (\<lambda>x. x XOR bb) (key @ replicate (64 - length key) 0)))) @ rest)
    \<and> hc_vtable hc' = vt \<and> length (hc_buf hc') = 64"
proof -
  let ?k = "map (\<lambda>x. x XOR bb) (key @ replicate (64 - length key) 0)"
  have rep: "repr ?k (update (init hc) ?k)"
    using repr_update [OF repr_init [OF assms(2)], of ?k] by simp
  have st: "length (fst (state (update (init hc) ?k))) \<le> 64" by (rule fits(2) [OF rep])
  have tmp: "take 64 (memcpy_at (length key) (replicate (64 - length key) bb)
      (map (\<lambda>x. x XOR bb) (take (length key) (memcpy_at 0 key (replicate 256 0)))
        @ drop (length key) (memcpy_at 0 key (replicate 256 0)))) = ?k"
    using assms(3) by (simp add: memcpy_at_def)
  have "process_key hc ks key bb
      = (update (init hc) ?k, memcpy_at 0 (fst (state (update (init hc) ?k))) ks)"
    unfolding process_key_def Let_def split_beta assms(1) sizes cls_methods keeps_vtable tmp ..
  moreover have "memcpy_at 0 (fst (state (update (init hc) ?k))) ks
      = fst (state (update (init hc) ?k)) @ drop (length (fst (state (update (init hc) ?k)))) ks"
    using st assms(4) by (simp add: memcpy_at_def)
  moreover have "hc_vtable (update (init hc) ?k) = vt" by simp
  ultimately show ?thesis using repr_buf [OF rep] by metis
qed

definition key_ready :: "bytes \<Rightarrow> br_hmac_key_context \<Rightarrow> bool" where
  "key_ready key kc \<longleftrightarrow> dig_vtable kc = vt
     \<and> (\<exists>c rest. length (hc_buf c) = 64 \<and> ksi kc
          = fst (state (update (init c) (map (\<lambda>x. x XOR 0x36) (rfc2104_key digest key)))) @ rest)
     \<and> (\<exists>c rest. length (hc_buf c) = 64 \<and> kso kc
          = fst (state (update (init c) (map (\<lambda>x. x XOR 0x5C) (rfc2104_key digest key)))) @ rest)"

lemma length_rfc2104_key: "length (rfc2104_key digest key) = 64"
  using fits(1) by (simp add: rfc2104_key_def Let_def digest_length)

lemma key_init_ready:
  assumes kc: "length (ksi kc) = 64" "length (kso kc) = 64" and hc: "length (hc_buf hc) = 64"
  shows "key_ready key (br_hmac_key_init kc hc vt key)"
proof -
  define k where "k = (if 64 < length key then digest key else key)"
  define hc1 where "hc1 = (if 64 < length key then update (init (hc\<lparr>hc_vtable := vt\<rparr>)) key else hc\<lparr>hc_vtable := vt\<rparr>)"
  have k: "length k \<le> 64" "rfc2104_key digest key = k @ replicate (64 - length k) 0"
    using fits(1) by (auto simp: k_def digest_length rfc2104_key_def)
  have rep: "repr key (update (init (hc\<lparr>hc_vtable := vt\<rparr>)) key)"
    using repr_update [OF repr_init, of "hc\<lparr>hc_vtable := vt\<rparr>" key] hc by simp
  have hc1: "hc_vtable hc1 = vt" "length (hc_buf hc1) = 64"
    using hc repr_buf [OF rep] by (auto simp: hc1_def)
  obtain hc2 r1 where 1: "process_key hc1 (ksi kc) k 0x36 = (hc2, fst (state (update (init hc1)
      (map (\<lambda>x. x XOR 0x36) (rfc2104_key digest key)))) @ r1)"
    and hc2: "hc_vtable hc2 = vt" "length (hc_buf hc2) = 64"
    unfolding k(2) using process_key_state [OF hc1 k(1) kc(1)] by blast
  obtain hc3 r2 where 2: "process_key hc2 (kso kc) k 0x5C = (hc3, fst (state (update (init hc2)
      (map (\<lambda>x. x XOR 0x5C) (rfc2104_key digest key)))) @ r2)"
    unfolding k(2) using process_key_state [OF hc2 k(1) kc(2)] by blast
  have "br_hmac_key_init kc hc vt key = (let (hc2, i) = process_key hc1 (ksi kc) k 0x36;
      (_, ks) = process_key hc2 (kso kc) k 0x5C in kc\<lparr>dig_vtable := vt, ksi := i, kso := ks\<rparr>)"
    using out_digest [OF rep]
    by (simp add: br_hmac_key_init_def Let_def split_beta hc1_def k_def memcpy_at_def digest_length)
  then have "br_hmac_key_init kc hc vt key = kc\<lparr>dig_vtable := vt,
      ksi := fst (state (update (init hc1) (map (\<lambda>x. x XOR 0x36) (rfc2104_key digest key)))) @ r1,
      kso := fst (state (update (init hc2) (map (\<lambda>x. x XOR 0x5C) (rfc2104_key digest key)))) @ r2\<rparr>"
    by (simp only: 1 2 Let_def prod.case)
  then show ?thesis using hc1(2) hc2(2) unfolding key_ready_def by auto
qed

lemma foldl_hmac_update:
  "hc_vtable (hmac_dig ctx) = vt \<Longrightarrow>
   foldl br_hmac_update ctx ds = ctx\<lparr>hmac_dig := foldl update (hmac_dig ctx) ds\<rparr>"
  by (induction ds arbitrary: ctx) (simp_all add: br_hmac_update_def)

lemma hmac_rfc2104:
  assumes "key_ready key kc" and ctx: "length (hc_buf (hmac_dig ctx)) = 64" and hc: "length (hc_buf hc) = 64"
  shows "br_hmac_out (foldl br_hmac_update (br_hmac_init ctx kc olen) ds) hc
    = take (if olen = 0 then hlen else olen) (rfc2104_hmac digest key (concat ds))"
proof -
  let ?k = "rfc2104_key digest key"
  let ?i = "map (\<lambda>x. x XOR 0x36) ?k" and ?o = "map (\<lambda>x. x XOR 0x5C) ?k"
  obtain ci ri co ro where vt: "dig_vtable kc = vt" and c: "length (hc_buf ci) = 64" "length (hc_buf co) = 64"
    and ks: "ksi kc = fst (state (update (init ci) ?i)) @ ri" "kso kc = fst (state (update (init co) ?o)) @ ro"
    using assms(1) unfolding key_ready_def by blast
  have buf: "length (hc_buf (init c)) = 64" if "length (hc_buf c) = 64" for c
    using repr_buf [OF repr_init [OF that]] .
  define d where "d = set_state (init (hmac_dig ctx)) (ksi kc) 64"
  have "repr (?i @ concat ds) (foldl update d ds)"
    unfolding d_def ks by (intro repr_foldl resume c buf ctx) (simp add: length_rfc2104_key)
  then have inner: "out (foldl update d ds) = digest (?i @ concat ds)" by (rule out_digest)
  have "repr (?o @ x) (update (set_state (init hc) (kso kc) 64) x)" for x
    unfolding ks by (intro repr_update resume c buf hc) (simp add: length_rfc2104_key)
  then have outer: "out (update (set_state (init hc) (kso kc) 64) x) = digest (?o @ x)" for x
    by (rule out_digest)
  have vd: "hc_vtable d = vt" by (simp add: d_def)
  then have vtd: "hc_vtable (foldl update d ds) = vt"
    by (induction ds rule: rev_induct) simp_all
  have init: "br_hmac_init ctx kc olen = ctx\<lparr>hmac_dig := d, hmac_kso := kso kc,
      out_len := if 0 < olen \<and> olen < hlen then olen else hlen\<rparr>"
    by (simp add: br_hmac_init_def vt d_def Let_def)
  show ?thesis
    by (simp add: init foldl_hmac_update vd br_hmac_out_def vtd Let_def inner outer
        rfc2104_hmac_def memcpy_at_def digest_length)
qed

text \<open>A context that has been used can be initialised again.\<close>

lemma hmac_buf:
  assumes "key_ready key kc" and ctx: "length (hc_buf (hmac_dig ctx)) = 64"
  shows "length (hc_buf (hmac_dig (foldl br_hmac_update (br_hmac_init ctx kc olen) ds))) = 64"
proof -
  let ?i = "map (\<lambda>x. x XOR 0x36) (rfc2104_key digest key)"
  obtain ci ri where vt: "dig_vtable kc = vt" and c: "length (hc_buf ci) = 64" and ks: "ksi kc = fst (state (update (init ci) ?i)) @ ri"
    using assms(1) unfolding key_ready_def by blast
  have buf: "length (hc_buf (init (hmac_dig ctx))) = 64" using repr_buf [OF repr_init [OF ctx]] .
  define d where "d = set_state (init (hmac_dig ctx)) (ksi kc) 64"
  have rep: "repr (?i @ concat ds) (foldl update d ds)"
    unfolding d_def ks by (intro repr_foldl resume c buf) (simp add: length_rfc2104_key)
  have "hc_vtable d = vt" by (simp add: d_def)
  then show ?thesis using repr_buf [OF rep] by (simp add: br_hmac_init_def vt d_def Let_def foldl_hmac_update)
qed

lemmas hmac_key_rfc2104 = hmac_rfc2104 [OF key_init_ready]
lemmas hmac_key_buf = hmac_buf [OF key_init_ready]

end

lemma desc_fields:
  "block_size br_sha1_vtable = 64" "br_digest_size br_sha1_vtable = 20"
  "block_size br_sha224_vtable = 64" "br_digest_size br_sha224_vtable = 28"
  "block_size br_sha256_vtable = 64" "br_digest_size br_sha256_vtable = 32"
  by (simp_all add: block_size_def br_digest_size_def br_sha1_vtable_def br_sha224_vtable_def
      br_sha256_vtable_def BR_HASHDESC_ID_def BR_HASHDESC_OUT_def BR_HASHDESC_STATE_def
      BR_HASHDESC_LBLEN_def BR_HASHDESC_MD_PADDING_def BR_HASHDESC_MD_PADDING_BE_def)

lemma vtable_kept:
  "hc_vtable (sha1_loop ptr data c) = hc_vtable c"
  "hc_vtable (sha2small_update c d) = hc_vtable c"
  by (induction ptr data c rule: sha1_loop.induct)
    (subst sha1_loop.simps, simp_all add: Let_def sha2small_update_def split: prod.splits)

lemmas hmac_hash_simps = desc_fields vtable_kept br_sha1_vtable_def br_sha224_vtable_def
  br_sha256_vtable_def br_sha1_init_def br_sha1_update_def br_sha1_state_def br_sha1_set_state_def
  br_sha224_init_def br_sha224_update_def br_sha224_state_def br_sha224_set_state_def br_sha256_init_def

interpretation hmac_sha1: hmac_hash br_sha1_init br_sha1_update br_sha1_out br_sha1_state
  br_sha1_set_state fips_sha1 sha1_repr 20 vtable_sha1
  by unfold_locales (simp_all add: desc_fields, simp_all add: hmac_hash_simps)

interpretation hmac_sha224: hmac_hash br_sha224_init br_sha224_update br_sha224_out br_sha224_state
  br_sha224_set_state fips_sha224 "sha2_repr br_sha224_IV" 28 vtable_sha224
  by unfold_locales (simp_all add: desc_fields, simp_all add: hmac_hash_simps)

interpretation hmac_sha256: hmac_hash br_sha256_init br_sha224_update br_sha256_out br_sha224_state
  br_sha224_set_state fips_sha256 "sha2_repr br_sha256_IV" 32 vtable_sha256
  by unfold_locales (simp_all add: desc_fields, simp_all add: hmac_hash_simps)

section \<open>Properties\<close>

fun fips_hash :: "hash_vtable \<Rightarrow> bytes \<Rightarrow> bytes" where
  "fips_hash vtable_sha1 = fips_sha1"
| "fips_hash vtable_sha224 = fips_sha224"
| "fips_hash vtable_sha256 = fips_sha256"

definition zero_context :: hash_context where
  "zero_context = \<lparr>hc_vtable = vtable_sha256, hc_buf = replicate 64 0, hc_count = 0, hc_val = []\<rparr>"

definition zero_key_context :: br_hmac_key_context where
  "zero_key_context = \<lparr>dig_vtable = vtable_sha256, ksi = replicate 64 0, kso = replicate 64 0\<rparr>"

definition zero_hmac_context :: br_hmac_context where
  "zero_hmac_context = \<lparr>hmac_dig = zero_context, hmac_kso = [], out_len = 0\<rparr>"

text \<open>C26. A SHA-224 or SHA-256 context initialised and fed a message in any sequence of updates, of any
  sizes, outputs the FIPS 180-4 digest of the concatenated message.\<close>

theorem sha2_streaming:
  assumes "length (hc_buf c) = 64"
  shows "br_sha224_out (foldl br_sha224_update (br_sha224_init c) ds) = fips_sha224 (concat ds)
    \<and> br_sha256_out (foldl br_sha224_update (br_sha256_init c) ds) = fips_sha256 (concat ds)"
  using assms sha224.chunks_digest sha256.chunks_digest by simp

theorem sha2_streaming_witness:
  "length (hc_buf zero_context) = 64
    \<and> br_sha224_out (foldl br_sha224_update (br_sha224_init zero_context) [[0x61], [0x62, 0x63]])
      = fips_sha224 [0x61, 0x62, 0x63]
    \<and> br_sha256_out (foldl br_sha224_update (br_sha256_init zero_context) [[0x61], [0x62, 0x63]])
      = fips_sha256 [0x61, 0x62, 0x63]"
  using sha2_streaming [of zero_context "[[0x61], [0x62, 0x63]]"] by (simp add: zero_context_def)

text \<open>A SHA-1 context initialised and fed a message in any sequence of updates outputs the FIPS 180-4
  digest of the concatenated message; the running state saved on a block boundary can be installed in
  another context, which then continues the same computation.\<close>

theorem sha1_streaming:
  assumes "length (hc_buf c) = 64" and "length (hc_buf c') = 64" and "length k = 64"
  shows "br_sha1_out (foldl br_sha1_update (br_sha1_init c) ds) = fips_sha1 (concat ds)
    \<and> br_sha1_out (foldl br_sha1_update (br_sha1_set_state c'
          (fst (br_sha1_state (br_sha1_update (br_sha1_init c) k))) 64) ds) = fips_sha1 (k @ concat ds)"
  using assms sha1.chunks_digest sha1.resume [of c c' k "[]"] sha1.repr_foldl sha1.out_digest by simp

theorem sha1_streaming_witness:
  "length (hc_buf zero_context) = 64
    \<and> br_sha1_out (foldl br_sha1_update (br_sha1_set_state zero_context
          (fst (br_sha1_state (br_sha1_update (br_sha1_init zero_context) (replicate 64 7)))) 64)
          [[1], [2, 3]]) = fips_sha1 (replicate 64 7 @ [1, 2, 3])"
  using sha1_streaming [of zero_context zero_context "replicate 64 7" "[[1], [2, 3]]"]
  by (simp add: zero_context_def)

text \<open>C27. The HMAC code computes RFC 2104 for each of its hash classes: for every key length (long keys are
  hashed first), every way of cutting the message into updates, and every requested output length
  (0 selects the natural one, a longer request is cut to it), whatever the contexts held before.\<close>

theorem hmac_correct:
  assumes "length (ksi kc) = 64" and "length (kso kc) = 64" and "length (hc_buf (hmac_dig ctx)) = 64"
    and "length (hc_buf hc) = 64" and "length (hc_buf hc') = 64"
  shows "br_hmac_out (foldl br_hmac_update (br_hmac_init ctx (br_hmac_key_init kc hc vt key) olen) ds) hc'
    = take (if olen = 0 then br_digest_size (hash_class vt) else olen)
        (rfc2104_hmac (fips_hash vt) key (concat ds))"
  using assms
  by (cases vt)
    (simp_all add: desc_fields hmac_sha1.hmac_key_rfc2104 hmac_sha224.hmac_key_rfc2104
      hmac_sha256.hmac_key_rfc2104)

theorem hmac_correct_witness:
  "length (ksi zero_key_context) = 64 \<and> length (kso zero_key_context) = 64
    \<and> length (hc_buf (hmac_dig zero_hmac_context)) = 64 \<and> length (hc_buf zero_context) = 64
    \<and> br_hmac_out (foldl br_hmac_update (br_hmac_init zero_hmac_context
          (br_hmac_key_init zero_key_context zero_context vtable_sha256 (replicate 70 0xAA)) 16)
          [[1], [2, 3]]) zero_context
      = take 16 (rfc2104_hmac fips_sha256 (replicate 70 0xAA) [1, 2, 3])"
  using hmac_correct [of zero_key_context zero_hmac_context zero_context zero_context vtable_sha256
      "replicate 70 0xAA" 16 "[[1], [2, 3]]"]
  by (simp add: zero_key_context_def zero_hmac_context_def zero_context_def)

end
