(* ===== verification/M128.thy ===== *)
theory M128 imports CT_Inner begin

text \<open>
  The \<open>__m128i\<close> registers of the SSE2/SSE4.1 code in \<open>aes_x86ni.c\<close>, \<open>aes_x86ni_ctr.c\<close> and
  \<open>ghash_pclmul.c\<close>: a register is a 128-bit word, byte 0 of memory being its low byte, and each
  intrinsic is the operation of the instruction set it compiles to. The lemmas give the four 32-bit
  lanes of each result, which is how the key schedule proofs read the code.
\<close>

section \<open>Lanes\<close>

definition dword :: "nat \<Rightarrow> u128 \<Rightarrow> u32" where
  "dword i x = ucast (drop_bit (32 * i) x)"

definition mk_dwords :: "u32 \<Rightarrow> u32 \<Rightarrow> u32 \<Rightarrow> u32 \<Rightarrow> u128" where
  "mk_dwords a b c d =
     ucast a OR push_bit 32 (ucast b) OR push_bit 64 (ucast c) OR push_bit 96 (ucast d)"

definition qword :: "nat \<Rightarrow> u128 \<Rightarrow> u64" where
  "qword i x = ucast (drop_bit (64 * i) x)"

definition mk_qwords :: "u64 \<Rightarrow> u64 \<Rightarrow> u128" where
  "mk_qwords a b = ucast a OR push_bit 64 (ucast b)"

section \<open>Intrinsics\<close>

definition mm_loadu_si128 :: "bytes \<Rightarrow> u128" where
  "mm_loadu_si128 p = le_word (take 16 p)"

definition mm_storeu_si128 :: "u128 \<Rightarrow> bytes" where
  "mm_storeu_si128 x = le_bytes 16 x"

definition mm_xor_si128 :: "u128 \<Rightarrow> u128 \<Rightarrow> u128" where
  "mm_xor_si128 x y = x XOR y"

definition mm_slli_si128 :: "u128 \<Rightarrow> nat \<Rightarrow> u128" where
  "mm_slli_si128 x n = push_bit (8 * n) x"

definition mm_shuffle_epi32 :: "u128 \<Rightarrow> nat \<Rightarrow> u128" where
  "mm_shuffle_epi32 x imm =
     mk_dwords (dword (imm mod 4) x) (dword (imm div 4 mod 4) x)
       (dword (imm div 16 mod 4) x) (dword (imm div 64 mod 4) x)"

definition mm_insert_epi32 :: "u128 \<Rightarrow> u32 \<Rightarrow> nat \<Rightarrow> u128" where
  "mm_insert_epi32 x v i =
     mk_dwords (if i = 0 then v else dword 0 x) (if i = 1 then v else dword 1 x)
       (if i = 2 then v else dword 2 x) (if i = 3 then v else dword 3 x)"

text \<open>\<open>_mm_shuffle_pd\<close> picks one half of each operand.\<close>

definition mm_shuffle_pd :: "u128 \<Rightarrow> u128 \<Rightarrow> nat \<Rightarrow> u128" where
  "mm_shuffle_pd x y imm = mk_qwords (qword (imm mod 2) x) (qword (imm div 2 mod 2) y)"

section \<open>Lanes of the results\<close>

lemma bit_dword: "bit (dword i x) n \<longleftrightarrow> n < 32 \<and> bit x (32 * i + n)"
  by (auto simp: dword_def bit_simps dest: bit_imp_le_length)

lemma bit_qword: "bit (qword i x) n \<longleftrightarrow> n < 64 \<and> bit x (64 * i + n)"
  by (auto simp: qword_def bit_simps dest: bit_imp_le_length)

lemma bit_small: "\<not> bit (x :: 'a::len word) n" if "LENGTH('a) \<le> n"
  using that bit_imp_le_length by force

lemma dword_mk [simp]:
  "dword 0 (mk_dwords a b c d) = a" "dword (Suc 0) (mk_dwords a b c d) = b"
  "dword 2 (mk_dwords a b c d) = c" "dword 3 (mk_dwords a b c d) = d"
  by (auto intro!: bit_word_eqI simp: bit_dword mk_dwords_def bit_simps bit_small)

lemma mk_dword_dwords [simp]: "mk_dwords (dword 0 x) (dword 1 x) (dword 2 x) (dword 3 x) = x"
proof (rule bit_word_eqI)
  fix n assume "n < LENGTH(128)"
  then consider "n < 32" | "32 \<le> n" "n < 64" | "64 \<le> n" "n < 96" | "96 \<le> n" "n < 128" by force
  then show "bit (mk_dwords (dword 0 x) (dword 1 x) (dword 2 x) (dword 3 x)) n = bit x n"
    by cases (auto simp: mk_dwords_def bit_simps bit_dword)
qed

lemma m128_eqI:
  "dword 0 x = dword 0 y \<Longrightarrow> dword 1 x = dword 1 y \<Longrightarrow> dword 2 x = dword 2 y \<Longrightarrow>
   dword 3 x = dword 3 y \<Longrightarrow> x = y"
  using mk_dword_dwords [of x] mk_dword_dwords [of y] by simp

lemma dword_xor [simp]: "dword i (mm_xor_si128 x y) = dword i x XOR dword i y"
  by (auto intro!: bit_word_eqI simp: mm_xor_si128_def bit_dword bit_simps)

lemma dword_slli4 [simp]:
  "dword 0 (mm_slli_si128 x 4) = 0" "dword (Suc 0) (mm_slli_si128 x 4) = dword 0 x"
  "dword 2 (mm_slli_si128 x 4) = dword 1 x" "dword 3 (mm_slli_si128 x 4) = dword 2 x"
  by (auto intro!: bit_word_eqI simp: mm_slli_si128_def bit_dword bit_simps)

lemma dword_shuffle_pd:
  "dword 0 (mm_shuffle_pd x y k) = dword (2 * (k mod 2)) x"
  "dword (Suc 0) (mm_shuffle_pd x y k) = dword (2 * (k mod 2) + 1) x"
  "dword 2 (mm_shuffle_pd x y k) = dword (2 * (k div 2 mod 2)) y"
  "dword 3 (mm_shuffle_pd x y k) = dword (2 * (k div 2 mod 2) + 1) y"
  by (auto intro!: bit_word_eqI simp: mm_shuffle_pd_def mk_qwords_def bit_dword bit_qword bit_simps
      bit_small algebra_simps)

lemma dword_loadu:
  assumes "length bs = 16" and "i < 4"
  shows "dword i (mm_loadu_si128 bs) = le_word (take 4 (drop (4 * i) bs))"
proof (rule bit_word_eqI)
  fix n assume "n < LENGTH(32)"
  then have n: "n < 32" "n div 8 < 4" by (simp_all add: less_mult_imp_div_less)
  obtain q where q: "32 * i = 8 * q" "q = 4 * i" by simp
  have "(32 * i + n) div 8 = 4 * i + n div 8" unfolding q(1) by (simp add: q(2))
  moreover have "(32 * i + n) mod 8 = n mod 8" unfolding q(1) by simp
  ultimately show "bit (dword i (mm_loadu_si128 bs)) n
      = bit (le_word (take 4 (drop (4 * i) bs)) :: u32) n"
    using n assms by (simp add: bit_dword mm_loadu_si128_def bit_le_word)
qed

end
