(* ===== verification/AES_NI.thy ===== *)
theory AES_NI imports M128 begin

text \<open>
  AES with the AES-NI instructions: the key schedule (\<open>c_src/bearssl/symcipher/aes_x86ni.c\<close>) and
  counter mode (\<open>c_src/bearssl/symcipher/aes_x86ni_ctr.c\<close>). The first section is FIPS 197 (byte
  state, round transformations, recursive key expansion, cipher) and the instructions defined from
  its transformations; the second is the code; the lemmas show that the code's lane-parallel key
  schedule is the standard's expansion for the three key sizes and that its four-blocks-at-a-time
  counter mode is the block-by-block one.
\<close>

section \<open>FIPS 197\<close>

definition sbox_table :: "u8 list" where
  "sbox_table = [
    0x63, 0x7C, 0x77, 0x7B, 0xF2, 0x6B, 0x6F, 0xC5, 0x30, 0x01, 0x67, 0x2B, 0xFE, 0xD7, 0xAB, 0x76,
    0xCA, 0x82, 0xC9, 0x7D, 0xFA, 0x59, 0x47, 0xF0, 0xAD, 0xD4, 0xA2, 0xAF, 0x9C, 0xA4, 0x72, 0xC0,
    0xB7, 0xFD, 0x93, 0x26, 0x36, 0x3F, 0xF7, 0xCC, 0x34, 0xA5, 0xE5, 0xF1, 0x71, 0xD8, 0x31, 0x15,
    0x04, 0xC7, 0x23, 0xC3, 0x18, 0x96, 0x05, 0x9A, 0x07, 0x12, 0x80, 0xE2, 0xEB, 0x27, 0xB2, 0x75,
    0x09, 0x83, 0x2C, 0x1A, 0x1B, 0x6E, 0x5A, 0xA0, 0x52, 0x3B, 0xD6, 0xB3, 0x29, 0xE3, 0x2F, 0x84,
    0x53, 0xD1, 0x00, 0xED, 0x20, 0xFC, 0xB1, 0x5B, 0x6A, 0xCB, 0xBE, 0x39, 0x4A, 0x4C, 0x58, 0xCF,
    0xD0, 0xEF, 0xAA, 0xFB, 0x43, 0x4D, 0x33, 0x85, 0x45, 0xF9, 0x02, 0x7F, 0x50, 0x3C, 0x9F, 0xA8,
    0x51, 0xA3, 0x40, 0x8F, 0x92, 0x9D, 0x38, 0xF5, 0xBC, 0xB6, 0xDA, 0x21, 0x10, 0xFF, 0xF3, 0xD2,
    0xCD, 0x0C, 0x13, 0xEC, 0x5F, 0x97, 0x44, 0x17, 0xC4, 0xA7, 0x7E, 0x3D, 0x64, 0x5D, 0x19, 0x73,
    0x60, 0x81, 0x4F, 0xDC, 0x22, 0x2A, 0x90, 0x88, 0x46, 0xEE, 0xB8, 0x14, 0xDE, 0x5E, 0x0B, 0xDB,
    0xE0, 0x32, 0x3A, 0x0A, 0x49, 0x06, 0x24, 0x5C, 0xC2, 0xD3, 0xAC, 0x62, 0x91, 0x95, 0xE4, 0x79,
    0xE7, 0xC8, 0x37, 0x6D, 0x8D, 0xD5, 0x4E, 0xA9, 0x6C, 0x56, 0xF4, 0xEA, 0x65, 0x7A, 0xAE, 0x08,
    0xBA, 0x78, 0x25, 0x2E, 0x1C, 0xA6, 0xB4, 0xC6, 0xE8, 0xDD, 0x74, 0x1F, 0x4B, 0xBD, 0x8B, 0x8A,
    0x70, 0x3E, 0xB5, 0x66, 0x48, 0x03, 0xF6, 0x0E, 0x61, 0x35, 0x57, 0xB9, 0x86, 0xC1, 0x1D, 0x9E,
    0xE1, 0xF8, 0x98, 0x11, 0x69, 0xD9, 0x8E, 0x94, 0x9B, 0x1E, 0x87, 0xE9, 0xCE, 0x55, 0x28, 0xDF,
    0x8C, 0xA1, 0x89, 0x0D, 0xBF, 0xE6, 0x42, 0x68, 0x41, 0x99, 0x2D, 0x0F, 0xB0, 0x54, 0xBB, 0x16]"

definition sbox :: "u8 \<Rightarrow> u8" where
  "sbox x = sbox_table ! unat x"

definition SubBytes :: "bytes \<Rightarrow> bytes" where
  "SubBytes s = map sbox s"

text \<open>The state is kept by columns: row \<open>r\<close>, column \<open>c\<close> is byte \<open>r + 4 c\<close>.\<close>

definition ShiftRows :: "bytes \<Rightarrow> bytes" where
  "ShiftRows s = map (\<lambda>i. s ! (i mod 4 + 4 * ((i div 4 + i mod 4) mod 4))) [0..<16]"

definition xtime :: "u8 \<Rightarrow> u8" where
  "xtime b = push_bit 1 b XOR (if bit b 7 then 0x1B else 0)"

definition gf_mul :: "nat \<Rightarrow> u8 \<Rightarrow> u8" where
  "gf_mul k b =
     (if bit k 0 then b else 0) XOR (if bit k 1 then xtime b else 0)
       XOR (if bit k 2 then xtime (xtime b) else 0) XOR (if bit k 3 then xtime (xtime (xtime b)) else 0)"

definition mix_with :: "nat list \<Rightarrow> bytes \<Rightarrow> bytes" where
  "mix_with m s = map (\<lambda>i. let c = 4 * (i div 4); r = i mod 4 in
     gf_mul (m ! ((0 + 4 - r) mod 4)) (s ! (c + 0)) XOR gf_mul (m ! ((1 + 4 - r) mod 4)) (s ! (c + 1))
     XOR gf_mul (m ! ((2 + 4 - r) mod 4)) (s ! (c + 2)) XOR gf_mul (m ! ((3 + 4 - r) mod 4)) (s ! (c + 3)))
     [0..<16]"

definition MixColumns :: "bytes \<Rightarrow> bytes" where
  "MixColumns s = mix_with [2, 3, 1, 1] s"

definition InvMixColumns :: "bytes \<Rightarrow> bytes" where
  "InvMixColumns s = mix_with [14, 11, 13, 9] s"

text \<open>A word of the key schedule is four bytes, read here as a little-endian 32-bit word.\<close>

definition SubWord :: "u32 \<Rightarrow> u32" where
  "SubWord w = le_word (map sbox (le_bytes 4 w))"

definition RotWord :: "u32 \<Rightarrow> u32" where
  "RotWord w = word_rotr 8 w"

fun Rcon :: "nat \<Rightarrow> u8" where
  "Rcon 0 = 0"
| "Rcon (Suc 0) = 1"
| "Rcon (Suc (Suc i)) = xtime (Rcon (Suc i))"

fun KeyExpansion :: "nat \<Rightarrow> bytes \<Rightarrow> nat \<Rightarrow> u32" where
  "KeyExpansion Nk key i =
     (if i < Nk \<or> Nk = 0 then le_word (take 4 (drop (4 * i) key))
      else let temp = KeyExpansion Nk key (i - 1)
           in KeyExpansion Nk key (i - Nk) XOR
             (if i mod Nk = 0 then SubWord (RotWord temp) XOR ucast (Rcon (i div Nk))
              else if 6 < Nk \<and> i mod Nk = 4 then SubWord temp
              else temp))"

declare KeyExpansion.simps [simp del]

definition round_key :: "(nat \<Rightarrow> u32) \<Rightarrow> nat \<Rightarrow> bytes" where
  "round_key w r = concat (map (\<lambda>i. le_bytes 4 (w (4 * r + i))) [0..<4])"

definition AddRoundKey :: "(nat \<Rightarrow> u32) \<Rightarrow> nat \<Rightarrow> bytes \<Rightarrow> bytes" where
  "AddRoundKey w r s = xor_bytes s (round_key w r)"

definition Cipher :: "nat \<Rightarrow> (nat \<Rightarrow> u32) \<Rightarrow> bytes \<Rightarrow> bytes" where
  "Cipher Nr w input =
     (let s = AddRoundKey w 0 input;
          s = fold (\<lambda>r s. AddRoundKey w r (MixColumns (ShiftRows (SubBytes s)))) [1..<Nr] s
      in AddRoundKey w Nr (ShiftRows (SubBytes s)))"

text \<open>AES under a key of 16, 24 or 32 bytes.\<close>

definition aes_encrypt :: "bytes \<Rightarrow> bytes \<Rightarrow> bytes" where
  "aes_encrypt key = (let Nk = length key div 4 in Cipher (Nk + 6) (KeyExpansion Nk key))"

section \<open>The instructions\<close>

definition mm_aesenc_si128 :: "u128 \<Rightarrow> u128 \<Rightarrow> u128" where
  "mm_aesenc_si128 x k = le_word (MixColumns (SubBytes (ShiftRows (le_bytes 16 x)))) XOR k"

definition mm_aesenclast_si128 :: "u128 \<Rightarrow> u128 \<Rightarrow> u128" where
  "mm_aesenclast_si128 x k = le_word (SubBytes (ShiftRows (le_bytes 16 x))) XOR k"

definition mm_aesimc_si128 :: "u128 \<Rightarrow> u128" where
  "mm_aesimc_si128 x = le_word (InvMixColumns (le_bytes 16 x))"

definition mm_aeskeygenassist_si128 :: "u128 \<Rightarrow> u8 \<Rightarrow> u128" where
  "mm_aeskeygenassist_si128 x rcon =
     mk_dwords (SubWord (dword 1 x)) (RotWord (SubWord (dword 1 x)) XOR ucast rcon)
       (SubWord (dword 3 x)) (RotWord (SubWord (dword 3 x)) XOR ucast rcon)"

section \<open>The key schedule code\<close>

definition expand_step128 :: "u128 \<Rightarrow> u128 \<Rightarrow> u128" where
  "expand_step128 k k2 =
     (let k = mm_xor_si128 k (mm_slli_si128 k 4);
          k = mm_xor_si128 k (mm_slli_si128 k 4);
          k = mm_xor_si128 k (mm_slli_si128 k 4);
          k2 = mm_shuffle_epi32 k2 0xFF
      in mm_xor_si128 k k2)"

definition expand_step192 :: "u128 \<Rightarrow> u128 \<Rightarrow> u128 \<Rightarrow> u128 \<times> u128 \<times> u128" where
  "expand_step192 t1 t2 t3 =
     (let t2 = mm_shuffle_epi32 t2 0x55;
          t4 = mm_slli_si128 t1 4;
          t1 = mm_xor_si128 t1 t4;
          t4 = mm_slli_si128 t4 4;
          t1 = mm_xor_si128 t1 t4;
          t4 = mm_slli_si128 t4 4;
          t1 = mm_xor_si128 t1 t4;
          t1 = mm_xor_si128 t1 t2;
          t2 = mm_shuffle_epi32 t1 0xFF;
          t4 = mm_slli_si128 t3 4;
          t3 = mm_xor_si128 t3 t4;
          t3 = mm_xor_si128 t3 t2
      in (t1, t2, t3))"

definition expand_step256_1 :: "u128 \<Rightarrow> u128 \<Rightarrow> u128 \<times> u128" where
  "expand_step256_1 t1 t2 =
     (let t2 = mm_shuffle_epi32 t2 0xFF;
          t4 = mm_slli_si128 t1 4;
          t1 = mm_xor_si128 t1 t4;
          t4 = mm_slli_si128 t4 4;
          t1 = mm_xor_si128 t1 t4;
          t4 = mm_slli_si128 t4 4;
          t1 = mm_xor_si128 t1 t4;
          t1 = mm_xor_si128 t1 t2
      in (t1, t2))"

definition expand_step256_2 :: "u128 \<Rightarrow> u128 \<Rightarrow> u128" where
  "expand_step256_2 t1 t3 =
     (let t4 = mm_aeskeygenassist_si128 t1 0;
          t2 = mm_shuffle_epi32 t4 0xAA;
          t4 = mm_slli_si128 t3 4;
          t3 = mm_xor_si128 t3 t4;
          t4 = mm_slli_si128 t4 4;
          t3 = mm_xor_si128 t3 t4;
          t4 = mm_slli_si128 t4 4;
          t3 = mm_xor_si128 t3 t4
      in mm_xor_si128 t3 t2)"

text \<open>The macros update \<open>sk\<close> and the running registers; each returns them.\<close>

definition KEXP128 :: "nat \<Rightarrow> u8 \<Rightarrow> u128 list \<times> u128 \<Rightarrow> u128 list \<times> u128" where
  "KEXP128 i rcon = (\<lambda>(sk, k).
     (let k = expand_step128 k (mm_aeskeygenassist_si128 k rcon) in (sk[i := k], k)))"

definition KEXP192 :: "nat \<Rightarrow> u8 \<Rightarrow> u8 \<Rightarrow> u128 list \<times> u128 \<times> u128 \<Rightarrow> u128 list \<times> u128 \<times> u128" where
  "KEXP192 i rcon1 rcon2 = (\<lambda>(sk, t1, t3).
     (let sk = sk[i + 0 := t1];
          sk = sk[i + 1 := t3];
          t2 = mm_aeskeygenassist_si128 t3 rcon1;
          (t1, t2, t3) = expand_step192 t1 t2 t3;
          sk = sk[i + 1 := mm_shuffle_pd (sk ! (i + 1)) t1 0];
          sk = sk[i + 2 := mm_shuffle_pd t1 t3 1];
          t2 = mm_aeskeygenassist_si128 t3 rcon2;
          (t1, t2, t3) = expand_step192 t1 t2 t3
      in (sk, t1, t3)))"

definition KEXP256 :: "nat \<Rightarrow> u8 \<Rightarrow> u128 list \<times> u128 \<times> u128 \<Rightarrow> u128 list \<times> u128 \<times> u128" where
  "KEXP256 i rcon = (\<lambda>(sk, t1, t3).
     (let sk = sk[i + 0 := t3];
          t2 = mm_aeskeygenassist_si128 t3 rcon;
          (t1, t2) = expand_step256_1 t1 t2;
          sk = sk[i + 1 := t1];
          t3 = expand_step256_2 t1 t3
      in (sk, t1, t3)))"

definition x86ni_keysched :: "u128 list \<Rightarrow> bytes \<Rightarrow> u128 list \<times> nat" where
  "x86ni_keysched sk key =
     (if length key = 16 then
        let t1 = mm_loadu_si128 key;
            sk = sk[0 := t1];
            (sk, t1) = KEXP128 1 0x01 (sk, t1);
            (sk, t1) = KEXP128 2 0x02 (sk, t1);
            (sk, t1) = KEXP128 3 0x04 (sk, t1);
            (sk, t1) = KEXP128 4 0x08 (sk, t1);
            (sk, t1) = KEXP128 5 0x10 (sk, t1);
            (sk, t1) = KEXP128 6 0x20 (sk, t1);
            (sk, t1) = KEXP128 7 0x40 (sk, t1);
            (sk, t1) = KEXP128 8 0x80 (sk, t1);
            (sk, t1) = KEXP128 9 0x1B (sk, t1);
            (sk, t1) = KEXP128 10 0x36 (sk, t1)
        in (sk, 10)
      else if length key = 24 then
        let t1 = mm_loadu_si128 key;
            t3 = mm_loadu_si128 (drop 8 key);
            t3 = mm_shuffle_epi32 t3 0x4E;
            (sk, t1, t3) = KEXP192 0 0x01 0x02 (sk, t1, t3);
            (sk, t1, t3) = KEXP192 3 0x04 0x08 (sk, t1, t3);
            (sk, t1, t3) = KEXP192 6 0x10 0x20 (sk, t1, t3);
            (sk, t1, t3) = KEXP192 9 0x40 0x80 (sk, t1, t3)
        in (sk[12 := t1], 12)
      else if length key = 32 then
        let t1 = mm_loadu_si128 key;
            t3 = mm_loadu_si128 (drop 16 key);
            sk = sk[0 := t1];
            (sk, t1, t3) = KEXP256 1 0x01 (sk, t1, t3);
            (sk, t1, t3) = KEXP256 3 0x02 (sk, t1, t3);
            (sk, t1, t3) = KEXP256 5 0x04 (sk, t1, t3);
            (sk, t1, t3) = KEXP256 7 0x08 (sk, t1, t3);
            (sk, t1, t3) = KEXP256 9 0x10 (sk, t1, t3);
            (sk, t1, t3) = KEXP256 11 0x20 (sk, t1, t3);
            sk = sk[13 := t3];
            t2 = mm_aeskeygenassist_si128 t3 0x40;
            (t1, t2) = expand_step256_1 t1 t2
        in (sk[14 := t1], 14)
      else (sk, 0))"

text \<open>The array \<open>sk[15]\<close> of the callers is uninitialised: a parameter here.\<close>

definition br_aes_x86ni_keysched_enc :: "u128 list \<Rightarrow> bytes \<Rightarrow> bytes \<Rightarrow> bytes \<times> nat" where
  "br_aes_x86ni_keysched_enc sk0 skni key =
     (let (sk, num_rounds) = x86ni_keysched sk0 key
      in (memcpy_at 0 (concat (map mm_storeu_si128 (take (num_rounds + 1) sk))) skni, num_rounds))"

definition br_aes_x86ni_keysched_dec :: "u128 list \<Rightarrow> bytes \<Rightarrow> bytes \<Rightarrow> bytes \<times> nat" where
  "br_aes_x86ni_keysched_dec sk0 skni key =
     (let (sk, num_rounds) = x86ni_keysched sk0 key;
          skni = memcpy_at 0 (mm_storeu_si128 (sk ! num_rounds)) skni;
          skni = fold (\<lambda>u skni. memcpy_at (push_bit 4 u)
                   (mm_storeu_si128 (mm_aesimc_si128 (sk ! (num_rounds - u)))) skni) [1..<num_rounds] skni;
          skni = memcpy_at (push_bit 4 num_rounds) (mm_storeu_si128 (sk ! 0)) skni
      in (skni, num_rounds))"

section \<open>The counter mode code\<close>

record br_aes_x86ni_ctr_keys =
  skni :: bytes
  num_rounds :: nat

definition br_aes_x86ni_ctr_init ::
  "u128 list \<Rightarrow> br_aes_x86ni_ctr_keys \<Rightarrow> bytes \<Rightarrow> br_aes_x86ni_ctr_keys" where
  "br_aes_x86ni_ctr_init sk0 ctx key =
     (let (sk, n) = br_aes_x86ni_keysched_enc sk0 (skni ctx) key
      in ctx\<lparr>skni := sk, num_rounds := n\<rparr>)"

text \<open>The compiler builtin behind \<open>br_bswap32\<close> reverses the bytes of a word.\<close>

definition br_bswap32 :: "u32 \<Rightarrow> u32" where
  "br_bswap32 x = le_word (rev (le_bytes 4 x))"

text \<open>The instructions applied to each of the four registers \<open>x0\<close> ... \<open>x3\<close>.\<close>

definition x86ni_ctr_lane :: "u128 list \<Rightarrow> nat \<Rightarrow> u128 \<Rightarrow> u128" where
  "x86ni_ctr_lane sk nr x =
     (let x = mm_xor_si128 x (sk ! 0);
          x = fold (\<lambda>u x. mm_aesenc_si128 x (sk ! u)) [1, 2, 3, 4, 5, 6, 7, 8, 9] x
      in if nr = 10 then mm_aesenclast_si128 x (sk ! 10)
         else if nr = 12 then
           let x = fold (\<lambda>u x. mm_aesenc_si128 x (sk ! u)) [10, 11] x in mm_aesenclast_si128 x (sk ! 12)
         else
           let x = fold (\<lambda>u x. mm_aesenc_si128 x (sk ! u)) [10, 11, 12, 13] x
           in mm_aesenclast_si128 x (sk ! 14))"

function x86ni_ctr_loop ::
  "u128 list \<Rightarrow> nat \<Rightarrow> u128 \<Rightarrow> u32 \<Rightarrow> bytes \<Rightarrow> u32 \<times> bytes" where
  "x86ni_ctr_loop sk nr ivx cc buf =
     (if buf = [] then (cc, [])
      else
        let x0 = x86ni_ctr_lane sk nr (mm_insert_epi32 ivx (br_bswap32 (cc + 0)) 3);
            x1 = x86ni_ctr_lane sk nr (mm_insert_epi32 ivx (br_bswap32 (cc + 1)) 3);
            x2 = x86ni_ctr_lane sk nr (mm_insert_epi32 ivx (br_bswap32 (cc + 2)) 3);
            x3 = x86ni_ctr_lane sk nr (mm_insert_epi32 ivx (br_bswap32 (cc + 3)) 3)
        in if 64 \<le> length buf then
             let x0 = mm_xor_si128 x0 (mm_loadu_si128 buf);
                 x1 = mm_xor_si128 x1 (mm_loadu_si128 (drop 16 buf));
                 x2 = mm_xor_si128 x2 (mm_loadu_si128 (drop 32 buf));
                 x3 = mm_xor_si128 x3 (mm_loadu_si128 (drop 48 buf));
                 (cc', rest) = x86ni_ctr_loop sk nr ivx (cc + 4) (drop 64 buf)
             in (cc', mm_storeu_si128 x0 @ mm_storeu_si128 x1 @ mm_storeu_si128 x2
                   @ mm_storeu_si128 x3 @ rest)
           else
             let tmp = mm_storeu_si128 x0 @ mm_storeu_si128 x1 @ mm_storeu_si128 x2
                   @ mm_storeu_si128 x3
             in (cc + drop_bit 4 (of_nat (length buf)), xor_bytes buf tmp))"
  by pat_completeness auto
termination by (relation "measure (\<lambda>(_, _, _, _, buf). length buf)") auto

text \<open>
  \<open>data\<close> is encrypted in place: the model returns the counter and the new contents. The last four
  bytes of \<open>ivbuf\<close> are uninitialised and overwritten by the counter in every lane.
\<close>

definition br_aes_x86ni_ctr_run ::
  "br_aes_x86ni_ctr_keys \<Rightarrow> bytes \<Rightarrow> u32 \<Rightarrow> bytes \<Rightarrow> u32 \<times> bytes" where
  "br_aes_x86ni_ctr_run ctx iv cc data =
     (let ivbuf = memcpy_at 0 (take 12 iv) (replicate 16 0);
          nr = num_rounds ctx;
          sk = map (\<lambda>u. mm_loadu_si128 (drop (16 * u) (skni ctx))) [0..<Suc nr];
          ivx = mm_loadu_si128 ivbuf
      in x86ni_ctr_loop sk nr ivx cc data)"

section \<open>The key schedule is the standard's\<close>

definition subkey :: "(nat \<Rightarrow> u32) \<Rightarrow> nat \<Rightarrow> u128" where
  "subkey w r = mk_dwords (w (4 * r)) (w (4 * r + 1)) (w (4 * r + 2)) (w (4 * r + 3))"

definition loaded :: "(nat \<Rightarrow> u32) \<Rightarrow> u128 list \<Rightarrow> nat \<Rightarrow> bool" where
  "loaded w sk n \<longleftrightarrow> length sk = 15 \<and> (\<forall>r<n. sk ! r = subkey w r)"

lemma loaded_update: "loaded w sk n \<Longrightarrow> n < 15 \<Longrightarrow> x = subkey w n \<Longrightarrow> loaded w (sk[n := x]) (Suc n)"
  by (auto simp: loaded_def nth_list_update less_Suc_eq)

lemma loaded_upd: "loaded w sk n \<Longrightarrow> n < 15 \<Longrightarrow> m = Suc n \<Longrightarrow> loaded w (sk[n := subkey w n]) m"
  by (simp add: loaded_update)

lemma dword_3: "dword (Suc (Suc (Suc 0))) x = dword 3 x"
  by (simp add: numeral_3_eq_3)

lemma RotWord_bytes: "RotWord (le_word [a, b, c, d]) = le_word [b, c, d, a]"
proof (rule bit_word_eqI)
  fix n assume "n < LENGTH(32)"
  then consider "n < 8" | "8 \<le> n" "n < 16" | "16 \<le> n" "n < 24" | "24 \<le> n" "n < 32" by force
  then show "bit (RotWord (le_word [a, b, c, d])) n = bit (le_word [b, c, d, a] :: u32) n"
    by cases (auto simp: RotWord_def bit_word_rotr_iff bit_simps le_mod_geq bit_small)
qed

lemma Rot_Sub_commute: "SubWord (RotWord x) = RotWord (SubWord x)"
proof -
  obtain a b c d where "le_bytes 4 x = [a, b, c, d]"
    using length_4_conv [of "le_bytes 4 x"] by auto
  then have "x = le_word [a, b, c, d]"
    using le_word_le_bytes [of 4 x] by simp
  then show ?thesis
    by (simp only: RotWord_bytes SubWord_def) (simp add: le_bytes_le_word RotWord_bytes del: le_word.simps)
qed

lemma KeyExpansion_step:
  assumes "0 < Nk" and "j < Nk"
  shows "KeyExpansion Nk key (Nk * Suc r + j) = KeyExpansion Nk key (Nk * r + j) XOR
    (if j = 0 then SubWord (RotWord (KeyExpansion Nk key (Nk * r + (Nk - 1)))) XOR ucast (Rcon (Suc r))
     else if 6 < Nk \<and> j = 4 then SubWord (KeyExpansion Nk key (Nk * Suc r + (j - 1)))
     else KeyExpansion Nk key (Nk * Suc r + (j - 1)))"
proof -
  have "(Nk * Suc r + j) mod Nk = j" using assms(2) by (simp only: mod_mult_self4) simp
  moreover have "(Nk * Suc r + j) div Nk = Suc r" using assms by (simp only: div_mult_self4) simp
  moreover obtain q where q: "Nk * r = q" "Nk * Suc r = Nk + q" by simp
  moreover have "Nk + q + j - Nk = q + j" "Nk + q + 0 - 1 = q + (Nk - 1)"
    "0 < j \<Longrightarrow> Nk + q + j - 1 = Nk + q + (j - 1)" "\<not> (Nk + q + j < Nk \<or> Nk = 0)"
    using assms(1) by arith+
  ultimately show ?thesis
    by (subst KeyExpansion.simps) (cases "j = 0", simp_all only: Let_def if_False if_True simp_thms)
qed

lemma shuffles [simp]:
  "mm_shuffle_epi32 x 0xFF = mk_dwords (dword 3 x) (dword 3 x) (dword 3 x) (dword 3 x)"
  "mm_shuffle_epi32 x 0xAA = mk_dwords (dword 2 x) (dword 2 x) (dword 2 x) (dword 2 x)"
  "mm_shuffle_epi32 x 0x55 = mk_dwords (dword 1 x) (dword 1 x) (dword 1 x) (dword 1 x)"
  "mm_shuffle_epi32 x 0x4E = mk_dwords (dword 2 x) (dword 3 x) (dword 0 x) (dword 1 x)"
  by (simp_all add: mm_shuffle_epi32_def dword_3)

text \<open>The running XOR of the lanes of \<open>k\<close> with \<open>t\<close>, which all the expansion steps compute.\<close>

definition chain :: "u128 \<Rightarrow> u32 \<Rightarrow> u128" where
  "chain k t = (let a = dword 0 k XOR t; b = dword 1 k XOR a; c = dword 2 k XOR b
     in mk_dwords a b c (dword 3 k XOR c))"

lemma expand_step128_chain: "expand_step128 k t = chain k (dword 3 t)"
  by (rule m128_eqI) (simp_all add: expand_step128_def Let_def chain_def ac_simps)

lemma expand_step256_1_chain: "fst (expand_step256_1 t1 t2) = chain t1 (dword 3 t2)"
  by (rule m128_eqI) (simp_all add: expand_step256_1_def Let_def chain_def ac_simps)

lemma expand_step256_2_chain:
  "expand_step256_2 t1 t3 = chain t3 (dword 2 (mm_aeskeygenassist_si128 t1 0))"
  by (rule m128_eqI) (simp_all add: expand_step256_2_def Let_def chain_def ac_simps)

lemma expand_step192_chain:
  assumes "expand_step192 t1 t2 t3 = (u1, u2, u3)"
  shows "u1 = chain t1 (dword 1 t2)" "dword 0 u3 = dword 0 t3 XOR dword 3 u1"
    "dword (Suc 0) u3 = dword 1 t3 XOR dword 0 u3"
proof -
  show "u1 = chain t1 (dword 1 t2)"
    using assms by (intro m128_eqI) (auto simp: expand_step192_def Let_def chain_def ac_simps)
  show "dword 0 u3 = dword 0 t3 XOR dword 3 u1" "dword (Suc 0) u3 = dword 1 t3 XOR dword 0 u3"
    using assms by (auto simp: expand_step192_def Let_def ac_simps)
qed

text \<open>Four consecutive words of the expansion are the chain of the four words \<open>Nk\<close> before.\<close>

lemma chain_subkey:
  fixes w :: "nat \<Rightarrow> u32"
  assumes "\<And>j. 0 < j \<Longrightarrow> j < 4 \<Longrightarrow> w (b + j) = w (a + j) XOR w (b + (j - 1))" and "w b = w a XOR t"
  shows "chain (mk_dwords (w a) (w (a + 1)) (w (a + 2)) (w (a + 3))) t
    = mk_dwords (w b) (w (b + 1)) (w (b + 2)) (w (b + 3))"
  using assms(1) [of 1] assms(1) [of 2] assms(1) [of 3] assms(2)
  by (simp add: chain_def Let_def)

lemma chain_KeyExpansion:
  assumes "w = KeyExpansion Nk key" and "j = 0 \<or> j = 4" and "j + 3 < Nk"
    and t: "t = (if j = 0 then SubWord (RotWord (w (Nk * r + (Nk - 1)))) XOR ucast (Rcon (Suc r))
      else if 6 < Nk then SubWord (w (Nk * Suc r + 3)) else w (Nk * Suc r + 3))"
  shows "chain (mk_dwords (w (Nk * r + j)) (w (Nk * r + j + 1)) (w (Nk * r + j + 2)) (w (Nk * r + j + 3))) t
    = mk_dwords (w (Nk * Suc r + j)) (w (Nk * Suc r + j + 1)) (w (Nk * Suc r + j + 2)) (w (Nk * Suc r + j + 3))"
proof (rule chain_subkey)
  fix k :: nat assume "0 < k" "k < 4"
  then have "j + k < Nk" "j + k \<noteq> 0" "j + k \<noteq> 4" "j + k - 1 = j + (k - 1)" using assms(2,3) by auto
  with KeyExpansion_step [of Nk "j + k" key r]
  show "w (Nk * Suc r + j + k) = w (Nk * r + j + k) XOR w (Nk * Suc r + j + (k - 1))"
    by (simp only: assms(1) add.assoc) simp
next
  show "w (Nk * Suc r + j) = w (Nk * r + j) XOR t"
    using KeyExpansion_step [of Nk j key r] assms(2,3) unfolding t by (auto simp: assms(1))
qed

lemma dword_assist:
  "dword 3 (mm_aeskeygenassist_si128 x rc) = SubWord (RotWord (dword 3 x)) XOR ucast rc"
  "dword 2 (mm_aeskeygenassist_si128 x rc) = SubWord (dword 3 x)"
  "dword 1 (mm_aeskeygenassist_si128 x rc) = SubWord (RotWord (dword 1 x)) XOR ucast rc"
  by (simp_all add: mm_aeskeygenassist_si128_def Rot_Sub_commute)

lemma KEXP128_step:
  assumes w: "w = KeyExpansion 4 key" and "i = Suc r" and "rc = Rcon i"
  shows "KEXP128 i rc (sk, subkey w r) = (sk[i := subkey w i], subkey w i)"
proof -
  have "chain (subkey w r) (SubWord (RotWord (w (4 * r + 3))) XOR ucast (Rcon (Suc r))) = subkey w (Suc r)"
    using chain_KeyExpansion [OF w, of 0 _ r] by (simp only: subkey_def) simp
  then show ?thesis
    using assms(2,3) by (simp add: KEXP128_def expand_step128_chain dword_assist Let_def)
      (simp add: subkey_def)
qed

text \<open>Six words per step of the 192-bit schedule: \<open>t1\<close> holds four and the low half of \<open>t3\<close> two.\<close>

definition regs192 :: "(nat \<Rightarrow> u32) \<Rightarrow> nat \<Rightarrow> u128 \<Rightarrow> u128 \<Rightarrow> bool" where
  "regs192 w r t1 t3 \<longleftrightarrow>
     t1 = mk_dwords (w (6 * r)) (w (6 * r + 1)) (w (6 * r + 2)) (w (6 * r + 3))
     \<and> dword 0 t3 = w (6 * r + 4) \<and> dword (Suc 0) t3 = w (6 * r + 5)"

lemma expand_step192_regs:
  assumes w: "w = KeyExpansion 6 key" and "regs192 w r t1 t3"
    and "expand_step192 t1 (mm_aeskeygenassist_si128 t3 (Rcon (Suc r))) t3 = (u1, u2, u3)"
  shows "regs192 w (Suc r) u1 u3"
proof -
  have t3: "dword 1 t3 = w (6 * r + 5)" "dword 0 t3 = w (6 * r + 4)"
    and t1: "t1 = mk_dwords (w (6 * r)) (w (6 * r + 1)) (w (6 * r + 2)) (w (6 * r + 3))"
    using assms(2) by (simp_all add: regs192_def)
  note u = expand_step192_chain [OF assms(3)]
  have u1: "u1 = mk_dwords (w (6 * Suc r)) (w (6 * Suc r + 1)) (w (6 * Suc r + 2)) (w (6 * Suc r + 3))"
    unfolding u(1) t1 dword_assist(3) t3
    using chain_KeyExpansion [OF w, of 0 _ r] by (simp only: add_0_right) simp
  have "w (6 * Suc r + 4) = w (6 * r + 4) XOR w (6 * Suc r + 3)"
    "w (6 * Suc r + 5) = w (6 * r + 5) XOR w (6 * Suc r + 4)"
    using KeyExpansion_step [of 6 4 key r] KeyExpansion_step [of 6 5 key r] unfolding w by simp_all
  with u(2,3) t3 u1 show ?thesis by (simp add: regs192_def)
qed

lemma KEXP192_step:
  assumes w: "w = KeyExpansion 6 key" and "loaded w sk (3 * m)" and "m < 4"
    and "regs192 w (2 * m) t1 t3" and "rc1 = Rcon (Suc (2 * m))" and "rc2 = Rcon r" and "r = 2 * m + 2"
    and "i = 3 * m" and "n = 3 * m + 3" and "KEXP192 i rc1 rc2 (sk, t1, t3) = (sk', u1, u3)"
  shows "loaded w sk' n \<and> regs192 w r u1 u3"
proof -
  obtain v1 v2 v3 where v: "expand_step192 t1 (mm_aeskeygenassist_si128 t3 (Rcon (Suc (2 * m)))) t3 = (v1, v2, v3)"
    by (metis surj_pair)
  obtain x1 x2 x3 where x: "expand_step192 v1 (mm_aeskeygenassist_si128 v3 (Rcon (Suc (Suc (2 * m))))) v3 = (x1, x2, x3)"
    by (metis surj_pair)
  note rv = expand_step192_regs [OF w assms(4) v]
  note rx = expand_step192_regs [OF w rv x]
  have len: "length sk = 15" using assms(2) by (simp add: loaded_def)
  have out: "sk' = ((sk[3 * m := t1])[Suc (3 * m) := mm_shuffle_pd t3 v1 0])[Suc (Suc (3 * m)) := mm_shuffle_pd v1 v3 1]"
    "u1 = x1" "u3 = x3"
    using assms(5-8,10) v x len \<open>m < 4\<close> by (auto simp: KEXP192_def Let_def)
  have s0: "t1 = subkey w (3 * m)"
    using assms(4) by (simp add: regs192_def subkey_def)
  have s1: "mm_shuffle_pd t3 v1 0 = subkey w (Suc (3 * m))"
    using assms(4) rv by (intro m128_eqI) (simp_all add: regs192_def subkey_def dword_shuffle_pd add.commute)
  have s2: "mm_shuffle_pd v1 v3 1 = subkey w (Suc (Suc (3 * m)))"
    using rv by (intro m128_eqI) (simp_all add: regs192_def subkey_def dword_shuffle_pd dword_3)
  have "loaded w sk' (Suc (Suc (Suc (3 * m))))"
    unfolding out using \<open>m < 4\<close> by (intro loaded_update assms(2) s0 s1 s2) simp_all
  then have "loaded w sk' (3 * m + 3)" by (simp only: numeral_3_eq_3 add_Suc_right add_0_right)
  moreover have "regs192 w (2 * m + 2) u1 u3" using rx out by simp
  ultimately show ?thesis using assms(7,9) by simp
qed

lemma KEXP256_step:
  assumes w: "w = KeyExpansion 8 key" and rc: "rc = Rcon (Suc m)"
    and i: "h = 2 * m" "i = Suc (2 * m)" "j = 2 * Suc m" "k = Suc (2 * Suc m)"
  shows "KEXP256 i rc (sk, subkey w h, subkey w i)
    = (sk[i := subkey w i, j := subkey w j], subkey w j, subkey w k)"
proof -
  have 1: "chain (subkey w (2 * m)) (SubWord (RotWord (w (8 * m + 7))) XOR ucast (Rcon (Suc m)))
      = subkey w (2 * Suc m)"
    using chain_KeyExpansion [OF w, of 0 _ m] by (simp only: subkey_def) simp
  have 2: "chain (subkey w (Suc (2 * m))) (SubWord (w (8 * Suc m + 3))) = subkey w (Suc (2 * Suc m))"
    using chain_KeyExpansion [OF w, of 4 _ m] by (simp only: subkey_def) (simp add: add.commute)
  have "dword 3 (subkey w (Suc (2 * m))) = w (8 * m + 7)" "dword 3 (subkey w (2 * Suc m)) = w (8 * Suc m + 3)"
    by (simp_all add: subkey_def add.commute)
  then show ?thesis
    unfolding KEXP256_def Let_def prod.case split_beta expand_step256_1_chain expand_step256_2_chain
      dword_assist i rc
    using 1 2 by simp
qed

lemma Rcon_values:
  "Rcon (Suc 0) = 0x01" "Rcon 2 = 0x02" "Rcon 3 = 0x04" "Rcon 4 = 0x08" "Rcon 5 = 0x10"
  "Rcon 6 = 0x20" "Rcon 7 = 0x40" "Rcon 8 = 0x80" "Rcon 9 = 0x1B" "Rcon 10 = 0x36"
  "xtime 1 = 0x02"
  by (simp_all add: eval_nat_numeral) (simp_all add: xtime_def bit_simps)

lemma KeyExpansion_key: "i < Nk \<Longrightarrow> KeyExpansion Nk key i = le_word (take 4 (drop (4 * i) key))"
  by (simp add: KeyExpansion.simps)

lemma loaded_first:
  assumes "length key = 4 * Nk" and "4 \<le> Nk"
  shows "mm_loadu_si128 key = subkey (KeyExpansion Nk key) 0"
  by (rule m128_eqI) (use assms dword_loadu [of "take 16 key"] in
    \<open>simp_all add: subkey_def KeyExpansion_key mm_loadu_si128_def take_drop\<close>)

lemma x86ni_keysched_128:
  assumes "length sk = 15" and "length key = 16"
  shows "loaded (KeyExpansion 4 key) (fst (x86ni_keysched sk key)) 11"
proof -
  let ?w = "KeyExpansion 4 key"
  have "mm_loadu_si128 key = subkey ?w 0" using assms(2) by (intro loaded_first) simp_all
  moreover have "loaded ?w sk 0" using assms(1) by (simp add: loaded_def)
  ultimately show ?thesis
    by (simp add: x86ni_keysched_def assms(2) KEXP128_step [OF refl] Rcon_values)
      (intro loaded_upd; simp)
qed

lemma x86ni_keysched_192:
  assumes "length sk = 15" and key: "length key = 24"
  shows "loaded (KeyExpansion 6 key) (fst (x86ni_keysched sk key)) 13"
proof -
  let ?w = "KeyExpansion 6 key"
  let ?t1 = "mm_loadu_si128 key" and ?t3 = "mm_shuffle_epi32 (mm_loadu_si128 (drop 8 key)) 0x4E"
  have r0: "regs192 ?w 0 ?t1 ?t3"
  proof -
    have d: "dword i (mm_loadu_si128 (drop 8 key)) = le_word (take 4 (drop (4 * i) (take 16 (drop 8 key))))"
      if "i < 4" for i
      using that key dword_loadu [of "take 16 (drop 8 key)" i] by (simp add: mm_loadu_si128_def)
    have "?t1 = subkey ?w 0" using key by (intro loaded_first) simp_all
    then show ?thesis using key
      by (simp add: regs192_def subkey_def d KeyExpansion_key drop_take)
  qed
  have l0: "loaded ?w sk 0" using assms(1) by (simp add: loaded_def)
  obtain sk1 a1 a3 where k1: "KEXP192 0 0x01 0x02 (sk, ?t1, ?t3) = (sk1, a1, a3)" by (metis surj_pair)
  obtain sk2 b1 b3 where k2: "KEXP192 3 0x04 0x08 (sk1, a1, a3) = (sk2, b1, b3)" by (metis surj_pair)
  obtain sk3 c1 c3 where k3: "KEXP192 6 0x10 0x20 (sk2, b1, b3) = (sk3, c1, c3)" by (metis surj_pair)
  obtain sk4 d1 d3 where k4: "KEXP192 9 0x40 0x80 (sk3, c1, c3) = (sk4, d1, d3)" by (metis surj_pair)
  have 1: "loaded ?w sk1 3 \<and> regs192 ?w 2 a1 a3"
    by (rule KEXP192_step [OF refl _ _ _ _ _ _ _ _ k1, where m = 0]) (use l0 r0 in \<open>simp_all add: Rcon_values\<close>)
  have 2: "loaded ?w sk2 6 \<and> regs192 ?w 4 b1 b3"
    by (rule KEXP192_step [OF refl _ _ _ _ _ _ _ _ k2, where m = 1]) (use 1 in \<open>simp_all add: Rcon_values\<close>)
  have 3: "loaded ?w sk3 9 \<and> regs192 ?w 6 c1 c3"
    by (rule KEXP192_step [OF refl _ _ _ _ _ _ _ _ k3, where m = 2]) (use 2 in \<open>simp_all add: Rcon_values\<close>)
  have 4: "loaded ?w sk4 12 \<and> regs192 ?w 8 d1 d3"
    by (rule KEXP192_step [OF refl _ _ _ _ _ _ _ _ k4, where m = 3]) (use 3 in \<open>simp_all add: Rcon_values\<close>)
  have "d1 = subkey ?w 12" using 4 by (simp add: regs192_def subkey_def)
  then have "loaded ?w (sk4[12 := d1]) (Suc 12)" using 4 by (intro loaded_update) simp_all
  moreover have "fst (x86ni_keysched sk key) = sk4[12 := d1]"
    using k1 k2 k3 k4 by (simp add: x86ni_keysched_def key)
  ultimately show ?thesis by simp
qed

lemma x86ni_keysched_256:
  assumes "length sk = 15" and "length key = 32"
  shows "loaded (KeyExpansion 8 key) (fst (x86ni_keysched sk key)) 15"
proof -
  let ?w = "KeyExpansion 8 key"
  have 0: "mm_loadu_si128 key = subkey ?w 0" using assms(2) loaded_first [of key 8] by simp
  have "dword i (mm_loadu_si128 (drop 16 key)) = le_word (take 4 (drop (4 * i) (take 16 (drop 16 key))))"
    if "i < 4" for i
    using that assms(2) dword_loadu [of "take 16 (drop 16 key)" i] by (simp add: mm_loadu_si128_def)
  then have 1: "mm_loadu_si128 (drop 16 key) = subkey ?w 1"
    using assms(2) by (intro m128_eqI) (simp_all add: subkey_def KeyExpansion_key drop_take)
  have s: "KEXP256 1 0x01 (sk, subkey ?w 0, subkey ?w 1)
      = (sk[1 := subkey ?w 1, 2 := subkey ?w 2], subkey ?w 2, subkey ?w 3)"
    "KEXP256 3 0x02 (sk, subkey ?w 2, subkey ?w 3)
      = (sk[3 := subkey ?w 3, 4 := subkey ?w 4], subkey ?w 4, subkey ?w 5)"
    "KEXP256 5 0x04 (sk, subkey ?w 4, subkey ?w 5)
      = (sk[5 := subkey ?w 5, 6 := subkey ?w 6], subkey ?w 6, subkey ?w 7)"
    "KEXP256 7 0x08 (sk, subkey ?w 6, subkey ?w 7)
      = (sk[7 := subkey ?w 7, 8 := subkey ?w 8], subkey ?w 8, subkey ?w 9)"
    "KEXP256 9 0x10 (sk, subkey ?w 8, subkey ?w 9)
      = (sk[9 := subkey ?w 9, 10 := subkey ?w 10], subkey ?w 10, subkey ?w 11)"
    "KEXP256 11 0x20 (sk, subkey ?w 10, subkey ?w 11)
      = (sk[11 := subkey ?w 11, 12 := subkey ?w 12], subkey ?w 12, subkey ?w 13)" for sk
    using KEXP256_step [OF refl, of "0x01" 0] KEXP256_step [OF refl, of "0x02" 1]
      KEXP256_step [OF refl, of "0x04" 2] KEXP256_step [OF refl, of "0x08" 3]
      KEXP256_step [OF refl, of "0x10" 4] KEXP256_step [OF refl, of "0x20" 5]
    by (simp_all add: Rcon_values)
  have last: "fst (expand_step256_1 (subkey ?w 12) (mm_aeskeygenassist_si128 (subkey ?w 13) 0x40)) = subkey ?w 14"
    using KEXP256_step [OF refl, where rc = "0x40" and m = 6 and h = 12 and i = 13 and j = 14 and k = 15
        and key = key and sk = "replicate 15 0"]
    by (simp add: Rcon_values KEXP256_def Let_def split_beta)
  have "fst (x86ni_keysched sk key) = sk[0 := subkey ?w 0, 1 := subkey ?w 1, 2 := subkey ?w 2,
      3 := subkey ?w 3, 4 := subkey ?w 4, 5 := subkey ?w 5, 6 := subkey ?w 6, 7 := subkey ?w 7,
      8 := subkey ?w 8, 9 := subkey ?w 9, 10 := subkey ?w 10, 11 := subkey ?w 11, 12 := subkey ?w 12,
      13 := subkey ?w 13, 14 := subkey ?w 14]"
    unfolding x86ni_keysched_def assms(2) Let_def 0 1 s(1) prod.case split_beta by (simp add: s last)
  moreover have "loaded ?w sk 0" using assms(1) by (simp add: loaded_def)
  ultimately show ?thesis by (simp only:) (intro loaded_upd; simp)
qed

lemma x86ni_keysched_loaded:
  assumes "length sk = 15" and "length key = 16 \<or> length key = 24 \<or> length key = 32"
  shows "loaded (KeyExpansion (length key div 4) key) (fst (x86ni_keysched sk key)) (Suc (length key div 4 + 6))
    \<and> snd (x86ni_keysched sk key) = length key div 4 + 6"
proof -
  have "snd (x86ni_keysched sk key) = length key div 4 + 6"
    using assms(2) by (auto simp: x86ni_keysched_def Let_def split_beta)
  then show ?thesis
    using assms x86ni_keysched_128 [of sk key] x86ni_keysched_192 [of sk key] x86ni_keysched_256 [of sk key]
    by auto
qed

section \<open>The round instructions are the standard's rounds\<close>

lemma le_bytes_xor: "le_bytes n (x XOR y) = xor_bytes (le_bytes n x) (le_bytes n y)"
  by (rule nth_equalityI) (auto intro!: bit_word_eqI simp: bit_simps)

lemma upt_4: "[0..<4] = [0, 1, 2, 3::nat]"
  by (simp add: upt_rec)

lemma Sub_Shift_commute: "length s = 16 \<Longrightarrow> SubBytes (ShiftRows s) = ShiftRows (SubBytes s)"
  by (auto simp: SubBytes_def ShiftRows_def)

lemma lengths_aes [simp]:
  "length (SubBytes s) = length s" "length (ShiftRows s) = 16" "length (MixColumns s) = 16"
  "length (InvMixColumns s) = 16" "length (round_key w r) = 16"
  "length (AddRoundKey w r s) = min (length s) 16"
  by (simp_all add: SubBytes_def ShiftRows_def MixColumns_def InvMixColumns_def mix_with_def
      round_key_def AddRoundKey_def upt_4)

lemma le_bytes_aesenc:
  "le_bytes 16 (mm_aesenc_si128 x k)
    = xor_bytes (MixColumns (ShiftRows (SubBytes (le_bytes 16 x)))) (le_bytes 16 k)"
  "le_bytes 16 (mm_aesenclast_si128 x k) = xor_bytes (ShiftRows (SubBytes (le_bytes 16 x))) (le_bytes 16 k)"
  by (simp_all add: mm_aesenc_si128_def mm_aesenclast_si128_def le_bytes_xor le_bytes_le_word
      Sub_Shift_commute)

lemma le_bytes_mk_dwords:
  "le_bytes 16 (mk_dwords a b c d) = le_bytes 4 a @ le_bytes 4 b @ le_bytes 4 c @ le_bytes 4 d"
proof (rule nth_equalityI)
  fix i assume "i < length (le_bytes 16 (mk_dwords a b c d))"
  then consider "i < 4" | "4 \<le> i" "i < 8" | "8 \<le> i" "i < 12" | "12 \<le> i" "i < 16" by force
  then show "le_bytes 16 (mk_dwords a b c d) ! i
      = (le_bytes 4 a @ le_bytes 4 b @ le_bytes 4 c @ le_bytes 4 d) ! i"
    by cases (auto intro!: bit_word_eqI simp: nth_append bit_simps mk_dwords_def bit_small diff_mult_distrib2)
qed simp

lemma le_bytes_subkey: "le_bytes 16 (subkey w r) = round_key w r"
  by (simp add: subkey_def le_bytes_mk_dwords round_key_def upt_4)

lemma upt_rounds:
  "[1..<10] = [1, 2, 3, 4, 5, 6, 7, 8, 9::nat]" "[1..<12] = [1, 2, 3, 4, 5, 6, 7, 8, 9] @ [10, 11::nat]"
  "[1..<14] = [1, 2, 3, 4, 5, 6, 7, 8, 9] @ [10, 11, 12, 13::nat]"
  by (simp_all add: upt_rec)

lemma x86ni_ctr_lane_Cipher:
  assumes sk: "\<forall>u\<le>nr. sk ! u = subkey w u" and nr: "nr = 10 \<or> nr = 12 \<or> nr = 14"
  shows "le_bytes 16 (x86ni_ctr_lane sk nr x) = Cipher nr w (le_bytes 16 x)"
proof -
  define rnd where "rnd = (\<lambda>r s. AddRoundKey w r (MixColumns (ShiftRows (SubBytes s))))"
  have f: "le_bytes 16 (mm_aesenc_si128 y (sk ! u)) = rnd u (le_bytes 16 y)" if "u \<le> nr" for u y
    using that sk by (simp add: rnd_def le_bytes_aesenc AddRoundKey_def le_bytes_subkey)
  have l: "le_bytes 16 (mm_aesenclast_si128 y (sk ! nr)) = AddRoundKey w nr (ShiftRows (SubBytes (le_bytes 16 y)))" for y
    using sk by (simp add: le_bytes_aesenc AddRoundKey_def le_bytes_subkey)
  have x: "le_bytes 16 (mm_xor_si128 x (sk ! 0)) = AddRoundKey w 0 (le_bytes 16 x)"
    using sk by (simp add: mm_xor_si128_def le_bytes_xor AddRoundKey_def le_bytes_subkey)
  show ?thesis
    using nr
  proof (elim disjE)
    assume "nr = 10"
    then show ?thesis using f l x
      by (simp only: x86ni_ctr_lane_def Cipher_def Let_def upt_rounds flip: rnd_def) simp
  next
    assume "nr = 12"
    then show ?thesis using f l x
      by (simp only: x86ni_ctr_lane_def Cipher_def Let_def upt_rounds fold_append comp_apply flip: rnd_def) simp
  next
    assume "nr = 14"
    then show ?thesis using f l x
      by (simp only: x86ni_ctr_lane_def Cipher_def Let_def upt_rounds fold_append comp_apply flip: rnd_def) simp
  qed
qed

section \<open>Counter mode\<close>

text \<open>Counter mode with a 12-byte IV and a 32-bit block counter, one block at a time.\<close>

function ctr_ref :: "(bytes \<Rightarrow> bytes) \<Rightarrow> bytes \<Rightarrow> u32 \<Rightarrow> bytes \<Rightarrow> bytes" where
  "ctr_ref E iv cc data =
     (if data = [] then []
      else xor_bytes (take 16 data) (E (iv @ be_bytes 4 cc)) @ ctr_ref E iv (cc + 1) (drop 16 data))"
  by pat_completeness auto
termination by (relation "measure (\<lambda>(_, _, _, data). length data)") auto

declare ctr_ref.simps [simp del]

definition ctr_stream :: "(bytes \<Rightarrow> bytes) \<Rightarrow> bytes \<Rightarrow> u32 \<Rightarrow> nat \<Rightarrow> bytes" where
  "ctr_stream E iv cc n = concat (map (\<lambda>i. E (iv @ be_bytes 4 (cc + of_nat i))) [0..<n])"

lemma ctr_stream_Suc: "ctr_stream E iv cc (Suc n) = E (iv @ be_bytes 4 cc) @ ctr_stream E iv (cc + 1) n"
  by (simp add: ctr_stream_def map_upt_Suc add.assoc del: upt_Suc)

lemma xor_bytes_Nil [simp]: "xor_bytes [] ys = []" "xor_bytes xs [] = []"
  by (simp_all add: xor_bytes_def)

lemma xor_bytes_take: "length b = n \<Longrightarrow> xor_bytes xs (b @ c) = xor_bytes (take n xs) b @ xor_bytes (drop n xs) c"
  by (auto simp: xor_bytes_def zip_append2)

lemma ctr_ref_stream:
  assumes "\<And>b. length (E b) = 16" and "length data \<le> 16 * n"
  shows "ctr_ref E iv cc data = xor_bytes data (ctr_stream E iv cc n)"
  using assms(2)
proof (induction n arbitrary: cc data)
  case 0
  then show ?case by (simp add: ctr_ref.simps xor_bytes_def)
next
  case (Suc n)
  then show ?case
    by (cases "data = []")
      (simp_all add: ctr_ref.simps [of E iv cc] ctr_stream_Suc xor_bytes_take assms(1))
qed

lemma ctr_ref_append:
  assumes "\<And>b. length (E b) = 16" and "length a = 16 * n"
  shows "ctr_ref E iv cc (a @ b) = ctr_ref E iv cc a @ ctr_ref E iv (cc + of_nat n) b"
  using assms(2)
proof (induction n arbitrary: cc a)
  case 0
  then show ?case by (simp add: ctr_ref.simps [of E iv cc "[]"])
next
  case (Suc n)
  then have "a \<noteq> []" by auto
  with Suc show ?case
    by (simp add: ctr_ref.simps [of E iv cc "a @ b"] ctr_ref.simps [of E iv cc a] add.assoc)
qed

lemma storeu_xor_loadu:
  "16 \<le> length buf \<Longrightarrow> mm_storeu_si128 (mm_xor_si128 x (mm_loadu_si128 buf))
     = xor_bytes (take 16 buf) (le_bytes 16 x)"
  by (simp add: mm_storeu_si128_def mm_xor_si128_def mm_loadu_si128_def le_bytes_xor le_bytes_le_word)
    (simp add: xor_bytes_def list_eq_iff_nth_eq xor.commute)

lemma ctr_count_tail: "n < 64 \<Longrightarrow> drop_bit 4 (of_nat n :: u32) = of_nat (n div 16)"
  by (simp add: drop_bit_eq_div word_arith_nat_div unsigned_of_nat take_bit_eq_mod)

lemma ctr_count_64: "64 \<le> n \<Longrightarrow> cc + 4 + of_nat ((n - 64) div 16) = cc + (of_nat (n div 16) :: u32)"
proof -
  assume "64 \<le> n"
  then obtain k where n: "n = 64 + k" using le_Suc_ex by blast
  have "(64 + k) div 16 = 4 + k div 16" by simp
  then show ?thesis unfolding n by simp
qed

lemma x86ni_ctr_loop_ref:
  assumes lane: "\<And>c. le_bytes 16 (x86ni_ctr_lane sk nr (mm_insert_epi32 ivx (br_bswap32 c) 3))
      = E (iv @ be_bytes 4 c)" and E: "\<And>b. length (E b) = 16"
  shows "x86ni_ctr_loop sk nr ivx cc buf = (cc + of_nat (length buf div 16), ctr_ref E iv cc buf)"
proof (induction buf arbitrary: cc rule: length_induct)
  case (1 buf)
  have four: "ctr_stream E iv c 4 = E (iv @ be_bytes 4 (c + 0)) @ E (iv @ be_bytes 4 (c + 1))
      @ E (iv @ be_bytes 4 (c + 2)) @ E (iv @ be_bytes 4 (c + 3))" for c
    by (simp add: ctr_stream_def upt_4)
  consider "buf = []" | "buf \<noteq> []" "length buf < 64" | "64 \<le> length buf" by force
  then show ?case
  proof cases
    case 1
    then show ?thesis by (simp add: x86ni_ctr_loop.simps ctr_ref.simps)
  next
    case 2
    then have "ctr_ref E iv cc buf = xor_bytes buf (ctr_stream E iv cc 4)"
      using ctr_ref_stream [where E = E and data = buf and n = 4, OF E] by simp
    then show ?thesis using 2
      by (subst x86ni_ctr_loop.simps)
        (simp add: Let_def four mm_storeu_si128_def lane ctr_count_tail)
  next
    case 3
    have "ctr_ref E iv cc (take 64 buf @ drop 64 buf)
        = xor_bytes (take 64 buf) (ctr_stream E iv cc 4) @ ctr_ref E iv (cc + 4) (drop 64 buf)"
      using ctr_ref_append [where E = E and a = "take 64 buf" and n = 4 and b = "drop 64 buf", OF E] 3
        ctr_ref_stream [where E = E and data = "take 64 buf" and n = 4, OF E]
      by (simp del: append_take_drop_id)
    moreover have "x86ni_ctr_loop sk nr ivx (cc + 4) (drop 64 buf)
        = (cc + 4 + of_nat ((length buf - 64) div 16), ctr_ref E iv (cc + 4) (drop 64 buf))"
      using 1 3 by (metis diff_less length_drop length_greater_0_conv list.size(3) not_numeral_le_zero
          zero_less_numeral)
    ultimately show ?thesis using 3
      by (subst x86ni_ctr_loop.simps)
        (auto simp: Let_def ctr_count_64 storeu_xor_loadu lane four xor_bytes_take E drop_take)
  qed
qed

lemma length_Cipher [simp]: "length (Cipher Nr w b) = 16"
  by (simp add: Cipher_def Let_def)

lemma insert_counter:
  assumes "length iv = 12"
  shows "le_bytes 16 (mm_insert_epi32 (mm_loadu_si128 (memcpy_at 0 iv (replicate 16 0))) (br_bswap32 c) 3)
    = iv @ be_bytes 4 c"
proof -
  let ?b = "iv @ replicate 4 0 :: bytes"
  have b: "memcpy_at 0 iv (replicate 16 0) = ?b" using assms by (simp add: memcpy_at_def)
  have d: "le_bytes 4 (dword i (mm_loadu_si128 ?b)) = take 4 (drop (4 * i) ?b)" if "i < 4" for i
    using that assms by (simp add: dword_loadu le_bytes_le_word)
  have "le_bytes 4 (br_bswap32 c) = be_bytes 4 c"
    by (simp add: br_bswap32_def be_bytes_def le_bytes_le_word)
  moreover have "take 4 iv @ take 4 (drop 4 iv) @ take 4 (drop 8 iv) = iv"
    using assms by (simp add: list_eq_iff_nth_eq nth_append)
  ultimately show ?thesis
    using assms d [of 0] d [of 1] d [of 2] unfolding b mm_insert_epi32_def le_bytes_mk_dwords
    by (simp flip: append_assoc)
qed

lemma ctr_keys_loaded:
  assumes sk: "length sk0 = 15" and skni: "length (skni ctx) = 240"
    and key: "length key = 16 \<or> length key = 24 \<or> length key = 32"
    and ctx': "ctx' = br_aes_x86ni_ctr_init sk0 ctx key"
  shows "num_rounds ctx' = length key div 4 + 6
    \<and> (\<forall>u\<le>num_rounds ctx'. mm_loadu_si128 (drop (16 * u) (skni ctx'))
          = subkey (KeyExpansion (length key div 4) key) u)"
proof -
  obtain sk nr where ks: "x86ni_keysched sk0 key = (sk, nr)" by fastforce
  have nr: "nr = length key div 4 + 6" "nr \<le> 14"
    and ld: "loaded (KeyExpansion (length key div 4) key) sk (Suc nr)"
    using x86ni_keysched_loaded [OF sk key] ks key by auto
  have st: "mm_loadu_si128 (drop (16 * u) (concat (map mm_storeu_si128 xs) @ rest)) = xs ! u"
    if "u < length xs" for u xs rest
    using that
  proof (induction xs arbitrary: u)
    case (Cons x xs)
    then show ?case
      by (cases u) (simp_all add: mm_loadu_si128_def mm_storeu_si128_def le_word_le_bytes)
  qed simp
  obtain rest where sk': "skni ctx' = concat (map mm_storeu_si128 (take (nr + 1) sk)) @ rest"
    and nr': "num_rounds ctx' = nr"
    using ctx' ks by (simp add: br_aes_x86ni_ctr_init_def br_aes_x86ni_keysched_enc_def memcpy_at_def)
  have "mm_loadu_si128 (drop (16 * u) (skni ctx')) = subkey (KeyExpansion (length key div 4) key) u"
    if "u \<le> nr" for u
  proof -
    have "mm_loadu_si128 (drop (16 * u) (skni ctx')) = take (nr + 1) sk ! u"
      unfolding sk' using that ld nr(2) by (intro st) (simp add: loaded_def)
    then show ?thesis using that ld by (simp add: loaded_def)
  qed
  then show ?thesis using nr nr' by simp
qed

lemma ctr_run_ref:
  assumes "length sk0 = 15" and "length (skni ctx) = 240" and "length iv = 12"
    and key: "length key = 16 \<or> length key = 24 \<or> length key = 32"
  shows "br_aes_x86ni_ctr_run (br_aes_x86ni_ctr_init sk0 ctx key) iv cc data
    = (cc + of_nat (length data div 16), ctr_ref (aes_encrypt key) iv cc data)"
proof -
  define ctx' where "ctx' = br_aes_x86ni_ctr_init sk0 ctx key"
  let ?nr = "num_rounds ctx'" and ?w = "KeyExpansion (length key div 4) key"
  let ?sk = "map (\<lambda>u. mm_loadu_si128 (drop (16 * u) (skni ctx'))) [0..<Suc ?nr]"
  have nr: "?nr = length key div 4 + 6" and "\<forall>u\<le>?nr. mm_loadu_si128 (drop (16 * u) (skni ctx')) = subkey ?w u"
    using ctr_keys_loaded [OF assms(1,2) key ctx'_def] by auto
  then have sk: "\<forall>u\<le>?nr. ?sk ! u = subkey ?w u" by (auto simp del: upt_Suc)
  have E: "aes_encrypt key = Cipher ?nr ?w" by (simp add: aes_encrypt_def nr Let_def)
  have "x86ni_ctr_loop ?sk ?nr (mm_loadu_si128 (memcpy_at 0 iv (replicate 16 0))) cc data
      = (cc + of_nat (length data div 16), ctr_ref (aes_encrypt key) iv cc data)"
  proof (rule x86ni_ctr_loop_ref)
    have "?nr = 10 \<or> ?nr = 12 \<or> ?nr = 14" using key nr by auto
    then show "le_bytes 16 (x86ni_ctr_lane ?sk ?nr (mm_insert_epi32
        (mm_loadu_si128 (memcpy_at 0 iv (replicate 16 0))) (br_bswap32 c) 3))
        = aes_encrypt key (iv @ be_bytes 4 c)" for c
      using x86ni_ctr_lane_Cipher [OF sk] insert_counter [OF assms(3)] by (simp add: E del: upt_Suc)
  qed (simp add: E)
  then show ?thesis
    using assms(3) by (simp add: br_aes_x86ni_ctr_run_def Let_def del: upt_Suc flip: ctx'_def)
qed

section \<open>Both directions of the key schedule\<close>

lemma fold_blocks:
  assumes "length s = 240" and "take 16 s = blk 0" and "\<And>u. length (blk u) = 16" and "0 < k" and "k \<le> 15"
  shows "length (fold (\<lambda>u s. memcpy_at (16 * u) (blk u) s) [1..<k] s) = 240
    \<and> take (16 * k) (fold (\<lambda>u s. memcpy_at (16 * u) (blk u) s) [1..<k] s) = concat (map blk [0..<k])"
  using assms(4,5)
proof (induction k)
  case (Suc k)
  show ?case
  proof (cases "k = 0")
    case True
    then show ?thesis using assms by simp
  next
    case False
    let ?s = "fold (\<lambda>u s. memcpy_at (16 * u) (blk u) s) [1..<k] s"
    have IH: "length ?s = 240" "take (16 * k) ?s = concat (map blk [0..<k])" using Suc False by auto
    moreover have "take (16 * k + length (blk k)) (memcpy_at (16 * k) (blk k) ?s) = take (16 * k) ?s @ blk k"
      using Suc.prems IH(1) assms(3) by (intro take_memcpy_at) simp
    ultimately show ?thesis
      using Suc.prems False assms(3) by (simp add: add.commute)
  qed
qed simp

lemma mm_storeu_subkey: "mm_storeu_si128 (subkey w r) = round_key w r"
  by (simp add: mm_storeu_si128_def le_bytes_subkey)

lemma mm_storeu_aesimc: "mm_storeu_si128 (mm_aesimc_si128 (subkey w r)) = InvMixColumns (round_key w r)"
  by (simp add: mm_storeu_si128_def mm_aesimc_si128_def le_bytes_le_word le_bytes_subkey)

definition dec_round_key :: "nat \<Rightarrow> (nat \<Rightarrow> u32) \<Rightarrow> nat \<Rightarrow> bytes" where
  "dec_round_key Nr w u =
     (if u = 0 then round_key w Nr else if u < Nr then InvMixColumns (round_key w (Nr - u)) else round_key w 0)"

lemma length_dec_round_key [simp]: "length (dec_round_key Nr w u) = 16"
  by (simp add: dec_round_key_def)

lemma keysched_dec_blocks:
  assumes ld: "loaded w sk (Suc nr)" and "x86ni_keysched sk0 key = (sk, nr)" and "length skni0 = 240"
    and nr: "0 < nr" "nr \<le> 14"
  shows "take (16 * (nr + 1)) (fst (br_aes_x86ni_keysched_dec sk0 skni0 key))
    = concat (map (dec_round_key nr w) [0..<nr + 1])"
proof -
  let ?b = "dec_round_key nr w"
  have sk: "sk ! u = subkey w u" if "u \<le> nr" for u using ld that by (simp add: loaded_def)
  let ?s0 = "memcpy_at 0 (?b 0) skni0"
  have s0: "length ?s0 = 240" "take 16 ?s0 = ?b 0"
    using assms(3) by (simp_all add: memcpy_at_def dec_round_key_def)
  have "fold (\<lambda>u skni. memcpy_at (push_bit 4 u)
          (mm_storeu_si128 (mm_aesimc_si128 (sk ! (nr - u)))) skni) [1..<nr] ?s0
      = fold (\<lambda>u s. memcpy_at (16 * u) (?b u) s) [1..<nr] ?s0"
    by (intro fold_cong refl ext) (auto simp: sk mm_storeu_aesimc dec_round_key_def push_bit_eq_mult mult.commute)
  moreover have "memcpy_at (push_bit 4 nr) (mm_storeu_si128 (sk ! 0)) s = memcpy_at (16 * nr) (?b nr) s" for s
    using nr by (simp add: sk mm_storeu_subkey dec_round_key_def push_bit_eq_mult mult.commute)
  ultimately have "fst (br_aes_x86ni_keysched_dec sk0 skni0 key)
      = fold (\<lambda>u s. memcpy_at (16 * u) (?b u) s) [1..<Suc nr] ?s0"
    using nr assms(2)
    by (simp add: br_aes_x86ni_keysched_dec_def sk mm_storeu_subkey) (simp add: dec_round_key_def)
  then show ?thesis
    using fold_blocks [of ?s0 ?b "Suc nr"] s0 nr(2) by simp
qed

lemma keysched_enc_blocks:
  assumes ld: "loaded w sk (Suc nr)" and "x86ni_keysched sk0 key = (sk, nr)" and "length skni0 = 240"
    and nr: "nr \<le> 14"
  shows "take (16 * (nr + 1)) (fst (br_aes_x86ni_keysched_enc sk0 skni0 key))
    = concat (map (round_key w) [0..<nr + 1])"
proof -
  have "take (nr + 1) sk = map (subkey w) [0..<nr + 1]"
    using ld nr by (intro nth_equalityI) (auto simp: loaded_def simp del: upt_Suc)
  then have "concat (map mm_storeu_si128 (take (nr + 1) sk)) = concat (map (round_key w) [0..<nr + 1])"
    by (simp add: mm_storeu_subkey comp_def del: upt_Suc)
  moreover have "length (concat (map (round_key w) [0..<nr + 1])) = 16 * (nr + 1)"
    by (simp add: length_concat comp_def sum_list_triv del: upt_Suc)
  ultimately show ?thesis
    using assms(2) by (simp add: br_aes_x86ni_keysched_enc_def memcpy_at_def del: upt_Suc)
qed

section \<open>Properties\<close>

text \<open>For keys of 16, 24 and 32 bytes the AES-NI key schedule stores the round keys of the FIPS 197
  key expansion, the decryption schedule stores those of the equivalent inverse cipher, and the round
  count is 10, 12 or 14; neither depends on what the uninitialised stack array held.\<close>

theorem aes_keysched_correct:
  assumes "length sk0 = 15" and "length skni0 = 240"
    and "length key = 16 \<or> length key = 24 \<or> length key = 32"
    and "w = KeyExpansion (length key div 4) key" and "nr = length key div 4 + 6"
  shows "take (16 * (nr + 1)) (fst (br_aes_x86ni_keysched_enc sk0 skni0 key))
      = concat (map (round_key w) [0..<nr + 1])
    \<and> snd (br_aes_x86ni_keysched_enc sk0 skni0 key) = nr
    \<and> take (16 * (nr + 1)) (fst (br_aes_x86ni_keysched_dec sk0 skni0 key))
      = concat (map (dec_round_key nr w) [0..<nr + 1])
    \<and> snd (br_aes_x86ni_keysched_dec sk0 skni0 key) = nr"
proof -
  obtain sk where ks: "x86ni_keysched sk0 key = (sk, nr)" and ld: "loaded w sk (Suc nr)"
    using x86ni_keysched_loaded [OF assms(1,3)] assms(4,5) by (metis prod.collapse)
  have "snd (br_aes_x86ni_keysched_enc sk0 skni0 key) = nr" "snd (br_aes_x86ni_keysched_dec sk0 skni0 key) = nr"
    using ks by (simp_all add: br_aes_x86ni_keysched_enc_def br_aes_x86ni_keysched_dec_def)
  moreover have "0 < nr" "nr \<le> 14" using assms(3,5) by auto
  ultimately show ?thesis
    using keysched_enc_blocks [OF ld ks assms(2)] keysched_dec_blocks [OF ld ks assms(2)] by blast
qed

theorem aes_keysched_correct_witness:
  "length (replicate 15 (0::u128)) = 15 \<and> length (replicate 240 (0::u8)) = 240
    \<and> length (replicate 32 (1::u8)) = 32
    \<and> snd (br_aes_x86ni_keysched_enc (replicate 15 0) (replicate 240 0) (replicate 32 1)) = 14
    \<and> take 240 (fst (br_aes_x86ni_keysched_enc (replicate 15 0) (replicate 240 0) (replicate 32 1)))
      = concat (map (round_key (KeyExpansion 8 (replicate 32 1))) [0..<15])"
  using aes_keysched_correct [of "replicate 15 0" "replicate 240 0" "replicate 32 1"
      "KeyExpansion 8 (replicate 32 1)" 14]
  by (simp del: upt_Suc replicate.simps)

text \<open>Counter mode, processed four blocks at a time, equals AES counter mode one block at a time, for
  every data length, every starting counter (with 32-bit wrap-around) and the three key sizes; the
  returned counter is the starting one plus the number of whole blocks.\<close>

theorem aes_ctr_run_correct:
  assumes "length sk0 = 15" and "length (skni ctx) = 240" and "length iv = 12"
    and "length key = 16 \<or> length key = 24 \<or> length key = 32"
  shows "br_aes_x86ni_ctr_run (br_aes_x86ni_ctr_init sk0 ctx key) iv cc data
    = (cc + of_nat (length data div 16), ctr_ref (aes_encrypt key) iv cc data)"
  using assms by (rule ctr_run_ref)

theorem aes_ctr_run_correct_witness:
  "length (replicate 15 (0::u128)) = 15 \<and> length (replicate 12 (9::u8)) = 12
    \<and> br_aes_x86ni_ctr_run (br_aes_x86ni_ctr_init (replicate 15 0)
        \<lparr>skni = replicate 240 0, num_rounds = 0\<rparr> (replicate 32 1)) (replicate 12 9) 0xFFFFFFFF (replicate 33 5)
      = (1, ctr_ref (aes_encrypt (replicate 32 1)) (replicate 12 9) 0xFFFFFFFF (replicate 33 5))"
  using aes_ctr_run_correct [of "replicate 15 0" "\<lparr>skni = replicate 240 0, num_rounds = 0\<rparr>"
      "replicate 12 9" "replicate 32 1" "0xFFFFFFFF" "replicate 33 5"]
  by (simp del: replicate.simps)

end
