(* ===== verification/GHASH.thy ===== *)
theory GHASH imports M128 begin

text \<open>
  \<open>c_src/bearssl/hash/ghash_pclmul.c\<close>: GHASH with the carry-less multiplication instruction. The first
  section is the code: its macros act on the 64-bit lanes of \<open>__m128i\<close> registers, of which only the low
  one is meaningful for the split values. The second is the multiplication of NIST SP 800-38D and the
  GHASH it defines; the lemmas show that the folded, Karatsuba, four-blocks-at-a-time computation of
  the code is that GHASH.
\<close>

section \<open>Instructions used\<close>

definition mm_slli_epi64 :: "u128 \<Rightarrow> nat \<Rightarrow> u128" where
  "mm_slli_epi64 x n = mk_qwords (push_bit n (qword 0 x)) (push_bit n (qword 1 x))"

definition mm_srli_epi64 :: "u128 \<Rightarrow> nat \<Rightarrow> u128" where
  "mm_srli_epi64 x n = mk_qwords (drop_bit n (qword 0 x)) (drop_bit n (qword 1 x))"

definition mm_or_si128 :: "u128 \<Rightarrow> u128 \<Rightarrow> u128" where
  "mm_or_si128 x y = x OR y"

definition mm_unpacklo_epi64 :: "u128 \<Rightarrow> u128 \<Rightarrow> u128" where
  "mm_unpacklo_epi64 x y = mk_qwords (qword 0 x) (qword 0 y)"

definition mm_set_epi8 :: "u8 list \<Rightarrow> u128" where
  "mm_set_epi8 es = le_word (rev es)"

definition mm_shuffle_epi8 :: "u128 \<Rightarrow> u128 \<Rightarrow> u128" where
  "mm_shuffle_epi8 x m = le_word (map (\<lambda>b. if bit b 7 then 0 else le_bytes 16 x ! (unat b mod 16))
     (le_bytes 16 m))"

text \<open>Carry-less product of the low \<open>n\<close> bits of \<open>x\<close> with \<open>y\<close>.\<close>

fun clmul :: "nat \<Rightarrow> 'a::len word \<Rightarrow> 'c::len word \<Rightarrow> 'c word" where
  "clmul 0 x y = 0"
| "clmul (Suc n) x y = clmul n x y XOR (if bit x n then push_bit n y else 0)"

definition mm_clmulepi64_si128 :: "u128 \<Rightarrow> u128 \<Rightarrow> nat \<Rightarrow> u128" where
  "mm_clmulepi64_si128 x y imm = clmul 64 (qword (imm mod 2) x) (ucast (qword (imm div 16 mod 2) y))"

section \<open>The code\<close>

definition BYTESWAP :: "u128 \<Rightarrow> u128" where
  "BYTESWAP x = mm_shuffle_epi8 x (mm_set_epi8 [0, 1, 2, 3, 4, 5, 6, 7, 8, 9, 10, 11, 12, 13, 14, 15])"

definition pclmulqdq00 :: "u128 \<Rightarrow> u128 \<Rightarrow> u128" where
  "pclmulqdq00 x y = mm_clmulepi64_si128 x y 0x00"

definition pclmulqdq11 :: "u128 \<Rightarrow> u128 \<Rightarrow> u128" where
  "pclmulqdq11 x y = mm_clmulepi64_si128 x y 0x11"

definition BK :: "u128 \<Rightarrow> u128" where
  "BK kw = mm_xor_si128 kw (mm_shuffle_epi32 kw 0x0E)"

definition PBK :: "u128 \<Rightarrow> u128 \<Rightarrow> u128 \<times> u128" where
  "PBK k0 k1 = (mm_unpacklo_epi64 k1 k0, mm_xor_si128 k0 k1)"

type_synonym m128x4 = "u128 \<times> u128 \<times> u128 \<times> u128"

definition SL_256 :: "m128x4 \<Rightarrow> m128x4" where
  "SL_256 = (\<lambda>(x0, x1, x2, x3).
     (let x0 = mm_or_si128 (mm_slli_epi64 x0 1) (mm_srli_epi64 x1 63);
          x1 = mm_or_si128 (mm_slli_epi64 x1 1) (mm_srli_epi64 x2 63);
          x2 = mm_or_si128 (mm_slli_epi64 x2 1) (mm_srli_epi64 x3 63);
          x3 = mm_slli_epi64 x3 1
      in (x0, x1, x2, x3)))"

definition REDUCE_F128 :: "m128x4 \<Rightarrow> u128 \<times> u128" where
  "REDUCE_F128 = (\<lambda>(x0, x1, x2, x3).
     (let x1 = mm_xor_si128 x1 (mm_xor_si128 (mm_xor_si128 x3 (mm_srli_epi64 x3 1))
                 (mm_xor_si128 (mm_srli_epi64 x3 2) (mm_srli_epi64 x3 7)));
          x2 = mm_xor_si128 (mm_xor_si128 x2 (mm_slli_epi64 x3 63))
                 (mm_xor_si128 (mm_slli_epi64 x3 62) (mm_slli_epi64 x3 57));
          x0 = mm_xor_si128 x0 (mm_xor_si128 (mm_xor_si128 x2 (mm_srli_epi64 x2 1))
                 (mm_xor_si128 (mm_srli_epi64 x2 2) (mm_srli_epi64 x2 7)));
          x1 = mm_xor_si128 (mm_xor_si128 x1 (mm_slli_epi64 x2 63))
                 (mm_xor_si128 (mm_slli_epi64 x2 62) (mm_slli_epi64 x2 57))
      in (x0, x1)))"

definition SQUARE_F128 :: "u128 \<Rightarrow> u128 \<times> u128" where
  "SQUARE_F128 kw =
     (let z1 = pclmulqdq11 kw kw;
          z3 = pclmulqdq00 kw kw;
          z0 = mm_shuffle_epi32 z1 0x0E;
          z2 = mm_shuffle_epi32 z3 0x0E;
          (z0, z1) = REDUCE_F128 (SL_256 (z0, z1, z2, z3))
      in PBK z0 z1)"

text \<open>
  The statements common to the three products of the code, from the two half products \<open>t1\<close>, \<open>t3\<close> and
  the middle one \<open>t2\<close> to the reduced pair.
\<close>

definition ghash_finish :: "u128 \<Rightarrow> u128 \<Rightarrow> u128 \<Rightarrow> u128 \<times> u128" where
  "ghash_finish t1 t2 t3 =
     (let t2 = mm_xor_si128 t2 (mm_xor_si128 t1 t3);
          t0 = mm_shuffle_epi32 t1 0x0E;
          t1 = mm_xor_si128 t1 (mm_shuffle_epi32 t2 0x0E);
          t2 = mm_xor_si128 t2 (mm_shuffle_epi32 t3 0x0E)
      in REDUCE_F128 (SL_256 (t0, t1, t2, t3)))"

definition ghash_block4 :: "(u128 \<times> u128) list \<Rightarrow> bytes \<Rightarrow> u128 \<Rightarrow> u128" where
  "ghash_block4 hs buf1 yw =
     (let (h1w, h1x) = hs ! 0; (h2w, h2x) = hs ! 1; (h3w, h3x) = hs ! 2; (h4w, h4x) = hs ! 3;
          aw0 = BYTESWAP (mm_loadu_si128 buf1);
          aw1 = BYTESWAP (mm_loadu_si128 (drop 16 buf1));
          aw2 = BYTESWAP (mm_loadu_si128 (drop 32 buf1));
          aw3 = BYTESWAP (mm_loadu_si128 (drop 48 buf1));
          aw0 = mm_xor_si128 aw0 yw;
          ax1 = BK aw1;
          ax2 = BK aw2;
          ax3 = BK aw3;
          ax0 = BK aw0;
          t1 = mm_xor_si128 (mm_xor_si128 (pclmulqdq11 aw0 h4w) (pclmulqdq11 aw1 h3w))
                 (mm_xor_si128 (pclmulqdq11 aw2 h2w) (pclmulqdq11 aw3 h1w));
          t3 = mm_xor_si128 (mm_xor_si128 (pclmulqdq00 aw0 h4w) (pclmulqdq00 aw1 h3w))
                 (mm_xor_si128 (pclmulqdq00 aw2 h2w) (pclmulqdq00 aw3 h1w));
          t2 = mm_xor_si128 (mm_xor_si128 (pclmulqdq00 ax0 h4x) (pclmulqdq00 ax1 h3x))
                 (mm_xor_si128 (pclmulqdq00 ax2 h2x) (pclmulqdq00 ax3 h1x));
          (t0, t1) = ghash_finish t1 t2 t3
      in mm_unpacklo_epi64 t1 t0)"

definition ghash_block1 :: "u128 \<Rightarrow> u128 \<Rightarrow> bytes \<Rightarrow> u128 \<Rightarrow> u128" where
  "ghash_block1 h1w h1x buf2 yw =
     (let aw = BYTESWAP (mm_loadu_si128 buf2);
          aw = mm_xor_si128 aw yw;
          ax = BK aw;
          t1 = pclmulqdq11 aw h1w;
          t3 = pclmulqdq00 aw h1w;
          t2 = pclmulqdq00 ax h1x;
          (t0, t1) = ghash_finish t1 t2 t3
      in mm_unpacklo_epi64 t1 t0)"

primrec ghash_loop4 :: "(u128 \<times> u128) list \<Rightarrow> nat \<Rightarrow> bytes \<Rightarrow> u128 \<Rightarrow> u128" where
  "ghash_loop4 hs 0 buf1 yw = yw"
| "ghash_loop4 hs (Suc num4) buf1 yw = ghash_loop4 hs num4 (drop 64 buf1) (ghash_block4 hs buf1 yw)"

primrec ghash_loop1 :: "u128 \<Rightarrow> u128 \<Rightarrow> nat \<Rightarrow> bytes \<Rightarrow> u128 \<Rightarrow> u128" where
  "ghash_loop1 h1w h1x 0 buf2 yw = yw"
| "ghash_loop1 h1w h1x (Suc num1) buf2 yw =
     ghash_loop1 h1w h1x num1 (drop 16 buf2) (ghash_block1 h1w h1x buf2 yw)"

definition br_ghash_pclmul :: "bytes \<Rightarrow> bytes \<Rightarrow> bytes \<Rightarrow> bytes" where
  "br_ghash_pclmul y h data =
     (let len = length data;
          num4 = drop_bit 6 len;
          len = len AND 63;
          buf2 = drop (push_bit 6 num4) data;
          num1 = drop_bit 4 (len + 15);
          buf2 = (if len AND 15 \<noteq> 0
            then let tmp = memcpy_at 0 (take len buf2) (replicate 64 0)
                 in memcpy_at len (replicate (push_bit 4 num1 - len) 0) tmp
            else buf2);
          yw = BYTESWAP (mm_loadu_si128 y);
          h1w = BYTESWAP (mm_loadu_si128 h);
          h1x = BK h1w;
          yw = (if 0 < num4
            then let (h2w, h2x) = SQUARE_F128 h1w;
                     (t0, t1) = ghash_finish (pclmulqdq11 h1w h2w) (pclmulqdq00 h1x h2x)
                                  (pclmulqdq00 h1w h2w);
                     (h3w, h3x) = PBK t0 t1;
                     (h4w, h4x) = SQUARE_F128 h2w
                 in ghash_loop4 [(h1w, h1x), (h2w, h2x), (h3w, h3x), (h4w, h4x)] num4 data yw
            else yw);
          yw = ghash_loop1 h1w h1x num1 buf2 yw
      in mm_storeu_si128 (BYTESWAP yw))"

section \<open>SP 800-38D\<close>

text \<open>
  A field element is read as a 128-bit big-endian number, so that the coefficient of \<open>x^0\<close> is the
  most significant bit. \<open>gf_mulx\<close> multiplies by \<open>x\<close>; \<open>gf_mult\<close> is Algorithm 1 of the standard.
\<close>

definition gf_mulx :: "u128 \<Rightarrow> u128" where
  "gf_mulx V = drop_bit 1 V XOR (if bit V 0 then push_bit 120 0xE1 else 0)"

definition gf_mult :: "u128 \<Rightarrow> u128 \<Rightarrow> u128" where
  "gf_mult X Y = fst (fold (\<lambda>i (Z, V). (if bit X (127 - i) then Z XOR V else Z, gf_mulx V)) [0..<128] (0, Y))"

function ghash_ref :: "u128 \<Rightarrow> u128 \<Rightarrow> bytes \<Rightarrow> u128" where
  "ghash_ref h y data =
     (if data = [] then y
      else ghash_ref h (gf_mult (y XOR be_word (take 16 data @ replicate (16 - length data) 0)) h) (drop 16 data))"
  by pat_completeness auto
termination by (relation "measure (\<lambda>(_, _, data). length data)") auto

declare ghash_ref.simps [simp del]

section \<open>Linear maps\<close>

type_synonym u256 = "256 word"

definition xlin :: "('a::len word \<Rightarrow> 'b::len word) \<Rightarrow> bool" where
  "xlin f \<longleftrightarrow> (\<forall>x y. f (x XOR y) = f x XOR f y)"

lemma xlinD: "xlin f \<Longrightarrow> f (x XOR y) = f x XOR f y"
  by (simp add: xlin_def)

lemma xlin_zero: "xlin f \<Longrightarrow> f 0 = 0"
  using xlinD [of f 0 0] by simp

lemma xlin_if: "xlin f \<Longrightarrow> f (if b then x else 0) = (if b then f x else 0)"
  by (simp add: xlin_zero)

text \<open>A linear map is determined by the images of the single-bit words.\<close>

lemma xlin_ext:
  fixes f g :: "'a::len word \<Rightarrow> 'b::len word"
  assumes f: "xlin f" and g: "xlin g"
    and eq: "\<And>i. i < LENGTH('a) \<Longrightarrow> f (2 ^ i) = g (2 ^ i)"
  shows "f x = g x"
proof -
  have "n \<le> LENGTH('a) \<Longrightarrow> f (take_bit n x) = g (take_bit n x)" for n
  proof (induction n)
    case 0
    then show ?case using xlin_zero [OF f] xlin_zero [OF g] by simp
  next
    case (Suc n)
    have "take_bit (Suc n) x = take_bit n x XOR (if bit x n then 2 ^ n else 0)"
      by (rule bit_word_eqI) (auto simp: bit_simps less_Suc_eq)
    then show ?case
      using Suc f g eq [of n] by (simp add: xlinD xlin_if)
  qed
  from this [of "LENGTH('a)"] show ?thesis by (simp add: take_bit_word_eq_self)
qed

lemma xlin_funpow:
  fixes f :: "'a::len word \<Rightarrow> 'a word"
  shows "xlin f \<Longrightarrow> xlin (f ^^ n)"
  by (induction n) (simp_all add: xlin_def)

section \<open>Carry-less products\<close>

lemma clmul_xor_right: "clmul n x (y XOR z) = clmul n x y XOR clmul n x z"
  by (induction n) (simp_all add: push_bit_xor ac_simps)

lemma clmul_xor_left: "clmul n (x XOR x') y = clmul n x y XOR clmul n x' y"
  by (induction n) (auto simp: bit_simps ac_simps)

lemma clmul_zero [simp]: "clmul n 0 y = 0" "clmul n x 0 = 0"
  by (induction n) auto

lemma clmul_push: "clmul n x (push_bit k y) = push_bit k (clmul n x y)"
  by (induction n) (auto simp: push_bit_xor push_bit_push_bit ac_simps)

lemma clmul_single:
  "n \<le> LENGTH('a) \<Longrightarrow> clmul n (2 ^ i :: 'a::len word) y = (if i < n then push_bit i y else 0)"
  by (induction n) (auto simp: bit_simps less_Suc_eq)

lemma clmul_one: "clmul n x 1 = (ucast (take_bit n x) :: 'c::len word)" if "n \<le> LENGTH('a)" for x :: "'a::len word"
  using that
proof (induction n)
  case (Suc n)
  have "(ucast (take_bit (Suc n) x) :: 'c word)
      = ucast (take_bit n x) XOR (if bit x n then 2 ^ n else 0)"
    using Suc.prems by (intro bit_word_eqI) (auto simp: bit_simps less_Suc_eq)
  with Suc show ?case by simp
qed simp

lemma clmul_add: "clmul (n + m) x y = clmul n x y XOR push_bit n (clmul m (drop_bit n x) y)"
  by (induction m) (auto simp: push_bit_xor push_bit_push_bit bit_simps ac_simps)

lemma clmul_cong: "(\<And>i. i < n \<Longrightarrow> bit x i = bit x' i) \<Longrightarrow> clmul n x y = clmul n x' y"
  by (induction n) auto

lemma clmul_widen:
  "n \<le> 64 \<Longrightarrow> ucast (clmul n x (ucast (y :: u64) :: u128)) = clmul n x (ucast y :: u256)"
proof (induction n)
  case (Suc n)
  have "(ucast (push_bit n (ucast y :: u128)) :: u256) = push_bit n (ucast y)"
    using Suc.prems by (intro bit_word_eqI) (auto simp: bit_simps dest: bit_imp_le_length)
  moreover have "(ucast (a XOR b) :: u256) = ucast a XOR ucast b" for a b :: u128
    by (rule bit_word_eqI) (auto simp: bit_simps)
  ultimately show ?case using Suc by simp
qed simp

definition poly_mul :: "u128 \<Rightarrow> u128 \<Rightarrow> u256" where
  "poly_mul X Y = clmul 128 X (ucast Y)"

lemma ucast_xor_256: "(ucast (a XOR b) :: u256) = ucast a XOR ucast (b :: 'a::len word)"
  by (rule bit_word_eqI) (auto simp: bit_simps)

lemma xlin_poly_mul: "xlin (\<lambda>X. poly_mul X Y)" "xlin (poly_mul X)"
  by (simp_all add: xlin_def poly_mul_def clmul_xor_left clmul_xor_right ucast_xor_256)

lemma poly_mul_single: "i < 128 \<Longrightarrow> poly_mul (2 ^ i) Y = push_bit i (ucast Y)"
  by (simp add: poly_mul_def clmul_single)

lemma poly_mul_commute: "poly_mul X Y = poly_mul Y X"
proof (rule xlin_ext [OF xlin_poly_mul])
  fix i assume i: "i < LENGTH(128)"
  have "(ucast (2 ^ i :: u128) :: u256) = push_bit i 1"
    using i by (intro bit_word_eqI) (auto simp: bit_simps)
  then have "poly_mul Y (2 ^ i) = push_bit i (ucast Y)"
    unfolding poly_mul_def by (simp only: clmul_push) (simp add: clmul_one take_bit_word_eq_self)
  then show "poly_mul (2 ^ i) Y = poly_mul Y (2 ^ i)"
    using i by (simp add: poly_mul_single)
qed

section \<open>Reduction\<close>

text \<open>
  What the reduction does to a doubled 256-bit product, on whole words: the low half is folded into
  the high half.
\<close>

definition gf_fold :: "u128 \<Rightarrow> u128" where
  "gf_fold L = (let M = L XOR push_bit 127 L XOR push_bit 126 L XOR push_bit 121 L
     in M XOR drop_bit 1 M XOR drop_bit 2 M XOR drop_bit 7 M)"

definition gf_reduce :: "u256 \<Rightarrow> u128" where
  "gf_reduce S = ucast (drop_bit 128 S) XOR gf_fold (ucast S)"

lemma xlin_gf_fold: "xlin gf_fold"
  by (simp add: xlin_def gf_fold_def Let_def push_bit_xor drop_bit_xor ac_simps)

lemma xlin_gf_reduce: "xlin gf_reduce"
proof -
  have "(ucast (a XOR b) :: u128) = ucast a XOR ucast b" for a b :: u256
    by (rule bit_word_eqI) (auto simp: bit_simps)
  then show ?thesis
    by (simp add: xlin_def gf_reduce_def drop_bit_xor xlinD [OF xlin_gf_fold] ac_simps)
qed

lemma xlin_gf_mulx: "xlin gf_mulx"
  by (simp add: xlin_def gf_mulx_def drop_bit_xor bit_simps ac_simps)

lemma gf_fold_top: "gf_fold (2 ^ 127) = push_bit 120 0xE1"
  by (simp add: gf_fold_def Let_def)

lemma gf_fold_mulx: "\<not> bit L 0 \<Longrightarrow> gf_fold (drop_bit 1 L) = gf_mulx (gf_fold L)"
proof (rule bit_word_eqI)
  fix n assume L: "\<not> bit L 0" and "n < LENGTH(128)"
  then have cases: "n < 113 \<or> n = 113 \<or> n = 114 \<or> n = 115 \<or> n = 116 \<or> n = 117 \<or> n = 118 \<or> n = 119
      \<or> n = 120 \<or> n = 121 \<or> n = 122 \<or> n = 123 \<or> n = 124 \<or> n = 125 \<or> n = 126 \<or> n = 127"
    by (simp, presburger)
  define R :: u128 where "R = push_bit 120 0xE1"
  have R: "bit R 120" "\<not> bit R 121" "\<not> bit R 122" "\<not> bit R 123" "\<not> bit R 124" "bit R 125" "bit R 126"
    "bit R 127" by (simp_all add: R_def)
  have low: "\<not> bit R k" if "k < 120" for k
    using that unfolding R_def bit_push_bit_iff by simp
  have mulx: "gf_mulx V = drop_bit 1 V XOR (if bit V 0 then R else 0)" for V
    by (simp add: gf_mulx_def R_def)
  have norm: "bit L (Suc (Suc 0)) = bit L 2" "bit L (Suc (Suc (Suc k))) = bit L (3 + k)" for k
    by (simp_all add: numeral_2_eq_2 numeral_3_eq_3)
  from cases show "bit (gf_fold (drop_bit 1 L)) n = bit (gf_mulx (gf_fold L)) n"
    unfolding mulx gf_fold_def Let_def
    using L by (elim disjE) (simp_all add: bit_simps norm low R bit_small, auto)
qed

lemma gf_reduce_mulx:
  assumes "\<not> bit S 0"
  shows "gf_reduce (drop_bit 1 S) = gf_mulx (gf_reduce S)"
proof -
  define H where "H = (ucast (drop_bit 128 S) :: u128)"
  define L where "L = (ucast S :: u128)"
  have hi: "(ucast (drop_bit 128 (drop_bit 1 S)) :: u128) = drop_bit 1 H"
    by (rule bit_word_eqI) (auto simp: H_def bit_simps dest: bit_imp_le_length)
  have top: "bit (2 ^ 127 :: u128) n \<longleftrightarrow> n = 127" for n by (simp only: bit_exp_iff) auto
  have lo: "(ucast (drop_bit 1 S) :: u128) = drop_bit 1 L XOR (if bit H 0 then 2 ^ 127 else 0)"
  proof (rule bit_word_eqI)
    fix n assume "n < LENGTH(128)"
    then have "n < 127 \<or> n = 127" by auto
    then show "bit (ucast (drop_bit 1 S) :: u128) n
        = bit (drop_bit 1 L XOR (if bit H 0 then 2 ^ 127 else 0)) n"
      by (cases "bit H 0") (auto simp only: bit_xor_iff top if_True if_False bit_0_eq bot_apply bool_simps,
          auto simp: H_def L_def bit_simps)
  qed
  have even: "\<not> bit L 0" using assms by (simp add: L_def bit_simps)
  have "gf_reduce (drop_bit 1 S)
      = drop_bit 1 H XOR gf_mulx (gf_fold L) XOR (if bit H 0 then push_bit 120 0xE1 else 0)"
    by (simp only: gf_reduce_def hi lo xlinD [OF xlin_gf_fold] xlin_if [OF xlin_gf_fold] gf_fold_top
        gf_fold_mulx [OF even] xor.assoc)
  also have "\<dots> = gf_mulx (H XOR gf_fold L)"
    by (simp add: xlinD [OF xlin_gf_mulx]) (simp add: gf_mulx_def ac_simps)
  finally show ?thesis by (simp add: gf_reduce_def H_def L_def)
qed

definition gf_red :: "u256 \<Rightarrow> u128" where
  "gf_red P = gf_reduce (push_bit 1 P)"

lemma xlin_gf_red: "xlin gf_red"
  by (simp add: xlin_def gf_red_def push_bit_xor xlinD [OF xlin_gf_reduce])

lemma gf_red_shift: "k \<le> 127 \<Longrightarrow> gf_red (push_bit (127 - k) (ucast Y)) = (gf_mulx ^^ k) Y"
proof (induction k)
  case 0
  have "(ucast (drop_bit 128 (push_bit 1 (push_bit 127 (ucast Y :: u256)))) :: u128) = Y"
    "(ucast (push_bit 1 (push_bit 127 (ucast Y :: u256))) :: u128) = 0"
    by (rule bit_word_eqI, auto simp: bit_simps bit_small)+
  then show ?case
    using xlin_zero [OF xlin_gf_fold] by (simp only: gf_red_def gf_reduce_def) simp
next
  case (Suc k)
  let ?S = "push_bit (128 - k) (ucast Y :: u256)"
  have "1 + (127 - k) = 128 - k" "1 + (127 - Suc k) = 127 - k" using Suc.prems by simp_all
  then have dbl: "push_bit 1 (push_bit (127 - k) (ucast Y)) = ?S"
    "push_bit 1 (push_bit (127 - Suc k) (ucast Y)) = push_bit (127 - k) (ucast Y :: u256)"
    by (simp_all only: push_bit_push_bit)
  have "push_bit (127 - k) (ucast Y) = drop_bit 1 ?S"
    using Suc.prems
    by (intro bit_word_eqI) (auto simp: bit_push_bit_iff bit_drop_bit_eq bit_ucast_iff Suc_diff_le
        dest: bit_imp_le_length)
  moreover have "\<not> bit ?S 0" using Suc.prems by (simp add: bit_push_bit_iff)
  ultimately show ?case
    using Suc.IH Suc.prems dbl gf_reduce_mulx [of ?S] by (simp only: gf_red_def funpow.simps comp_apply) simp
qed

section \<open>The field multiplication\<close>

primrec gf_part :: "u128 \<Rightarrow> u128 \<Rightarrow> nat \<Rightarrow> u128" where
  "gf_part X Y 0 = 0"
| "gf_part X Y (Suc n) = gf_part X Y n XOR (if bit X (127 - n) then (gf_mulx ^^ n) Y else 0)"

lemma gf_mult_part: "gf_mult X Y = gf_part X Y 128"
proof -
  have "fold (\<lambda>i (Z, V). (if bit X (127 - i) then Z XOR V else Z, gf_mulx V)) [0..<n] (0, Y)
      = (gf_part X Y n, (gf_mulx ^^ n) Y)" for n
    by (induction n) auto
  then show ?thesis by (simp only: gf_mult_def fst_conv)
qed

lemma xlin_gf_mult: "xlin (\<lambda>X. gf_mult X Y)" "xlin (gf_mult X)"
proof -
  have "gf_part (X XOR X') Y n = gf_part X Y n XOR gf_part X' Y n" for X X' n
    by (induction n) (auto simp: bit_simps ac_simps)
  then show "xlin (\<lambda>X. gf_mult X Y)" by (simp add: xlin_def gf_mult_part)
  have "gf_part X (Y XOR Y') n = gf_part X Y n XOR gf_part X Y' n" for Y Y' n
    by (induction n) (auto simp: xlinD [OF xlin_funpow [OF xlin_gf_mulx]] ac_simps)
  then show "xlin (gf_mult X)" by (simp add: xlin_def gf_mult_part)
qed

lemma gf_part_single: "i < 128 \<Longrightarrow> n \<le> 128 \<Longrightarrow> gf_part (2 ^ i) Y n = (if 127 - i < n then (gf_mulx ^^ (127 - i)) Y else 0)"
  by (induction n) (auto simp: bit_simps less_Suc_eq)

lemma gf_mult_red: "gf_mult X Y = gf_red (poly_mul X Y)"
proof (rule xlin_ext [OF xlin_gf_mult(1)])
  show "xlin (\<lambda>X. gf_red (poly_mul X Y))"
    using xlin_gf_red xlin_poly_mul(1) by (simp add: xlin_def)
  fix i assume i: "i < LENGTH(128)"
  then have "gf_mult (2 ^ i) Y = (gf_mulx ^^ (127 - i)) Y"
    using gf_part_single [of i 128 Y] diff_le_self [of 127 i] by (simp add: gf_mult_part)
  also have "\<dots> = gf_red (push_bit (127 - (127 - i)) (ucast Y))"
    by (rule gf_red_shift [symmetric]) simp
  finally show "gf_mult (2 ^ i) Y = gf_red (poly_mul (2 ^ i) Y)"
    using i by (simp add: poly_mul_single)
qed

lemma gf_mult_commute: "gf_mult X Y = gf_mult Y X"
  by (simp add: gf_mult_red poly_mul_commute [of X])

lemma gf_mult_mulx: "gf_mult X (gf_mulx Y) = gf_mulx (gf_mult X Y)"
proof -
  have "gf_part X (gf_mulx Y) n = gf_mulx (gf_part X Y n)" for n
    by (induction n)
      (simp_all add: xlin_zero [OF xlin_gf_mulx] xlinD [OF xlin_gf_mulx] funpow_swap1)
  then show ?thesis by (simp add: gf_mult_part)
qed

lemma gf_mult_funpow: "gf_mult ((gf_mulx ^^ n) X) Y = (gf_mulx ^^ n) (gf_mult X Y)"
  by (induction n) (simp_all add: gf_mult_commute [of _ Y] gf_mult_mulx)

lemma gf_mult_assoc: "gf_mult (gf_mult X Y) Z = gf_mult X (gf_mult Y Z)"
proof -
  have "gf_mult (gf_part X Y n) Z = gf_part X (gf_mult Y Z) n" for n
    by (induction n)
      (simp_all add: xlin_zero [OF xlin_gf_mult(1)] xlinD [OF xlin_gf_mult(1)] gf_mult_funpow)
  then show ?thesis by (simp only: gf_mult_part [of X])
qed

section \<open>The lanes of the code\<close>

lemma qword_mk [simp]: "qword 0 (mk_qwords a b) = a" "qword (Suc 0) (mk_qwords a b) = b"
  by (auto intro!: bit_word_eqI simp: bit_qword mk_qwords_def bit_simps bit_small)

lemma qword_ops [simp]:
  "qword i (mm_xor_si128 x y) = qword i x XOR qword i y" "qword i (mm_or_si128 x y) = qword i x OR qword i y"
  "qword 0 (mm_slli_epi64 x n) = push_bit n (qword 0 x)" "qword 0 (mm_srli_epi64 x n) = drop_bit n (qword 0 x)"
  by (auto intro!: bit_word_eqI
      simp: mm_slli_epi64_def mm_srli_epi64_def mm_xor_si128_def mm_or_si128_def bit_qword bit_simps)

lemma qword_shuffle_0E [simp]: "qword 0 (mm_shuffle_epi32 x 0x0E) = qword 1 x"
proof (rule bit_word_eqI)
  fix n assume "n < LENGTH(64)"
  then have "n < 32 \<or> 32 \<le> n \<and> n < 64" by auto
  moreover have "dword (Suc (Suc (Suc 0))) x = dword 3 x" by (simp add: numeral_3_eq_3)
  ultimately show "bit (qword 0 (mm_shuffle_epi32 x 0x0E)) n = bit (qword 1 x) n"
    by (auto simp: mm_shuffle_epi32_def mk_dwords_def bit_qword bit_simps bit_dword bit_small)
qed

lemma mk_qwords_xor: "mk_qwords a b XOR mk_qwords c d = mk_qwords (a XOR c) (b XOR d)"
  by (rule bit_word_eqI) (auto simp: mk_qwords_def bit_simps bit_small)

lemma mk_qwords_drop:
  "k < 64 \<Longrightarrow> drop_bit k (mk_qwords a b) = mk_qwords (drop_bit k a XOR push_bit (64 - k) b) (drop_bit k b)"
proof (rule bit_word_eqI)
  fix n assume k: "k < 64" and "n < LENGTH(128)"
  then have n: "n < 128" by simp
  show "bit (drop_bit k (mk_qwords a b)) n
      = bit (mk_qwords (drop_bit k a XOR push_bit (64 - k) b) (drop_bit k b)) n"
  proof (cases "n < 64")
    case True
    with k n show ?thesis by (auto simp: mk_qwords_def bit_simps bit_small add.commute [of n k])
  next
    case False
    then have "k + n - 64 = k + (n - 64)" by simp
    with False k n show ?thesis
      by (auto simp: mk_qwords_def bit_simps bit_small dest: bit_imp_le_length)
  qed
qed

lemma mk_qwords_push:
  "k < 64 \<Longrightarrow> push_bit (64 + k) (mk_qwords a b) = mk_qwords 0 (push_bit k a)"
  by (rule bit_word_eqI) (auto simp: mk_qwords_def bit_simps bit_small)

text \<open>The 256-bit value held in the low lanes of four registers.\<close>

definition val4 :: "m128x4 \<Rightarrow> u256" where
  "val4 = (\<lambda>(x0, x1, x2, x3). push_bit 128 (ucast (mk_qwords (qword 0 x1) (qword 0 x0)))
     XOR ucast (mk_qwords (qword 0 x3) (qword 0 x2)))"

lemma REDUCE_F128_reduce:
  assumes "REDUCE_F128 x = (y0, y1)"
  shows "mk_qwords (qword 0 y1) (qword 0 y0) = gf_reduce (val4 x)"
proof -
  obtain x0 x1 x2 x3 where x: "x = (x0, x1, x2, x3)" by (cases x)
  let ?H = "mk_qwords (qword 0 x1) (qword 0 x0)" and ?L = "mk_qwords (qword 0 x3) (qword 0 x2)"
  have "(ucast (drop_bit 128 (push_bit 128 (ucast a) XOR ucast b :: u256)) :: u128) = a"
    "(ucast (push_bit 128 (ucast a) XOR ucast b :: u256) :: u128) = b" for a b :: u128
    by (auto intro!: bit_word_eqI simp: bit_simps bit_small)
  then have "gf_reduce (val4 x) = ?H XOR gf_fold ?L"
    by (simp only: gf_reduce_def val4_def x prod.case)
  moreover have "push_bit 127 ?L = mk_qwords 0 (push_bit 63 (qword 0 x3))"
    "push_bit 126 ?L = mk_qwords 0 (push_bit 62 (qword 0 x3))"
    "push_bit 121 ?L = mk_qwords 0 (push_bit 57 (qword 0 x3))"
    using mk_qwords_push [of 63] mk_qwords_push [of 62] mk_qwords_push [of 57] by simp_all
  ultimately show ?thesis
    using assms
    by (auto simp: x REDUCE_F128_def gf_fold_def Let_def mk_qwords_xor mk_qwords_drop ac_simps)
qed

lemma SL_256_val4: "val4 (SL_256 x) = push_bit 1 (val4 x)"
proof (rule bit_word_eqI)
  obtain x0 x1 x2 x3 where x: "x = (x0, x1, x2, x3)" by (cases x)
  fix n assume "n < LENGTH(256)"
  then consider "n = 0" | "0 < n" "n < 64" | "n = 64" | "64 < n" "n < 128" | "n = 128" | "128 < n" "n < 192"
    | "n = 192" | "192 < n" "n < 256" by force
  then show "bit (val4 (SL_256 x)) n = bit (push_bit 1 (val4 x)) n"
    unfolding x by cases (simp_all add: val4_def SL_256_def Let_def mk_qwords_def bit_simps bit_small
        del: push_bit_Suc One_nat_def, (auto simp: bit_small)?)
qed

section \<open>Products\<close>

definition tri :: "u128 \<Rightarrow> u128 \<Rightarrow> u128 \<Rightarrow> u256" where
  "tri t1 t2 t3 = push_bit 128 (ucast t1) XOR push_bit 64 (ucast t2) XOR ucast t3"

lemma tri_xor: "tri (a XOR a') (b XOR b') (c XOR c') = tri a b c XOR tri a' b' c'"
  by (simp add: tri_def ucast_xor_256 push_bit_xor ac_simps)

lemma mk_qword_qwords: "mk_qwords (qword 0 x) (qword 1 x) = x"
proof (rule bit_word_eqI)
  fix n assume "n < LENGTH(128)"
  then have "n < 64 \<or> 64 \<le> n \<and> n < 128" by auto
  then show "bit (mk_qwords (qword 0 x) (qword 1 x)) n = bit x n"
    by (auto simp: mk_qwords_def bit_simps bit_qword)
qed

lemma shift_64: "push_bit 64 (ucast x :: u256)
    = push_bit 128 (ucast (mk_qwords (qword 1 x) 0)) XOR ucast (mk_qwords 0 (qword 0 x))"
proof (rule bit_word_eqI)
  fix n assume "n < LENGTH(256)"
  then have "n < 64 \<or> 64 \<le> n \<and> n < 128 \<or> 128 \<le> n \<and> n < 192 \<or> 192 \<le> n \<and> n < 256" by auto
  then show "bit (push_bit 64 (ucast x :: u256)) n = bit (push_bit 128 (ucast (mk_qwords (qword 1 x) 0))
      XOR ucast (mk_qwords 0 (qword 0 x)) :: u256) n"
    by (auto simp: mk_qwords_def bit_simps bit_qword bit_small)
qed

lemma val4_tri:
  assumes "qword 0 x0 = qword 1 t1" "qword 0 x1 = qword 0 t1 XOR qword 1 t2"
    "qword 0 x2 = qword 0 t2 XOR qword 1 t3" "qword 0 x3 = qword 0 t3"
  shows "val4 (x0, x1, x2, x3) = tri t1 t2 t3"
proof -
  have "tri t1 t2 t3 = tri (mk_qwords (qword 0 t1) (qword 1 t1)) t2 (mk_qwords (qword 0 t3) (qword 1 t3))"
    by (simp only: mk_qword_qwords)
  also have "\<dots> = push_bit 128 (ucast (mk_qwords (qword 0 t1) (qword 1 t1) XOR mk_qwords (qword 1 t2) 0))
      XOR ucast (mk_qwords 0 (qword 0 t2) XOR mk_qwords (qword 0 t3) (qword 1 t3))"
    by (simp only: tri_def shift_64 ucast_xor_256 push_bit_xor xor.assoc)
  finally show ?thesis by (simp add: val4_def mk_qwords_xor assms)
qed

lemma ghash_finish_red:
  assumes "ghash_finish t1 t2 t3 = (y0, y1)"
  shows "mk_qwords (qword 0 y1) (qword 0 y0) = gf_red (tri t1 (t2 XOR (t1 XOR t3)) t3)"
proof -
  let ?t2 = "mm_xor_si128 t2 (mm_xor_si128 t1 t3)"
  let ?x = "(mm_shuffle_epi32 t1 0x0E, mm_xor_si128 t1 (mm_shuffle_epi32 ?t2 0x0E),
    mm_xor_si128 ?t2 (mm_shuffle_epi32 t3 0x0E), t3)"
  have "val4 ?x = tri t1 ?t2 t3" by (rule val4_tri) simp_all
  moreover have "REDUCE_F128 (SL_256 ?x) = (y0, y1)" using assms by (simp add: ghash_finish_def Let_def)
  ultimately show ?thesis
    using REDUCE_F128_reduce [of "SL_256 ?x" y0 y1] by (simp add: SL_256_val4 gf_red_def mm_xor_si128_def)
qed

definition half :: "nat \<Rightarrow> nat \<Rightarrow> u128 \<Rightarrow> u128 \<Rightarrow> u128" where
  "half i j X Y = clmul 64 (qword i X) (ucast (qword j Y))"

lemma poly_mul_halves: "poly_mul X Y = tri (half 1 1 X Y) (half 0 1 X Y XOR half 1 0 X Y) (half 0 0 X Y)"
proof -
  let ?Y = "ucast Y :: u256"
  have lo: "clmul 64 X y = clmul 64 (qword 0 X) y" for y :: u256
    by (rule clmul_cong) (simp add: bit_qword)
  have hi: "clmul 64 (drop_bit 64 X) y = clmul 64 (qword 1 X) y" for y :: u256
    by (rule clmul_cong) (simp add: bit_qword bit_simps)
  have Y: "?Y = ucast (qword 0 Y) XOR push_bit 64 (ucast (qword 1 Y))"
  proof (rule bit_word_eqI)
    fix n assume "n < LENGTH(256)"
    then have "n < 64 \<or> 64 \<le> n \<and> n < 128 \<or> 128 \<le> n" by auto
    then show "bit ?Y n = bit (ucast (qword 0 Y) XOR push_bit 64 (ucast (qword 1 Y)) :: u256) n"
      by (auto simp: bit_simps bit_qword bit_small)
  qed
  have "poly_mul X Y = clmul 64 (qword 0 X) ?Y XOR push_bit 64 (clmul 64 (qword 1 X) ?Y)"
    using clmul_add [of 64 64 X ?Y] by (simp add: poly_mul_def lo hi)
  also have "\<dots> = tri (half 1 1 X Y) (half 0 1 X Y XOR half 1 0 X Y) (half 0 0 X Y)"
    unfolding Y
    by (simp add: clmul_xor_right clmul_push push_bit_xor push_bit_push_bit tri_def half_def
        clmul_widen ucast_xor_256 ac_simps)
  finally show ?thesis .
qed

lemma pclmul_half: "pclmulqdq00 X Y = half 0 0 X Y" "pclmulqdq11 X Y = half 1 1 X Y"
  by (simp_all add: pclmulqdq00_def pclmulqdq11_def mm_clmulepi64_si128_def half_def)

text \<open>A register with the XOR of its halves in the low lane of another, as \<open>BK\<close> and \<open>PBK\<close> produce.\<close>

definition folded :: "u128 \<Rightarrow> u128 \<Rightarrow> bool" where
  "folded w x \<longleftrightarrow> qword 0 x = qword 0 w XOR qword 1 w"

lemma folded_BK: "folded w (BK w)"
  by (simp add: folded_def BK_def)

lemma folded_PBK: "PBK k0 k1 = (w, x) \<Longrightarrow> folded w x \<and> w = mk_qwords (qword 0 k1) (qword 0 k0)"
  by (auto simp: folded_def PBK_def mm_unpacklo_epi64_def xor.commute)

lemma karatsuba:
  assumes "folded X Xx" and "folded Y Yx"
  shows "tri (pclmulqdq11 X Y) (pclmulqdq00 Xx Yx XOR (pclmulqdq11 X Y XOR pclmulqdq00 X Y)) (pclmulqdq00 X Y)
    = poly_mul X Y"
proof -
  have u: "(ucast (a XOR b) :: u128) = ucast a XOR ucast b" for a b :: u64
    by (rule bit_word_eqI) (auto simp: bit_simps)
  have "pclmulqdq00 Xx Yx XOR (pclmulqdq11 X Y XOR pclmulqdq00 X Y) = half 0 1 X Y XOR half 1 0 X Y"
    using assms
    by (simp add: pclmul_half half_def folded_def clmul_xor_left clmul_xor_right u ac_simps)
  then show ?thesis by (simp add: poly_mul_halves pclmul_half)
qed

lemma half_commute: "half 0 1 X X = half 1 0 X X"
proof -
  define a b :: u64 where "a = qword 0 X" and "b = qword 1 X"
  have h: "half 0 0 (mk_qwords x 0) (mk_qwords y 0) = clmul 64 x (ucast y)" for x y
    by (simp add: half_def)
  have "tri 0 0 (clmul 64 x (ucast y)) = poly_mul (mk_qwords x 0) (mk_qwords y 0)" for x y
    using poly_mul_halves [of "mk_qwords x 0" "mk_qwords y 0"] by (simp add: h) (simp add: half_def)
  then have "tri 0 0 (clmul 64 a (ucast b)) = tri 0 0 (clmul 64 b (ucast a))"
    by (simp add: poly_mul_commute [of "mk_qwords a 0"])
  then have "(ucast (ucast (clmul 64 a (ucast b) :: u128) :: u256) :: u128)
      = ucast (ucast (clmul 64 b (ucast a) :: u128) :: u256)"
    by (simp add: tri_def)
  moreover have "(ucast (ucast t :: u256) :: u128) = t" for t :: u128
    by (rule bit_word_eqI) (simp add: bit_simps)
  ultimately show ?thesis by (simp add: half_def a_def b_def)
qed

lemma SQUARE_F128_mult:
  assumes "SQUARE_F128 kw = (dw, dx)"
  shows "folded dw dx \<and> dw = gf_mult kw kw"
proof -
  let ?x = "(mm_shuffle_epi32 (pclmulqdq11 kw kw) 0x0E, pclmulqdq11 kw kw,
    mm_shuffle_epi32 (pclmulqdq00 kw kw) 0x0E, pclmulqdq00 kw kw)"
  obtain z0 z1 where z: "REDUCE_F128 (SL_256 ?x) = (z0, z1)" by fastforce
  then have "PBK z0 z1 = (dw, dx)" using assms by (simp add: SQUARE_F128_def Let_def)
  moreover have "val4 ?x = tri (half 1 1 kw kw) 0 (half 0 0 kw kw)"
    unfolding pclmul_half by (rule val4_tri) (simp_all add: qword_def [of _ 0])
  moreover have "\<dots> = poly_mul kw kw" by (simp add: poly_mul_halves half_commute [simplified])
  ultimately have "folded dw dx" and "dw = gf_reduce (push_bit 1 (poly_mul kw kw))"
    using folded_PBK [of z0 z1 dw dx] REDUCE_F128_reduce [OF z] by (auto simp only: SL_256_val4)
  then show ?thesis by (simp add: gf_mult_red gf_red_def)
qed

lemma BYTESWAP_rev: "BYTESWAP x = le_word (rev (le_bytes 16 x))"
proof -
  let ?m = "[0, 1, 2, 3, 4, 5, 6, 7, 8, 9, 10, 11, 12, 13, 14, 15] :: u8 list"
  have "le_bytes 16 (mm_set_epi8 ?m) = rev ?m"
    by (simp only: mm_set_epi8_def) (rule le_bytes_le_word, simp_all)
  then have "BYTESWAP x = le_word (map (\<lambda>b. if bit b 7 then 0 else le_bytes 16 x ! (unat b mod 16)) (rev ?m))"
    by (simp only: BYTESWAP_def mm_shuffle_epi8_def)
  also have "map (\<lambda>b. if bit b 7 then 0 else le_bytes 16 x ! (unat b mod 16)) (rev ?m)
      = map (\<lambda>i. le_bytes 16 x ! (15 - i)) [0..<16]"
    by (simp add: upt_rec)
  also have "\<dots> = rev (le_bytes 16 x)"
    by (rule nth_equalityI) (simp_all add: rev_nth)
  finally show ?thesis .
qed

lemma BYTESWAP_loadu: "16 \<le> length b \<Longrightarrow> BYTESWAP (mm_loadu_si128 b) = be_word (take 16 b)"
  by (simp add: BYTESWAP_rev mm_loadu_si128_def le_bytes_le_word be_word_def)

lemma storeu_BYTESWAP: "mm_storeu_si128 (BYTESWAP y) = be_bytes 16 y"
  by (simp add: BYTESWAP_rev mm_storeu_si128_def le_bytes_le_word be_bytes_def)

lemma ghash_block1_mult:
  assumes "folded h hx" and "16 \<le> length buf"
  shows "ghash_block1 h hx buf y = gf_mult (y XOR be_word (take 16 buf)) h"
proof -
  define a where "a = be_word (take 16 buf) XOR y"
  obtain t0 t1 where f: "ghash_finish (pclmulqdq11 a h) (pclmulqdq00 (BK a) hx) (pclmulqdq00 a h) = (t0, t1)"
    by fastforce
  have "ghash_block1 h hx buf y = mk_qwords (qword 0 t1) (qword 0 t0)"
    using f assms(2)
    by (simp add: ghash_block1_def BYTESWAP_loadu mm_xor_si128_def mm_unpacklo_epi64_def flip: a_def)
  also have "\<dots> = gf_mult a h"
    by (simp only: ghash_finish_red [OF f] karatsuba [OF folded_BK assms(1)] gf_mult_red)
  finally show ?thesis by (simp add: a_def xor.commute)
qed

lemma ghash_block4_mult:
  assumes "folded h1 x1" "folded h2 x2" "folded h3 x3" "folded h4 x4" and "64 \<le> length buf"
  shows "ghash_block4 [(h1, x1), (h2, x2), (h3, x3), (h4, x4)] buf y
    = gf_mult (y XOR be_word (take 16 buf)) h4 XOR gf_mult (be_word (take 16 (drop 16 buf))) h3
      XOR gf_mult (be_word (take 16 (drop 32 buf))) h2 XOR gf_mult (be_word (take 16 (drop 48 buf))) h1"
proof -
  define a0 where "a0 = be_word (take 16 buf) XOR y"
  define a1 a2 a3 :: u128 where a: "a1 = be_word (take 16 (drop 16 buf))"
    "a2 = be_word (take 16 (drop 32 buf))" "a3 = be_word (take 16 (drop 48 buf))"
  let ?t1 = "(pclmulqdq11 a0 h4 XOR pclmulqdq11 a1 h3) XOR (pclmulqdq11 a2 h2 XOR pclmulqdq11 a3 h1)"
  let ?t3 = "(pclmulqdq00 a0 h4 XOR pclmulqdq00 a1 h3) XOR (pclmulqdq00 a2 h2 XOR pclmulqdq00 a3 h1)"
  let ?t2 = "(pclmulqdq00 (BK a0) x4 XOR pclmulqdq00 (BK a1) x3) XOR (pclmulqdq00 (BK a2) x2 XOR pclmulqdq00 (BK a3) x1)"
  obtain t0 t1 where f: "ghash_finish ?t1 ?t2 ?t3 = (t0, t1)" by fastforce
  have "ghash_block4 [(h1, x1), (h2, x2), (h3, x3), (h4, x4)] buf y = mk_qwords (qword 0 t1) (qword 0 t0)"
    using f assms(5)
    by (simp add: ghash_block4_def BYTESWAP_loadu mm_xor_si128_def mm_unpacklo_epi64_def Let_def
        flip: a0_def a)
  also have "\<dots> = gf_red (tri ?t1 (?t2 XOR (?t1 XOR ?t3)) ?t3)"
    by (rule ghash_finish_red [OF f])
  also have "tri ?t1 (?t2 XOR (?t1 XOR ?t3)) ?t3
      = (poly_mul a0 h4 XOR poly_mul a1 h3) XOR (poly_mul a2 h2 XOR poly_mul a3 h1)"
    unfolding karatsuba [OF folded_BK assms(1), symmetric] karatsuba [OF folded_BK assms(2), symmetric]
      karatsuba [OF folded_BK assms(3), symmetric] karatsuba [OF folded_BK assms(4), symmetric]
      tri_xor [symmetric]
    by (simp add: ac_simps)
  finally show ?thesis
    by (simp add: xlinD [OF xlin_gf_red] gf_mult_red a a0_def xor.commute [of y] xor.assoc)
qed

section \<open>The hash\<close>

lemma ghash_ref_append:
  assumes "length a = 16 * n"
  shows "ghash_ref h y (a @ b) = ghash_ref h (ghash_ref h y a) b"
  using assms
proof (induction n arbitrary: y a)
  case 0
  then show ?case by (simp add: ghash_ref.simps [of h y "[]"])
next
  case (Suc n)
  then have "a \<noteq> []" by auto
  with Suc show ?case
    by (simp add: ghash_ref.simps [of h y "a @ b"] ghash_ref.simps [of h y a])
qed

lemma ghash_ref_block:
  "length a = 16 \<Longrightarrow> ghash_ref h y a = gf_mult (y XOR be_word a) h"
  by (auto simp: ghash_ref.simps [of h _ a] ghash_ref.simps [of h _ "[]"])

lemma ghash_ref_pad:
  assumes "length t + k = 16 * n" and "k < 16"
  shows "ghash_ref h y (t @ replicate k 0) = ghash_ref h y t"
  using assms
proof (induction n arbitrary: y t)
  case (Suc n)
  show ?case
  proof (cases "16 \<le> length t")
    case True
    then have "t \<noteq> []" by auto
    with Suc True show ?thesis
      by (simp add: ghash_ref.simps [of h y "t @ replicate k 0"] ghash_ref.simps [of h y t])
  next
    case False
    then have "n < 1" using Suc.prems by simp
    then have k: "k = 16 - length t" and t: "t \<noteq> []" using Suc.prems False by auto
    then show ?thesis
      using False by (simp add: ghash_ref_block ghash_ref.simps [of h y t] ghash_ref.simps [of h _ "[]"])
  qed
qed simp

lemma ghash_loop1_ref:
  assumes "folded h hx" and "16 * n \<le> length buf"
  shows "ghash_loop1 h hx n buf y = ghash_ref h y (take (16 * n) buf)"
  using assms(2)
proof (induction n arbitrary: buf y)
  case (Suc n)
  have "take (16 * Suc n) buf = take 16 buf @ take (16 * n) (drop 16 buf)"
    by (simp add: take_add [symmetric])
  then show ?case
    using Suc assms(1) ghash_ref_append [of "take 16 buf" 1 h y "take (16 * n) (drop 16 buf)"]
    by (simp add: ghash_block1_mult ghash_ref_block)
qed (simp add: ghash_ref.simps)

lemma ghash_loop4_ref:
  assumes "folded h x1" "folded (gf_mult h h) x2" "folded (gf_mult h (gf_mult h h)) x3"
    "folded (gf_mult (gf_mult h h) (gf_mult h h)) x4" and "64 * n \<le> length buf"
  shows "ghash_loop4 [(h, x1), (gf_mult h h, x2), (gf_mult h (gf_mult h h), x3),
      (gf_mult (gf_mult h h) (gf_mult h h), x4)] n buf y = ghash_ref h y (take (64 * n) buf)"
  using assms(5)
proof (induction n arbitrary: buf y)
  case (Suc n)
  define b where "b i = take 16 (drop (16 * i) buf)" for i
  have len: "length (b i) = 16" if "i < 4" for i using Suc.prems that by (simp add: b_def)
  have "take (64 * Suc n) buf = (b 0 @ b 1 @ b 2 @ b 3) @ take (64 * n) (drop 64 buf)"
    by (simp add: b_def take_add [symmetric] flip: append_assoc)
  then have "ghash_ref h y (take (64 * Suc n) buf)
      = ghash_ref h (ghash_ref h y (b 0 @ b 1 @ b 2 @ b 3)) (take (64 * n) (drop 64 buf))"
    using ghash_ref_append [of "b 0 @ b 1 @ b 2 @ b 3" 4 h y] len by simp
  also have "ghash_ref h y (b 0 @ b 1 @ b 2 @ b 3)
      = gf_mult (gf_mult (gf_mult (gf_mult (y XOR be_word (b 0)) h XOR be_word (b 1)) h XOR be_word (b 2)) h
          XOR be_word (b 3)) h"
    using ghash_ref_append [of "b 0" 1] ghash_ref_append [of "b 1" 1] ghash_ref_append [of "b 2" 1] len
    by (simp add: ghash_ref_block)
  also have "\<dots> = ghash_block4 [(h, x1), (gf_mult h h, x2), (gf_mult h (gf_mult h h), x3),
      (gf_mult (gf_mult h h) (gf_mult h h), x4)] buf y"
    using Suc.prems assms(1-4)
    by (simp add: ghash_block4_mult xlinD [OF xlin_gf_mult(1)] gf_mult_assoc b_def xor.assoc)
  finally show ?case using Suc by simp
qed (simp add: ghash_ref.simps)

lemma ghash_powers:
  assumes h: "folded h hx" and sq: "SQUARE_F128 h = (h2, x2)"
    and f: "ghash_finish (pclmulqdq11 h h2) (pclmulqdq00 hx x2) (pclmulqdq00 h h2) = (t0, t1)"
    and p: "PBK t0 t1 = (h3, x3)" and sq4: "SQUARE_F128 h2 = (h4, x4)"
  shows "h2 = gf_mult h h" "folded h2 x2" "h3 = gf_mult h (gf_mult h h)" "folded h3 x3"
    "h4 = gf_mult (gf_mult h h) (gf_mult h h)" "folded h4 x4"
proof -
  show h2: "h2 = gf_mult h h" "folded h2 x2" using SQUARE_F128_mult [OF sq] by auto
  show "folded h3 x3" using folded_PBK [OF p] by blast
  have "h3 = mk_qwords (qword 0 t1) (qword 0 t0)" using folded_PBK [OF p] by simp
  then have "h3 = gf_mult h h2"
    by (simp only: ghash_finish_red [OF f] karatsuba [OF h h2(2)] gf_mult_red)
  then show "h3 = gf_mult h (gf_mult h h)" by (simp only: h2(1))
  show "h4 = gf_mult (gf_mult h h) (gf_mult h h)" "folded h4 x4"
    using SQUARE_F128_mult [OF sq4] h2(1) by auto
qed

text \<open>What \<open>buf2\<close> points to: the tail itself, or its copy padded with zeros to whole blocks.\<close>

definition ghash_tail :: "bytes \<Rightarrow> nat \<Rightarrow> bytes" where
  "ghash_tail t num1 = (if length t mod 16 \<noteq> 0
     then memcpy_at (length t) (replicate (16 * num1 - length t) 0) (memcpy_at 0 t (replicate 64 0)) else t)"

lemma ghash_tail_ref:
  assumes "length t < 64" and num1: "num1 = (length t + 15) div 16"
  shows "ghash_ref h y (take (16 * num1) (ghash_tail t num1)) = ghash_ref h y t
    \<and> 16 * num1 \<le> length (ghash_tail t num1)"
proof -
  obtain q k where r: "length t = 16 * q + k" "k < 16"
    using that [of "length t div 16" "length t mod 16"] by simp
  then have mod: "length t mod 16 = k" by simp
  show ?thesis
  proof (cases "k = 0")
    case True
    then have "num1 = q" using r num1 by (simp add: div_nat_eqI)
    then show ?thesis using True r by (simp add: ghash_tail_def mod)
  next
    case False
    then have n: "num1 = Suc q" using r by (intro trans [OF num1] div_nat_eqI) auto
    have "ghash_tail t num1 = (t @ replicate (16 * num1 - length t) 0) @ replicate (64 - 16 * num1) 0"
      using assms(1) r n False by (simp add: ghash_tail_def mod memcpy_at_def)
    moreover have "ghash_ref h y (t @ replicate (16 * num1 - length t) 0) = ghash_ref h y t"
      using r n False by (intro ghash_ref_pad [of _ _ num1]) auto
    ultimately show ?thesis using r n by simp
  qed
qed

lemma ghash_pclmul_ref:
  assumes "length y = 16" and "length h = 16"
  shows "br_ghash_pclmul y h data = be_bytes 16 (ghash_ref (be_word h) (be_word y) data)"
proof -
  define n4 where "n4 = length data div 64"
  define t where "t = drop (64 * n4) data"
  define n1 where "n1 = (length t + 15) div 16"
  define H Y where "H = (be_word h :: u128)" and "Y = (be_word y :: u128)"
  have t: "length t = length data mod 64" by (simp add: t_def n4_def minus_mult_div_eq_mod)
  have tail: "ghash_ref H z (take (16 * n1) (ghash_tail t n1)) = ghash_ref H z t" "16 * n1 \<le> length (ghash_tail t n1)" for z
    using ghash_tail_ref [of t n1 H z] t by (simp_all add: n1_def)
  obtain h2 x2 where 2: "SQUARE_F128 H = (h2, x2)" by fastforce
  obtain t0 t1 where f: "ghash_finish (pclmulqdq11 H h2) (pclmulqdq00 (BK H) x2) (pclmulqdq00 H h2) = (t0, t1)"
    by fastforce
  obtain h3 x3 where 3: "PBK t0 t1 = (h3, x3)" by fastforce
  obtain h4 x4 where 4: "SQUARE_F128 h2 = (h4, x4)" by fastforce
  note pw = ghash_powers [OF folded_BK 2 f 3 4]
  define Y' where "Y' = (if 0 < n4 then ghash_loop4 [(H, BK H), (h2, x2), (h3, x3), (h4, x4)] n4 data Y else Y)"
  have "Y' = ghash_ref H Y (take (64 * n4) data)"
    using ghash_loop4_ref [OF folded_BK] pw unfolding Y'_def
    by (auto simp: n4_def ghash_ref.simps [of H Y "[]"])
  then have "ghash_ref H Y' t = ghash_ref H Y data"
    using ghash_ref_append [of "take (64 * n4) data" "4 * n4" H Y t] by (simp add: t_def n4_def)
  moreover have "br_ghash_pclmul y h data = be_bytes 16 (ghash_loop1 H (BK H) n1 (ghash_tail t n1) Y')"
  proof -
    have m: "n AND 63 = n mod 64" "n AND 15 = n mod 16" for n :: nat
      using take_bit_eq_mask [of 6 n] take_bit_eq_mask [of 4 n] by (simp_all add: mask_numeral take_bit_eq_mod)
    have e: "drop_bit 6 (length data) = n4" "length data AND 63 = length t" "push_bit 6 n4 = 64 * n4"
      "drop_bit 4 (length t + 15) = n1" "push_bit 4 n1 = 16 * n1" "length t AND 15 = length t mod 16"
      by (simp_all add: n4_def t n1_def m drop_bit_eq_div push_bit_eq_mult mult.commute)
    have l: "BYTESWAP (mm_loadu_si128 y) = Y" "BYTESWAP (mm_loadu_si128 h) = H"
      using assms by (simp_all add: BYTESWAP_loadu Y_def H_def)
    show ?thesis
      unfolding br_ghash_pclmul_def Let_def e l 2 f 3 4 prod.case storeu_BYTESWAP t_def [symmetric]
        Y'_def ghash_tail_def by simp
  qed
  ultimately show ?thesis
    using ghash_loop1_ref [OF folded_BK tail(2)] tail(1) by (simp add: H_def Y_def)
qed

section \<open>Properties\<close>

text \<open>The carry-less-multiplication GHASH code (Karatsuba products, doubled and folded reduction, four
  blocks at a time with precomputed powers of the key, zero padding of a partial last block) computes
  the GHASH of SP 800-38D for every key, starting value and data length.\<close>

theorem ghash_pclmul_correct:
  assumes "length y = 16" and "length h = 16"
  shows "br_ghash_pclmul y h data = be_bytes 16 (ghash_ref (be_word h) (be_word y) data)"
  using assms by (rule ghash_pclmul_ref)

theorem ghash_pclmul_correct_witness:
  "length (replicate 16 (3::u8)) = 16 \<and> length (replicate 16 (5::u8)) = 16
    \<and> br_ghash_pclmul (replicate 16 3) (replicate 16 5) (replicate 70 7)
      = be_bytes 16 (ghash_ref (be_word (replicate 16 5)) (be_word (replicate 16 3)) (replicate 70 7))"
  using ghash_pclmul_correct [of "replicate 16 3" "replicate 16 5" "replicate 70 7"]
  by (simp del: replicate.simps)

end
