(* ===== verification/GCM.thy ===== *)
theory GCM imports AES_NI GHASH begin

text \<open>
  \<open>c_src/bearssl/aead/gcm.c\<close>: Galois/counter mode over a counter-mode cipher and a GHASH function, both
  reached through pointers kept in the context. The interface \<open>gcm_prims\<close> states what GCM asks of
  them; it is interpreted on the AES-NI and carry-less-multiplication code. The lemmas show that the
  streaming code, for every way of cutting the additional data and the message, is GCM of
  SP 800-38D, and that the tag check accepts exactly the right tag.
\<close>

section \<open>The code\<close>

record br_gcm_context =
  gc_run :: "bytes \<Rightarrow> u32 \<Rightarrow> bytes \<Rightarrow> u32 \<times> bytes"
  gc_gh :: "bytes \<Rightarrow> bytes \<Rightarrow> bytes \<Rightarrow> bytes"
  gc_h :: bytes
  gc_j0_1 :: bytes
  gc_buf :: bytes
  gc_y :: bytes
  gc_j0_2 :: u32
  gc_jc :: u32
  gc_count_aad :: u64
  gc_count_ctr :: u64

text \<open>\<open>bctx\<close> with its key context is represented by its \<open>run\<close> method applied to that context.\<close>

definition br_gcm_init ::
  "br_gcm_context \<Rightarrow> (bytes \<Rightarrow> u32 \<Rightarrow> bytes \<Rightarrow> u32 \<times> bytes) \<Rightarrow> (bytes \<Rightarrow> bytes \<Rightarrow> bytes \<Rightarrow> bytes) \<Rightarrow> br_gcm_context" where
  "br_gcm_init ctx bctx gh =
     (let ctx = ctx\<lparr>gc_run := bctx, gc_gh := gh\<rparr>;
          h = replicate 16 0;
          iv = replicate 12 0;
          (_, h) = bctx iv 0 h
      in ctx\<lparr>gc_h := h\<rparr>)"

definition br_gcm_reset :: "br_gcm_context \<Rightarrow> bytes \<Rightarrow> br_gcm_context" where
  "br_gcm_reset ctx iv =
     (let ctx = (if length iv = 12
            then ctx\<lparr>gc_j0_1 := iv, gc_j0_2 := 1\<rparr>
            else
              let ty = replicate 16 0;
                  ty = gc_gh ctx ty (gc_h ctx) iv;
                  tmp = replicate 8 0 @ br_enc64be (push_bit 3 (of_nat (length iv)));
                  ty = gc_gh ctx ty (gc_h ctx) tmp
              in ctx\<lparr>gc_j0_1 := take 12 ty, gc_j0_2 := br_dec32be (drop 12 ty)\<rparr>)
      in ctx\<lparr>gc_jc := gc_j0_2 ctx + 1, gc_y := replicate 16 0, gc_count_aad := 0, gc_count_ctr := 0\<rparr>)"

definition br_gcm_aad_tail :: "br_gcm_context \<Rightarrow> bytes \<Rightarrow> br_gcm_context" where
  "br_gcm_aad_tail ctx data =
     (let dlen = 16 * (length data div 16);
          ctx = ctx\<lparr>gc_y := gc_gh ctx (gc_y ctx) (gc_h ctx) (take dlen data)\<rparr>;
          ctx = ctx\<lparr>gc_buf := memcpy_at 0 (drop dlen data) (gc_buf ctx)\<rparr>
      in ctx\<lparr>gc_count_aad := gc_count_aad ctx + of_nat (length data)\<rparr>)"

definition br_gcm_aad_inject :: "br_gcm_context \<Rightarrow> bytes \<Rightarrow> br_gcm_context" where
  "br_gcm_aad_inject ctx data =
     (let ptr = unat (gc_count_aad ctx AND 15)
      in if ptr \<noteq> 0 then
           let clen = 16 - ptr
           in if length data < clen
              then ctx\<lparr>gc_buf := memcpy_at ptr data (gc_buf ctx),
                       gc_count_aad := gc_count_aad ctx + of_nat (length data)\<rparr>
              else
                let ctx = ctx\<lparr>gc_buf := memcpy_at ptr (take clen data) (gc_buf ctx)\<rparr>;
                    ctx = ctx\<lparr>gc_y := gc_gh ctx (gc_y ctx) (gc_h ctx) (gc_buf ctx)\<rparr>;
                    ctx = ctx\<lparr>gc_count_aad := gc_count_aad ctx + of_nat clen\<rparr>
                in br_gcm_aad_tail ctx (drop clen data)
         else br_gcm_aad_tail ctx data)"

definition br_gcm_flip :: "br_gcm_context \<Rightarrow> br_gcm_context" where
  "br_gcm_flip ctx =
     (let ptr = unat (gc_count_aad ctx AND 15)
      in if ptr \<noteq> 0
         then ctx\<lparr>gc_y := gc_gh ctx (gc_y ctx) (gc_h ctx) (take ptr (gc_buf ctx))\<rparr>
         else ctx)"

text \<open>
  The two byte loops of \<open>br_gcm_run\<close>: each input byte is XORed with the key stream byte at \<open>p\<close>, which
  is then replaced by the encrypted byte.
\<close>

fun gcm_xor_loop :: "bool \<Rightarrow> nat \<Rightarrow> bytes \<Rightarrow> bytes \<Rightarrow> bytes \<times> bytes" where
  "gcm_xor_loop encrypt p [] cb = ([], cb)"
| "gcm_xor_loop encrypt p (x # xs) cb =
     (let y = x XOR cb ! p;
          cb = cb[p := (if encrypt then y else x)];
          (ys, cb) = gcm_xor_loop encrypt (Suc p) xs cb
      in (y # ys, cb))"

definition gcm_run_tail :: "br_gcm_context \<Rightarrow> bool \<Rightarrow> bytes \<Rightarrow> br_gcm_context \<times> bytes" where
  "gcm_run_tail ctx encrypt data =
     (let dlen = 16 * (length data div 16);
          full = take dlen data;
          ctx = (if \<not> encrypt then ctx\<lparr>gc_y := gc_gh ctx (gc_y ctx) (gc_h ctx) full\<rparr> else ctx);
          (jc, full) = gc_run ctx (gc_j0_1 ctx) (gc_jc ctx) full;
          ctx = ctx\<lparr>gc_jc := jc\<rparr>;
          ctx = (if encrypt then ctx\<lparr>gc_y := gc_gh ctx (gc_y ctx) (gc_h ctx) full\<rparr> else ctx);
          data = drop dlen data;
          ctx = ctx\<lparr>gc_count_ctr := gc_count_ctr ctx + of_nat dlen\<rparr>
      in if 0 < length data then
           let cb = replicate 16 0;
               (jc, cb) = gc_run ctx (gc_j0_1 ctx) (gc_jc ctx) cb;
               ctx = ctx\<lparr>gc_jc := jc\<rparr>;
               (out, cb) = gcm_xor_loop encrypt 0 data cb
           in (ctx\<lparr>gc_buf := cb, gc_count_ctr := gc_count_ctr ctx + of_nat (length data)\<rparr>, full @ out)
         else (ctx, full))"

definition br_gcm_run :: "br_gcm_context \<Rightarrow> bool \<Rightarrow> bytes \<Rightarrow> br_gcm_context \<times> bytes" where
  "br_gcm_run ctx encrypt data =
     (let ptr = unat (gc_count_ctr ctx AND 15)
      in if ptr \<noteq> 0 then
           let clen = min (16 - ptr) (length data);
               (out, cb) = gcm_xor_loop encrypt ptr (take clen data) (gc_buf ctx);
               ctx = ctx\<lparr>gc_buf := cb, gc_count_ctr := gc_count_ctr ctx + of_nat clen\<rparr>
           in if ptr + clen < 16 then (ctx, out)
              else
                let ctx = ctx\<lparr>gc_y := gc_gh ctx (gc_y ctx) (gc_h ctx) (gc_buf ctx)\<rparr>;
                    (ctx, rest) = gcm_run_tail ctx encrypt (drop clen data)
                in (ctx, out @ rest)
         else gcm_run_tail ctx encrypt data)"

definition br_gcm_get_tag :: "br_gcm_context \<Rightarrow> br_gcm_context \<times> bytes" where
  "br_gcm_get_tag ctx =
     (let ptr = unat (gc_count_ctr ctx AND 15);
          ctx = (if 0 < ptr
            then ctx\<lparr>gc_y := gc_gh ctx (gc_y ctx) (gc_h ctx) (take ptr (gc_buf ctx))\<rparr> else ctx);
          tmp = br_enc64be (push_bit 3 (gc_count_aad ctx)) @ br_enc64be (push_bit 3 (gc_count_ctr ctx));
          ctx = ctx\<lparr>gc_y := gc_gh ctx (gc_y ctx) (gc_h ctx) tmp\<rparr>;
          (_, tag) = gc_run ctx (gc_j0_1 ctx) (gc_j0_2 ctx) (gc_y ctx)
      in (ctx, tag))"

definition br_gcm_get_tag_trunc :: "br_gcm_context \<Rightarrow> nat \<Rightarrow> br_gcm_context \<times> bytes" where
  "br_gcm_get_tag_trunc ctx len = (let (ctx, tmp) = br_gcm_get_tag ctx in (ctx, take len tmp))"

fun gcm_tag_diff :: "bytes \<Rightarrow> bytes \<Rightarrow> nat \<Rightarrow> u32 \<Rightarrow> u32" where
  "gcm_tag_diff tmp tag 0 x = x"
| "gcm_tag_diff tmp tag (Suc n) x =
     (let x = gcm_tag_diff tmp tag n x in x OR ucast (tmp ! n XOR tag ! n))"

definition br_gcm_check_tag_trunc :: "br_gcm_context \<Rightarrow> bytes \<Rightarrow> nat \<Rightarrow> br_gcm_context \<times> u32" where
  "br_gcm_check_tag_trunc ctx tag len =
     (let (ctx, tmp) = br_gcm_get_tag ctx;
          x = gcm_tag_diff tmp tag len 0
      in (ctx, EQ0 x))"

definition br_gcm_check_tag :: "br_gcm_context \<Rightarrow> bytes \<Rightarrow> br_gcm_context \<times> u32" where
  "br_gcm_check_tag ctx tag = br_gcm_check_tag_trunc ctx tag 16"

text \<open>A caller that gives the message in chunks.\<close>

fun gcm_run_chunks :: "bool \<Rightarrow> br_gcm_context \<Rightarrow> bytes list \<Rightarrow> br_gcm_context \<times> bytes" where
  "gcm_run_chunks encrypt ctx [] = (ctx, [])"
| "gcm_run_chunks encrypt ctx (d # ds) =
     (let (ctx, out) = br_gcm_run ctx encrypt d;
          (ctx, rest) = gcm_run_chunks encrypt ctx ds
      in (ctx, out @ rest))"

definition gcm_session :: "bool \<Rightarrow> br_gcm_context \<Rightarrow> (bytes \<Rightarrow> u32 \<Rightarrow> bytes \<Rightarrow> u32 \<times> bytes)
    \<Rightarrow> (bytes \<Rightarrow> bytes \<Rightarrow> bytes \<Rightarrow> bytes) \<Rightarrow> bytes \<Rightarrow> bytes list \<Rightarrow> bytes list \<Rightarrow> br_gcm_context \<times> bytes" where
  "gcm_session encrypt ctx bctx gh iv As ds =
     (let ctx = br_gcm_init ctx bctx gh;
          ctx = br_gcm_reset ctx iv;
          ctx = foldl br_gcm_aad_inject ctx As;
          ctx = br_gcm_flip ctx
      in gcm_run_chunks encrypt ctx ds)"

section \<open>SP 800-38D\<close>

definition pad16 :: "bytes \<Rightarrow> bytes" where
  "pad16 xs = xs @ replicate ((16 - length xs mod 16) mod 16) 0"

definition gcm_H :: "(bytes \<Rightarrow> bytes) \<Rightarrow> u128" where
  "gcm_H E = be_word (E (replicate 16 0))"

definition gcm_J0 :: "(bytes \<Rightarrow> bytes) \<Rightarrow> bytes \<Rightarrow> bytes \<times> u32" where
  "gcm_J0 E iv =
     (if length iv = 12 then (iv, 1)
      else let s = be_bytes 16 (ghash_ref (gcm_H E) 0
                 (pad16 iv @ replicate 8 0 @ be_bytes 8 (of_nat (8 * length iv) :: u64)))
           in (take 12 s, be_word (drop 12 s)))"

definition gcm_crypt :: "(bytes \<Rightarrow> bytes) \<Rightarrow> bytes \<Rightarrow> bytes \<Rightarrow> bytes" where
  "gcm_crypt E iv data = (let (v, j) = gcm_J0 E iv in ctr_ref E v (j + 1) data)"

definition gcm_tag :: "(bytes \<Rightarrow> bytes) \<Rightarrow> bytes \<Rightarrow> bytes \<Rightarrow> bytes \<Rightarrow> bytes" where
  "gcm_tag E iv A C =
     (let (v, j) = gcm_J0 E iv;
          S = ghash_ref (gcm_H E) 0 (pad16 A @ pad16 C @ be_bytes 8 (of_nat (8 * length A) :: u64)
                @ be_bytes 8 (of_nat (8 * length C) :: u64))
      in xor_bytes (be_bytes 16 S) (E (v @ be_bytes 4 j)))"

section \<open>Bytes, blocks and offsets\<close>

lemma split16:
  obtains q r where "n = 16 * q + r" "r < (16::nat)" "n div 16 = q" "n mod 16 = r"
proof
  show "n = 16 * (n div 16) + n mod 16" "n mod 16 < 16" by simp_all
qed simp_all

lemma count_and_15 [simp]: "unat ((of_nat n :: u64) AND 15) = n mod 16"
proof -
  have "unat ((of_nat n :: u64) AND 15) = take_bit 64 n AND mask 4"
    by (simp add: unsigned_and_eq unsigned_of_nat mask_numeral)
  also have "\<dots> = n mod 16"
    by (simp only: take_bit_eq_mask [symmetric] take_bit_take_bit) (simp add: take_bit_eq_mod)
  finally show ?thesis .
qed

definition full16 :: "bytes \<Rightarrow> bytes" where
  "full16 xs = take (16 * (length xs div 16)) xs"

definition part16 :: "bytes \<Rightarrow> bytes" where
  "part16 xs = drop (16 * (length xs div 16)) xs"

lemma full_part [simp]: "full16 xs @ part16 xs = xs"
  by (simp add: full16_def part16_def)

lemma length_full16: "length (full16 xs) = 16 * (length xs div 16)"
  by (simp add: full16_def)

lemma length_part16 [simp]: "length (part16 xs) = length xs mod 16"
  by (simp add: part16_def minus_mult_div_eq_mod)

lemma full16_add:
  assumes "length xs mod 16 + length ys < 16"
  shows "full16 (xs @ ys) = full16 xs \<and> part16 (xs @ ys) = part16 xs @ ys"
proof -
  obtain q r where n: "length xs = 16 * q + r" "r < 16" "length xs div 16 = q" "length xs mod 16 = r"
    by (rule split16)
  then have "(length xs + length ys) div 16 = q" using assms by (intro div_nat_eqI) simp_all
  then show ?thesis using n by (simp add: full16_def part16_def)
qed

lemma full16_aligned:
  assumes "length xs mod 16 = 0"
  shows "full16 (xs @ ys) = xs @ full16 ys" "part16 (xs @ ys) = part16 ys"
    "(length xs + length ys) mod 16 = length ys mod 16"
    "(length xs + length ys) div 16 = length xs div 16 + length ys div 16"
proof -
  obtain q r where n: "length xs = 16 * q + r" "r < 16" "length xs div 16 = q" "length xs mod 16 = r"
    by (rule split16)
  then have xs: "length xs = 16 * q" using assms by simp
  have m: "(16 * q + k) mod 16 = k mod 16" "(16 * q + k) div 16 = q + k div 16" for k by simp_all
  show "(length xs + length ys) mod 16 = length ys mod 16"
    "(length xs + length ys) div 16 = length xs div 16 + length ys div 16"
    unfolding n(3) unfolding xs by (rule m)+
  show "full16 (xs @ ys) = xs @ full16 ys" "part16 (xs @ ys) = part16 ys"
    unfolding full16_def part16_def length_append xs m by (simp_all add: xs)
qed

lemma full16_whole: "length xs mod 16 = 0 \<Longrightarrow> full16 xs = xs \<and> part16 xs = []"
  using full16_aligned(1,2) [of xs "[]"] by (simp add: full16_def part16_def)

lemma full16_split:
  "length f mod 16 = 0 \<Longrightarrow> length p < 16 \<Longrightarrow> full16 (f @ p) = f \<and> part16 (f @ p) = p"
  using full16_aligned(1,2) [of f p] by (simp add: full16_def [of p] part16_def [of p])

lemma full16_fill:
  assumes "length xs mod 16 + length ys = 16"
  shows "(length xs + length ys) mod 16 = 0" "(length xs + length ys) div 16 = Suc (length xs div 16)"
    "full16 (xs @ ys) = xs @ ys" "part16 (xs @ ys) = []"
proof -
  obtain q r where n: "length xs = 16 * q + r" "r < 16" "length xs div 16 = q" "length xs mod 16 = r"
    by (rule split16)
  then have l: "length xs + length ys = 16 * Suc q" using assms by simp
  show "(length xs + length ys) div 16 = Suc (length xs div 16)"
    unfolding l n(3) by (rule nonzero_mult_div_cancel_left) simp
  show m: "(length xs + length ys) mod 16 = 0" unfolding l by (rule mod_mult_self1_is_0)
  show "full16 (xs @ ys) = xs @ ys" "part16 (xs @ ys) = []"
    using full16_whole [of "xs @ ys"] m by simp_all
qed

lemma ghash_ref_full: "ghash_ref h (ghash_ref h y (full16 xs)) ys = ghash_ref h y (full16 xs @ ys)"
  using ghash_ref_append [OF length_full16] by simp

lemma ghash_ref_aligned:
  "length xs mod 16 = 0 \<Longrightarrow> ghash_ref h (ghash_ref h y xs) ys = ghash_ref h y (xs @ ys)"
  using ghash_ref_full [of h y xs ys] full16_whole [of xs] by simp

lemma ghash_ref_pad16: "ghash_ref h y (pad16 xs @ ys) = ghash_ref h (ghash_ref h y xs) ys"
proof -
  obtain q r where n: "length xs = 16 * q + r" "r < 16" "length xs mod 16 = r" by (rule split16)
  show ?thesis
  proof (cases "r = 0")
    case True
    then show ?thesis using n ghash_ref_append [of xs q] by (simp add: pad16_def)
  next
    case False
    then have "length (pad16 xs) = 16 * Suc q" "length xs + (16 - r) mod 16 = 16 * Suc q"
      using n by (simp_all add: pad16_def)
    then show ?thesis
      using ghash_ref_append [of "pad16 xs" "Suc q" h y ys] ghash_ref_pad [of xs "(16 - r) mod 16" "Suc q" h y] n
      by (simp add: pad16_def)
  qed
qed

text \<open>The key stream by absolute byte offset.\<close>

definition ks_byte :: "(bytes \<Rightarrow> bytes) \<Rightarrow> bytes \<Rightarrow> u32 \<Rightarrow> nat \<Rightarrow> u8" where
  "ks_byte E v c i = E (v @ be_bytes 4 (c + of_nat (i div 16))) ! (i mod 16)"

definition ctr_at :: "(bytes \<Rightarrow> bytes) \<Rightarrow> bytes \<Rightarrow> u32 \<Rightarrow> nat \<Rightarrow> bytes \<Rightarrow> bytes" where
  "ctr_at E v c off d = map (\<lambda>i. d ! i XOR ks_byte E v c (off + i)) [0..<length d]"

lemma length_ctr_at [simp]: "length (ctr_at E v c off d) = length d"
  by (simp add: ctr_at_def)

lemma ctr_at_append: "ctr_at E v c off (a @ b) = ctr_at E v c off a @ ctr_at E v c (off + length a) b"
  by (rule nth_equalityI) (auto simp: ctr_at_def nth_append)

lemma ctr_at_block:
  assumes "length (E (v @ be_bytes 4 (c + of_nat q))) = 16" and "r + length d \<le> 16"
  shows "ctr_at E v c (16 * q + r) d = xor_bytes d (drop r (E (v @ be_bytes 4 (c + of_nat q))))"
proof (rule nth_equalityI)
  fix i assume "i < length (ctr_at E v c (16 * q + r) d)"
  then have i: "i < length d" by simp
  then have "(16 * q + r + i) div 16 = q" "(16 * q + r + i) mod 16 = r + i"
    using assms(2) by (intro div_nat_eqI mod_nat_eqI; simp)+
  with i assms show "ctr_at E v c (16 * q + r) d ! i
      = xor_bytes d (drop r (E (v @ be_bytes 4 (c + of_nat q)))) ! i"
    by (simp add: ctr_at_def ks_byte_def)
qed (use assms in simp)

lemma ctr_ref_at:
  assumes "\<And>b. length (E b) = 16"
  shows "ctr_ref E v (c + of_nat q) d = ctr_at E v c (16 * q) d"
proof (induction d arbitrary: q rule: length_induct)
  case (1 d)
  show ?case
  proof (cases "d = []")
    case True
    then show ?thesis by (simp add: ctr_ref.simps ctr_at_def)
  next
    case False
    have "ctr_at E v c (16 * q) d = ctr_at E v c (16 * q + 0) (take 16 d) @ ctr_at E v c (16 * q + length (take 16 d)) (drop 16 d)"
      using ctr_at_append [of E v c "16 * q" "take 16 d" "drop 16 d"] by simp
    also have "ctr_at E v c (16 * q + 0) (take 16 d) = xor_bytes (take 16 d) (E (v @ be_bytes 4 (c + of_nat q)))"
      by (subst ctr_at_block) (simp_all add: assms)
    also have "ctr_at E v c (16 * q + length (take 16 d)) (drop 16 d) = ctr_ref E v (c + of_nat (Suc q)) (drop 16 d)"
    proof (cases "16 \<le> length d")
      case True
      have "16 * q + length (take 16 d) = 16 * Suc q" using True by simp
      moreover have "ctr_ref E v (c + of_nat (Suc q)) (drop 16 d) = ctr_at E v c (16 * Suc q) (drop 16 d)"
        using False by (intro 1 [rule_format]) simp
      ultimately show ?thesis by (simp only:)
    next
      case False
      then show ?thesis by (simp add: ctr_ref.simps [of E v _ "[]"] ctr_at_def)
    qed
    finally show ?thesis using False by (simp add: ctr_ref.simps [of E v _ d] ac_simps)
  qed
qed

lemma gcm_xor_loop_eq:
  assumes "p + length xs \<le> length cb"
  shows "gcm_xor_loop encrypt p xs cb = (xor_bytes xs (drop p cb),
    memcpy_at p (if encrypt then xor_bytes xs (drop p cb) else xs) cb)"
  using assms
proof (induction encrypt p xs cb rule: gcm_xor_loop.induct)
  case (1 encrypt p cb)
  then show ?case by (simp add: memcpy_at_def)
next
  case (2 encrypt p x xs cb)
  then have "drop p cb = cb ! p # drop (Suc p) cb" by (simp add: Cons_nth_drop_Suc)
  moreover have "drop (Suc p) (cb[p := z]) = drop (Suc p) cb" for z by simp
  ultimately show ?case using 2
    by (simp add: Let_def xor_bytes_def memcpy_at_def take_Suc_conv_app_nth)
qed

lemma xor_zeros: "length xs = n \<Longrightarrow> xor_bytes (replicate n 0) xs = xs"
  by (rule nth_equalityI) simp_all

lemma memcpy_at_parts:
  assumes "r + length e \<le> length b"
  shows "take (r + length e) (memcpy_at r e b) = take r b @ e"
    "drop (r + length e) (memcpy_at r e b) = drop (r + length e) b" "length (memcpy_at r e b) = length b"
  using assms by (simp_all add: memcpy_at_def)

lemma be_bytes_zero: "be_bytes n 0 = replicate n 0"
  by (simp add: be_bytes_def le_bytes_def map_replicate_const)

lemma push_bit_3_nat: "push_bit 3 (of_nat n :: u64) = of_nat (8 * n)"
  by (simp add: push_bit_eq_mult)

lemma ucast_u8_zero: "(ucast (a :: u8) :: u32) = 0 \<longleftrightarrow> a = 0"
proof -
  have "take_bit 32 (unat a) = unat a" using unsigned_less [of a, where ?'a = nat] by (intro take_bit_nat_eq_self) simp
  then show ?thesis by (simp add: word_unat_eq_iff unsigned_ucast_eq)
qed

lemma gcm_tag_diff_zero: "gcm_tag_diff tmp tag n 0 = 0 \<longleftrightarrow> (\<forall>i < n. tag ! i = tmp ! i)"
proof (induction n)
  case (Suc n)
  have "(ucast (a XOR b) :: u32) = 0 \<longleftrightarrow> b = a" for a b :: u8
    by (metis ucast_u8_zero xor_self_eq xor.left_neutral xor.assoc xor.right_neutral)
  moreover have "(x :: u32) OR y = 0 \<longleftrightarrow> x = 0 \<and> y = 0" for x y by (rule or_eq_0_iff)
  ultimately show ?case using Suc by (simp add: Let_def less_Suc_eq) blast
qed simp

lemma length_gcm_tag: "(\<And>b. length (E b) = 16) \<Longrightarrow> length (gcm_tag E iv A C) = 16"
  by (simp add: gcm_tag_def Let_def split: prod.splits)

lemma gcm_crypt_crypt:
  assumes "\<And>b. length (E b) = 16"
  shows "gcm_crypt E iv (gcm_crypt E iv d) = d"
proof -
  have at: "ctr_ref E v c d = ctr_at E v c 0 d" for v c d
    using ctr_ref_at [OF assms, where v = v and c = c and q = 0 and d = d] by simp
  show ?thesis
    by (auto simp: gcm_crypt_def at ctr_at_def xor.assoc intro!: nth_equalityI split: prod.splits)
qed

section \<open>What GCM asks of its primitives\<close>

locale gcm_prims =
  fixes run :: "bytes \<Rightarrow> u32 \<Rightarrow> bytes \<Rightarrow> u32 \<times> bytes"
    and gh :: "bytes \<Rightarrow> bytes \<Rightarrow> bytes \<Rightarrow> bytes"
    and E :: "bytes \<Rightarrow> bytes"
  assumes run_ref: "length iv = 12 \<Longrightarrow> run iv cc data = (cc + of_nat (length data div 16), ctr_ref E iv cc data)"
    and gh_ref: "length y = 16 \<Longrightarrow> length h = 16 \<Longrightarrow>
      gh y h data = be_bytes 16 (ghash_ref (be_word h) (be_word y) data)"
    and E_len: "length (E b) = 16"
begin

definition ready :: "bytes \<Rightarrow> u32 \<Rightarrow> br_gcm_context \<Rightarrow> bool" where
  "ready v j ctx \<longleftrightarrow> gc_run ctx = run \<and> gc_gh ctx = gh \<and> gc_h ctx = E (replicate 16 0)
     \<and> gc_j0_1 ctx = v \<and> gc_j0_2 ctx = j \<and> length v = 12 \<and> length (gc_buf ctx) = 16"

definition aad_inv :: "bytes \<Rightarrow> u32 \<Rightarrow> bytes \<Rightarrow> br_gcm_context \<Rightarrow> bool" where
  "aad_inv v j A ctx \<longleftrightarrow> ready v j ctx \<and> gc_jc ctx = j + 1 \<and> gc_count_ctr ctx = 0
     \<and> gc_count_aad ctx = of_nat (length A)
     \<and> gc_y ctx = be_bytes 16 (ghash_ref (gcm_H E) 0 (full16 A))
     \<and> take (length A mod 16) (gc_buf ctx) = part16 A"

definition data_inv :: "bytes \<Rightarrow> u32 \<Rightarrow> bytes \<Rightarrow> bytes \<Rightarrow> br_gcm_context \<Rightarrow> bool" where
  "data_inv v j A C ctx \<longleftrightarrow> ready v j ctx
     \<and> gc_jc ctx = j + 1 + of_nat (length C div 16) + (if length C mod 16 = 0 then 0 else 1)
     \<and> gc_count_aad ctx = of_nat (length A) \<and> gc_count_ctr ctx = of_nat (length C)
     \<and> gc_y ctx = be_bytes 16 (ghash_ref (gcm_H E) (ghash_ref (gcm_H E) 0 A) (full16 C))
     \<and> take (length C mod 16) (gc_buf ctx) = part16 C
     \<and> (length C mod 16 \<noteq> 0 \<longrightarrow> drop (length C mod 16) (gc_buf ctx)
           = drop (length C mod 16) (E (v @ be_bytes 4 (j + 1 + of_nat (length C div 16)))))"

lemma gh_be: "ready v j ctx \<Longrightarrow>
  gc_gh ctx (be_bytes 16 y) (gc_h ctx) d = be_bytes 16 (ghash_ref (gcm_H E) y d)"
  by (simp add: ready_def gh_ref E_len gcm_H_def be_word_be_bytes)

lemma ready_upd [simp]:
  "ready v j (ctx\<lparr>gc_y := y\<rparr>) = ready v j ctx" "ready v j (ctx\<lparr>gc_jc := c\<rparr>) = ready v j ctx"
  "ready v j (ctx\<lparr>gc_count_aad := n\<rparr>) = ready v j ctx" "ready v j (ctx\<lparr>gc_count_ctr := n\<rparr>) = ready v j ctx"
  "length b = 16 \<Longrightarrow> ready v j ctx \<Longrightarrow> ready v j (ctx\<lparr>gc_buf := b\<rparr>)"
  by (simp_all add: ready_def)

lemma aad_tail_inv:
  assumes "aad_inv v j A ctx" and A: "length A mod 16 = 0"
  shows "aad_inv v j (A @ d) (br_gcm_aad_tail ctx d)"
proof -
  have inv: "ready v j ctx" "gc_jc ctx = j + 1" "gc_count_ctr ctx = 0" "gc_count_aad ctx = of_nat (length A)"
    "gc_y ctx = be_bytes 16 (ghash_ref (gcm_H E) 0 (full16 A))" "length (gc_buf ctx) = 16"
    using assms(1) by (auto simp: aad_inv_def ready_def)
  have y: "gc_gh ctx (gc_y ctx) (gc_h ctx) (full16 d)
      = be_bytes 16 (ghash_ref (gcm_H E) 0 (full16 (A @ d)))"
    using full16_whole [OF A] by (simp add: inv(5) gh_be [OF inv(1)] ghash_ref_aligned [OF A] full16_aligned [OF A])
  have lt: "length (part16 d) \<le> 16" by simp
  have "br_gcm_aad_tail ctx d = ctx\<lparr>gc_y := gc_gh ctx (gc_y ctx) (gc_h ctx) (full16 d),
      gc_buf := memcpy_at 0 (part16 d) (gc_buf ctx), gc_count_aad := gc_count_aad ctx + of_nat (length d)\<rparr>"
    by (simp add: br_gcm_aad_tail_def Let_def full16_def part16_def)
  then show ?thesis
    using inv y lt by (simp add: aad_inv_def full16_aligned [OF A] memcpy_at_def)
qed

lemma aad_inject_inv:
  assumes "aad_inv v j A ctx"
  shows "aad_inv v j (A @ d) (br_gcm_aad_inject ctx d)"
proof -
  let ?r = "length A mod 16"
  have inv: "ready v j ctx" "gc_count_aad ctx = of_nat (length A)"
    "gc_y ctx = be_bytes 16 (ghash_ref (gcm_H E) 0 (full16 A))" "length (gc_buf ctx) = 16"
    "take ?r (gc_buf ctx) = part16 A"
    using assms by (auto simp: aad_inv_def ready_def)
  have r: "?r < 16" by simp
  consider "?r = 0" | "?r \<noteq> 0" "length d < 16 - ?r" | "?r \<noteq> 0" "16 - ?r \<le> length d" by linarith
  then show ?thesis
  proof cases
    case 1
    then show ?thesis using aad_tail_inv [OF assms] by (simp add: br_gcm_aad_inject_def inv(2))
  next
    case 2
    then have lt: "?r + length d < 16" by simp
    have m: "(length A + length d) mod 16 = ?r + length d"
      using length_part16 [of "A @ d"] full16_add [OF lt] by simp
    have "br_gcm_aad_inject ctx d = ctx\<lparr>gc_buf := memcpy_at ?r d (gc_buf ctx),
        gc_count_aad := gc_count_aad ctx + of_nat (length d)\<rparr>"
      using 2 by (simp add: br_gcm_aad_inject_def inv(2))
    then show ?thesis
      using assms inv lt by (simp add: aad_inv_def full16_add [OF lt] m memcpy_at_def)
  next
    case 3
    let ?d = "drop (16 - ?r) d"
    define c where "c = take (16 - ?r) d"
    define b where "b = memcpy_at ?r c (gc_buf ctx)"
    have c: "length c = 16 - ?r" using 3 by (simp add: c_def)
    then have fl: "?r + length c = 16" using r by simp
    note al = full16_fill [OF fl]
    have b: "b = part16 A @ c" using c inv r by (simp add: b_def memcpy_at_def)
    define ctx' where "ctx' = ctx\<lparr>gc_buf := b, gc_y := gc_gh ctx (gc_y ctx) (gc_h ctx) b,
      gc_count_aad := gc_count_aad ctx + of_nat (length c)\<rparr>"
    have "br_gcm_aad_inject ctx d = br_gcm_aad_tail ctx' ?d"
      using 3 by (simp add: br_gcm_aad_inject_def inv(2) ctx'_def b_def c Let_def flip: c_def)
    moreover have "gc_gh ctx (gc_y ctx) (gc_h ctx) b = be_bytes 16 (ghash_ref (gcm_H E) 0 (A @ c))"
      by (simp add: inv(3) gh_be [OF inv(1)] ghash_ref_full b flip: append_assoc)
    then have "aad_inv v j (A @ c) ctx'"
      using assms fl al b by (simp add: aad_inv_def ctx'_def)
    moreover have "A @ d = (A @ c) @ ?d" by (simp add: c_def)
    ultimately show ?thesis using aad_tail_inv [of v j "A @ c" ctx' ?d] al(1) by simp
  qed
qed

lemma flip_inv:
  assumes "aad_inv v j A ctx"
  shows "data_inv v j A [] (br_gcm_flip ctx)"
proof -
  have inv: "ready v j ctx" "gc_count_aad ctx = of_nat (length A)" "gc_count_ctr ctx = 0" "gc_jc ctx = j + 1"
    "gc_y ctx = be_bytes 16 (ghash_ref (gcm_H E) 0 (full16 A))"
    "take (length A mod 16) (gc_buf ctx) = part16 A"
    using assms by (auto simp: aad_inv_def)
  have "gc_gh ctx (gc_y ctx) (gc_h ctx) (part16 A) = be_bytes 16 (ghash_ref (gcm_H E) 0 A)"
    by (simp add: inv(5) gh_be [OF inv(1)] ghash_ref_full)
  moreover have "ghash_ref (gcm_H E) y (full16 []) = y" for y
    by (simp add: full16_def ghash_ref.simps)
  ultimately show ?thesis
    using inv full16_whole [of A] by (simp add: data_inv_def br_gcm_flip_def Let_def part16_def [of "[]"])
qed

text \<open>
  The whole blocks and the last partial block of a chunk that starts on a block boundary; \<open>e\<close> is the
  encrypted side of the chunk, \<open>B\<close> the key stream block of the partial block.
\<close>

lemma run_tail_eq:
  assumes inv: "data_inv v j A C ctx" and C: "length C mod 16 = 0"
    and out: "out = ctr_at E v (j + 1) (length C) d" and e: "e = (if encrypt then out else d)"
    and B: "B = E (v @ be_bytes 4 (j + 1 + of_nat (length C div 16 + length d div 16)))"
  shows "gcm_run_tail ctx encrypt d = (ctx\<lparr>gc_y := gc_gh ctx (gc_y ctx) (gc_h ctx) (full16 e),
      gc_jc := j + 1 + of_nat (length C div 16 + length d div 16) + (if part16 d = [] then 0 else 1),
      gc_buf := (if part16 d = [] then gc_buf ctx else memcpy_at 0 (part16 e) B),
      gc_count_ctr := of_nat (length C + length d)\<rparr>, out)"
proof -
  have rd: "gc_run ctx = run" "gc_j0_1 ctx = v" "length v = 12" and cnt: "gc_count_ctr ctx = of_nat (length C)"
    and jc: "gc_jc ctx = j + 1 + of_nat (length C div 16)"
    using inv C by (auto simp: data_inv_def ready_def)
  obtain q where q: "length C = 16 * q" "length C div 16 = q"
    using C by (metis div_mult_mod_eq add_0_right mult.commute)
  let ?c = "j + 1" and ?k = "length d div 16"
  have r1: "run v (gc_jc ctx) (full16 d) = (?c + of_nat (q + ?k), ctr_at E v ?c (length C) (full16 d))"
    using run_ref [OF rd(3)] ctr_ref_at [OF E_len, where v = v and c = ?c and q = q and d = "full16 d"]
    by (simp add: jc q length_full16 add.assoc)
  have r2: "run v (?c + of_nat (q + ?k)) (replicate 16 0) = (?c + of_nat (q + ?k) + 1, B)"
    by (simp add: run_ref [OF rd(3)] ctr_ref.simps [of E] B q E_len xor_zeros del: of_nat_add)
  have o: "out = ctr_at E v ?c (length C) (full16 d) @ xor_bytes (part16 d) B"
    using ctr_at_append [of E v ?c "length C" "full16 d" "part16 d"]
      ctr_at_block [where E = E and v = v and c = ?c and q = "q + ?k" and r = 0 and d = "part16 d"]
    by (simp add: out q length_full16 B E_len less_imp_le distrib_left)
  have fp: "full16 e = (if encrypt then ctr_at E v ?c (length C) (full16 d) else full16 d)"
    "part16 e = (if encrypt then xor_bytes (part16 d) B else part16 d)"
    using full16_split [of "ctr_at E v ?c (length C) (full16 d)" "xor_bytes (part16 d) B"]
    by (simp_all add: e o length_full16 B E_len)
  have x: "gcm_xor_loop encrypt 0 (part16 d) B = (xor_bytes (part16 d) B, memcpy_at 0 (part16 e) B)"
    using gcm_xor_loop_eq [of 0 "part16 d" B encrypt] by (simp add: fp B E_len less_imp_le)
  have pe: "part16 d = [] \<longleftrightarrow> length d \<le> 16 * ?k" by (simp add: part16_def)
  have dl: "length d = 16 * ?k + length d mod 16" by simp
  have len: "of_nat (length C + length d) = of_nat (length C) + of_nat (16 * ?k) + (of_nat (length d mod 16) :: u64)"
    by (subst dl) (simp only: of_nat_add add.assoc)
  have z: "part16 d = [] \<Longrightarrow> length d mod 16 = 0" using length_part16 [of d] by simp
  show ?thesis
  proof (cases "part16 d = []")
    case True
    then show ?thesis
      using r1 o fp(1) rd(1,2) cnt z pe len
      by (cases encrypt) (simp_all add: gcm_run_tail_def Let_def q flip: full16_def part16_def)
  next
    case False
    then show ?thesis
      using r1 r2 x o fp(1) rd(1,2) cnt pe len
      by (cases encrypt) (simp_all add: gcm_run_tail_def Let_def q flip: full16_def part16_def)
  qed
qed

lemma run_tail_inv:
  assumes inv: "data_inv v j A C ctx" and C: "length C mod 16 = 0"
    and run: "gcm_run_tail ctx encrypt d = (ctx', out)"
  shows "out = ctr_at E v (j + 1) (length C) d \<and> data_inv v j A (C @ (if encrypt then out else d)) ctx'"
proof -
  define e where "e = (if encrypt then ctr_at E v (j + 1) (length C) d else d)"
  define B where "B = E (v @ be_bytes 4 (j + 1 + of_nat (length C div 16 + length d div 16)))"
  note eq = run_tail_eq [OF inv C refl e_def B_def]
  have le: "length e = length d" by (simp add: e_def)
  then have pe: "length (part16 e) = length d mod 16" "part16 d = [] \<longleftrightarrow> length d mod 16 = 0"
    using length_part16 [of d] by (simp_all flip: length_0_conv)
  have B: "length B = 16" by (simp add: B_def E_len)
  have rd: "ready v j ctx" and y: "gc_y ctx = be_bytes 16 (ghash_ref (gcm_H E) (ghash_ref (gcm_H E) 0 A) C)"
    and aad: "gc_count_aad ctx = of_nat (length A)"
    using inv full16_whole [OF C] by (auto simp: data_inv_def)
  have gy: "gc_gh ctx (gc_y ctx) (gc_h ctx) (full16 e)
      = be_bytes 16 (ghash_ref (gcm_H E) (ghash_ref (gcm_H E) 0 A) (C @ full16 e))"
    by (simp add: y gh_be [OF rd] ghash_ref_aligned [OF C])
  have buf: "length d mod 16 \<noteq> 0 \<Longrightarrow> take (length d mod 16) (memcpy_at 0 (part16 e) B) = part16 e"
    "length d mod 16 \<noteq> 0 \<Longrightarrow> drop (length d mod 16) (memcpy_at 0 (part16 e) B) = drop (length d mod 16) B"
    "length (memcpy_at 0 (part16 e) B) = 16"
    using pe B by (simp_all add: memcpy_at_def less_imp_le)
  have "part16 e = []" if "length d mod 16 = 0" using that le full16_whole [of e] by simp
  then have "data_inv v j A (C @ e) ctx'"
    using rd gy aad buf eq run unfolding data_inv_def length_append full16_aligned [OF C] le
    by (cases "length d mod 16 = 0") (auto simp: pe B_def add.assoc)
  moreover have "out = ctr_at E v (j + 1) (length C) d" using eq run by simp
  ultimately show ?thesis by (auto simp only: e_def)
qed

lemma partial_inv:
  assumes inv: "data_inv v j A C ctx" and r: "r = length C mod 16" "r \<noteq> 0" and lt: "r + length e < 16"
  shows "data_inv v j A (C @ e) (ctx\<lparr>gc_buf := memcpy_at r e (gc_buf ctx),
    gc_count_ctr := of_nat (length C + length e)\<rparr>)"
proof -
  have add: "full16 (C @ e) = full16 C" "part16 (C @ e) = part16 C @ e"
    using full16_add [of C e] lt r(1) by auto
  have m: "(length C + length e) mod 16 = r + length e" "(length C + length e) div 16 = length C div 16"
    using arg_cong [OF add(2), of length] arg_cong [OF add(1), of length] r(1) by (simp_all add: length_full16)
  have st: "take r (gc_buf ctx) = part16 C" "length (gc_buf ctx) = 16"
    "drop r (gc_buf ctx) = drop r (E (v @ be_bytes 4 (j + 1 + of_nat (length C div 16))))"
    using inv r by (auto simp: data_inv_def ready_def)
  have "take (r + length e) (memcpy_at r e (gc_buf ctx)) = part16 C @ e"
    "drop (r + length e) (memcpy_at r e (gc_buf ctx))
      = drop (r + length e) (E (v @ be_bytes 4 (j + 1 + of_nat (length C div 16))))"
    "length (memcpy_at r e (gc_buf ctx)) = 16"
    using st(1,2) lt memcpy_at_parts [of r e "gc_buf ctx"] arg_cong [OF st(3), of "drop (length e)"]
    by (simp_all add: add.commute)
  with inv r show ?thesis
    unfolding data_inv_def length_append m add by simp
qed

lemma fill_inv:
  assumes inv: "data_inv v j A C ctx" and r: "r = length C mod 16" "r \<noteq> 0" and fl: "r + length e = 16"
  shows "data_inv v j A (C @ e) (ctx\<lparr>gc_buf := memcpy_at r e (gc_buf ctx),
    gc_count_ctr := of_nat (length C + length e),
    gc_y := gc_gh ctx (gc_y ctx) (gc_h ctx) (memcpy_at r e (gc_buf ctx))\<rparr>)"
proof -
  have rd: "ready v j ctx" "take r (gc_buf ctx) = part16 C" "length (gc_buf ctx) = 16"
    "gc_y ctx = be_bytes 16 (ghash_ref (gcm_H E) (ghash_ref (gcm_H E) 0 A) (full16 C))"
    using inv r by (auto simp: data_inv_def ready_def)
  have b: "memcpy_at r e (gc_buf ctx) = part16 C @ e"
    using rd fl by (simp add: memcpy_at_def)
  have "gc_gh ctx (gc_y ctx) (gc_h ctx) (part16 C @ e)
      = be_bytes 16 (ghash_ref (gcm_H E) (ghash_ref (gcm_H E) 0 A) (C @ e))"
    by (simp add: rd(4) gh_be [OF rd(1)] ghash_ref_full flip: append_assoc)
  then show ?thesis
    using inv r fl full16_fill [of C e] unfolding data_inv_def b by (simp add: add.assoc)
qed

lemma run_inv:
  assumes inv: "data_inv v j A C ctx" and run: "br_gcm_run ctx encrypt d = (ctx', out)"
  shows "out = ctr_at E v (j + 1) (length C) d \<and> data_inv v j A (C @ (if encrypt then out else d)) ctx'"
proof (cases "length C mod 16 = 0")
  case True
  then show ?thesis
    using run run_tail_inv [OF inv True] inv by (simp add: br_gcm_run_def data_inv_def)
next
  case False
  define r k where "r = length C mod 16" and "k = min (16 - r) (length d)"
  define d1 d2 where "d1 = take k d" and "d2 = drop k d"
  define o1 where "o1 = ctr_at E v (j + 1) (length C) d1"
  define e1 where "e1 = (if encrypt then o1 else d1)"
  define ctx1 where "ctx1 = ctx\<lparr>gc_buf := memcpy_at r e1 (gc_buf ctx), gc_count_ctr := of_nat (length C + k)\<rparr>"
  have d: "d = d1 @ d2" "length d1 = k" by (simp_all add: d1_def d2_def k_def)
  have rk: "0 < r" "r < 16" "r + k \<le> 16" using False by (auto simp: r_def k_def)
  have st: "gc_count_ctr ctx = of_nat (length C)" "take r (gc_buf ctx) = part16 C" "length (gc_buf ctx) = 16"
    "drop r (gc_buf ctx) = drop r (E (v @ be_bytes 4 (j + 1 + of_nat (length C div 16))))"
    using inv False by (auto simp: data_inv_def ready_def r_def)
  have "length C = 16 * (length C div 16) + r" by (simp add: r_def)
  then have x: "gcm_xor_loop encrypt r d1 (gc_buf ctx) = (o1, memcpy_at r e1 (gc_buf ctx))"
    using gcm_xor_loop_eq [of r d1 "gc_buf ctx" encrypt] rk d(2) st
      ctr_at_block [where E = E and v = v and c = "j + 1" and q = "length C div 16" and r = r and d = d1]
    by (simp add: o1_def e1_def E_len)
  have run1: "br_gcm_run ctx encrypt d = (if r + k < 16 then (ctx1, o1)
      else let (ctx, rest) = gcm_run_tail (ctx1\<lparr>gc_y := gc_gh ctx1 (gc_y ctx1) (gc_h ctx1) (gc_buf ctx1)\<rparr>)
             encrypt d2 in (ctx, o1 @ rest))"
    using x rk(1) st(1)
    by (simp add: br_gcm_run_def Let_def ctx1_def flip: r_def k_def d1_def d2_def)
  have le: "length e1 = k" by (simp add: e1_def o1_def d(2))
  show ?thesis
  proof (cases "r + k < 16")
    case True
    then have "d2 = []" by (auto simp: d2_def k_def)
    then show ?thesis
      using True run run1 d le partial_inv [OF inv r_def, of e1] rk(1)
      by (auto simp: ctx1_def e1_def o1_def)
  next
    case False
    with rk have fl: "r + length e1 = 16" using le by simp
    let ?ctx = "ctx1\<lparr>gc_y := gc_gh ctx1 (gc_y ctx1) (gc_h ctx1) (gc_buf ctx1)\<rparr>"
    obtain o2 where o2: "gcm_run_tail ?ctx encrypt d2 = (ctx', o2)" "out = o1 @ o2"
      using run run1 False by (auto simp: Let_def split: prod.splits)
    have i: "data_inv v j A (C @ e1) ?ctx"
      using fill_inv [OF inv r_def _ fl] rk(1) le by (simp add: ctx1_def)
    have "length (C @ e1) mod 16 = 0" using full16_fill(1) [of C e1] fl by (simp add: r_def)
    note t = run_tail_inv [OF i this o2(1), unfolded length_append le, THEN conjunct1]
      run_tail_inv [OF i this o2(1), THEN conjunct2]
    have "out = ctr_at E v (j + 1) (length C) d"
      unfolding o2(2) t(1) o1_def d(1) ctr_at_append d(2) ..
    moreover have "(C @ e1) @ (if encrypt then o2 else d2) = C @ (if encrypt then out else d)"
      by (simp add: e1_def o2(2) d(1))
    ultimately show ?thesis using t(2) by simp
  qed
qed

lemma init_h:
  "br_gcm_init ctx run gh = ctx\<lparr>gc_run := run, gc_gh := gh, gc_h := E (replicate 16 0)\<rparr>"
proof -
  have "ctr_ref E (replicate 12 0) 0 (replicate 16 0) = E (replicate 16 0)"
    by (simp add: ctr_ref.simps [of E _ _ "replicate 16 0"] ctr_ref.simps [of E _ _ "[]"] xor_zeros E_len
      be_bytes_zero flip: replicate_add)
  then show ?thesis by (simp add: br_gcm_init_def Let_def run_ref)
qed

lemma init_inv:
  assumes buf: "length (gc_buf ctx) = 16" and J: "gcm_J0 E iv = (v, j)"
  shows "aad_inv v j [] (br_gcm_reset (br_gcm_init ctx run gh) iv)"
proof (cases "length iv = 12")
  case True
  then show ?thesis using J buf
    by (simp add: init_h br_gcm_reset_def aad_inv_def ready_def gcm_J0_def full16_def part16_def be_bytes_zero
      ghash_ref.simps)
next
  case False
  define T where "T = br_enc64be (push_bit 3 (of_nat (length iv)))"
  define s where "s = be_bytes 16 (ghash_ref (gcm_H E) 0 (pad16 iv @ replicate 8 0 @ T))"
  have g: "gh (be_bytes 16 y) (E (replicate 16 0)) d = be_bytes 16 (ghash_ref (gcm_H E) y d)" for y d
    by (simp add: gh_ref E_len gcm_H_def be_word_be_bytes)
  have "gh (gh (replicate 16 0) (E (replicate 16 0)) iv) (E (replicate 16 0)) (replicate 8 0 @ T) = s"
    using g [of 0 iv] by (simp add: be_bytes_zero g s_def ghash_ref_pad16)
  moreover have "v = take 12 s" "j = br_dec32be (drop 12 s)"
    using J False by (simp_all add: gcm_J0_def Let_def s_def T_def enc64be_be_bytes dec32be_be_word push_bit_3_nat)
  ultimately show ?thesis using buf False
    by (simp add: init_h br_gcm_reset_def Let_def aad_inv_def ready_def full16_def part16_def be_bytes_zero
      ghash_ref.simps [of _ _ "[]"] s_def flip: T_def)
qed

lemma get_tag_inv:
  assumes inv: "data_inv v j A C ctx" and J: "gcm_J0 E iv = (v, j)"
  shows "snd (br_gcm_get_tag ctx) = gcm_tag E iv A C"
proof -
  have st: "ready v j ctx" "gc_count_aad ctx = of_nat (length A)" "gc_count_ctr ctx = of_nat (length C)"
    "gc_y ctx = be_bytes 16 (ghash_ref (gcm_H E) (ghash_ref (gcm_H E) 0 A) (full16 C))"
    "take (length C mod 16) (gc_buf ctx) = part16 C"
    using inv by (auto simp: data_inv_def)
  define T where "T = br_enc64be (push_bit 3 (of_nat (length A))) @ br_enc64be (push_bit 3 (of_nat (length C)))"
  define y where "y = (if 0 < length C mod 16 then gc_gh ctx (gc_y ctx) (gc_h ctx) (part16 C) else gc_y ctx)"
  define S where "S = ghash_ref (gcm_H E) 0 (pad16 A @ pad16 C @ T)"
  have "y = be_bytes 16 (ghash_ref (gcm_H E) (ghash_ref (gcm_H E) 0 A) C)"
    using full16_whole [of C] by (auto simp: y_def st(4) gh_be [OF st(1)] ghash_ref_full)
  then have "gc_gh ctx y (gc_h ctx) T = be_bytes 16 S"
    by (simp add: gh_be [OF st(1)] S_def ghash_ref_pad16)
  moreover have "ctr_ref E v j (be_bytes 16 S) = xor_bytes (be_bytes 16 S) (E (v @ be_bytes 4 j))"
    by (simp add: ctr_ref.simps [of E v j] ctr_ref.simps [of E v _ "[]"] flip: length_0_conv)
  moreover have "snd (br_gcm_get_tag ctx) = snd (gc_run ctx v j (gc_gh ctx y (gc_h ctx) T))"
    using st by (auto simp: br_gcm_get_tag_def Let_def y_def T_def ready_def split: prod.splits)
  ultimately show ?thesis
    using st(1) J by (simp add: ready_def run_ref gcm_tag_def S_def T_def enc64be_be_bytes push_bit_3_nat)
qed

lemma aad_chunks_inv:
  "aad_inv v j A ctx \<Longrightarrow> aad_inv v j (A @ concat ds) (foldl br_gcm_aad_inject ctx ds)"
proof (induction ds arbitrary: A ctx)
  case (Cons d ds)
  from Cons.IH [OF aad_inject_inv [OF Cons.prems, of d]] show ?case by simp
qed simp

lemma run_chunks_inv:
  assumes "data_inv v j A C ctx" and "gcm_run_chunks encrypt ctx ds = (ctx', out)"
  shows "out = ctr_at E v (j + 1) (length C) (concat ds)
    \<and> data_inv v j A (C @ (if encrypt then out else concat ds)) ctx'"
  using assms
proof (induction ds arbitrary: C ctx out)
  case Nil
  then show ?case by (simp add: ctr_at_def)
next
  case (Cons d ds)
  obtain ctx1 o1 o2 where s: "br_gcm_run ctx encrypt d = (ctx1, o1)"
      "gcm_run_chunks encrypt ctx1 ds = (ctx', o2)" "out = o1 @ o2"
    using Cons.prems(2) by (auto split: prod.splits)
  let ?C = "C @ (if encrypt then o1 else d)"
  have r: "o1 = ctr_at E v (j + 1) (length C) d" and i: "data_inv v j A ?C ctx1"
    using run_inv [OF Cons.prems(1) s(1)] by simp_all
  have l: "length ?C = length C + length d" by (simp add: r)
  note t = Cons.IH [OF i s(2), unfolded l]
  have "out = ctr_at E v (j + 1) (length C) (concat (d # ds))"
    using t by (simp only: s(3) r concat.simps ctr_at_append)
  moreover have "?C @ (if encrypt then o2 else concat ds) = C @ (if encrypt then out else concat (d # ds))"
    by (simp add: s(3))
  ultimately show ?case using t by simp
qed

lemma session_inv:
  assumes buf: "length (gc_buf ctx) = 16"
    and s: "gcm_session encrypt ctx run gh iv As ds = (ctx', out)" and J: "gcm_J0 E iv = (v, j)"
  shows "out = gcm_crypt E iv (concat ds)
    \<and> data_inv v j (concat As) (if encrypt then out else concat ds) ctx'"
proof -
  have "data_inv v j (concat As) [] (br_gcm_flip (foldl br_gcm_aad_inject
      (br_gcm_reset (br_gcm_init ctx run gh) iv) As))"
    using flip_inv [OF aad_chunks_inv [OF init_inv [OF buf J], of As]] by simp
  from run_chunks_inv [OF this] s show ?thesis
    using ctr_ref_at [where E = E and v = v and c = "j + 1" and q = 0] E_len
    by (simp add: gcm_session_def Let_def gcm_crypt_def J)
qed

lemma session_correct:
  assumes "length (gc_buf ctx) = 16" and "gcm_session encrypt ctx run gh iv As ds = (ctx', out)"
  shows "out = gcm_crypt E iv (concat ds)"
    and "snd (br_gcm_get_tag ctx') = gcm_tag E iv (concat As) (if encrypt then out else concat ds)"
  using session_inv [OF assms] get_tag_inv by (metis prod.collapse)+

lemma check_tag_correct:
  assumes "length (gc_buf ctx) = 16" and "gcm_session encrypt ctx run gh iv As ds = (ctx', out)"
    and "length tag = 16"
  shows "snd (br_gcm_check_tag ctx' tag)
    = (if tag = gcm_tag E iv (concat As) (if encrypt then out else concat ds) then 1 else 0)"
  using session_correct(2) [OF assms(1,2)] assms(3) length_gcm_tag [OF E_len]
  by (auto simp: br_gcm_check_tag_def br_gcm_check_tag_trunc_def EQ0_ct gcm_tag_diff_zero list_eq_iff_nth_eq
    split: prod.splits)

end

section \<open>The AES-NI and PCLMULQDQ primitives\<close>

text \<open>The arrays of the C code have the sizes of their types.\<close>

definition fixed :: "nat \<Rightarrow> 'a::zero list \<Rightarrow> 'a list" where
  "fixed n xs = take n (xs @ replicate n 0)"

lemma length_fixed [simp]: "length (fixed n xs) = n"
  by (simp add: fixed_def)

lemma fixed_id: "length xs = n \<Longrightarrow> fixed n xs = xs"
  by (simp add: fixed_def)

definition aes_key :: "bytes \<Rightarrow> bytes" where
  "aes_key key = (if length key = 16 \<or> length key = 24 then key else fixed 32 key)"

lemma length_aes_key: "length (aes_key key) = 16 \<or> length (aes_key key) = 24 \<or> length (aes_key key) = 32"
  by (simp add: aes_key_def)

definition ctr_keys :: "u128 list \<Rightarrow> br_aes_x86ni_ctr_keys \<Rightarrow> bytes \<Rightarrow> br_aes_x86ni_ctr_keys" where
  "ctr_keys sk0 bc key = br_aes_x86ni_ctr_init (fixed 15 sk0) (bc\<lparr>skni := fixed 240 (skni bc)\<rparr>) (aes_key key)"

lemma length_aes_encrypt: "length (aes_encrypt key b) = 16"
  by (simp add: aes_encrypt_def Let_def)

interpretation aes_gcm: gcm_prims "br_aes_x86ni_ctr_run (ctr_keys sk0 bc key)" br_ghash_pclmul
  "aes_encrypt (aes_key key)" for sk0 bc key
proof unfold_locales
  show "br_aes_x86ni_ctr_run (ctr_keys sk0 bc key) iv cc data
      = (cc + of_nat (length data div 16), ctr_ref (aes_encrypt (aes_key key)) iv cc data)" if "length iv = 12" for iv cc data
    using that length_aes_key by (simp add: ctr_keys_def ctr_run_ref)
qed (simp_all add: ghash_pclmul_ref length_aes_encrypt)

section \<open>CPU support\<close>

text \<open>
  \<open>cpuid\<close> stands for the registers of CPUID leaf 1, \<open>None\<close> when the leaf is not available. The getters
  answer \<open>NULL\<close> on a processor without the instructions.
\<close>

definition br_cpuid :: "(u32 \<times> u32 \<times> u32 \<times> u32) option \<Rightarrow> u32 \<Rightarrow> u32 \<Rightarrow> u32 \<Rightarrow> u32 \<Rightarrow> nat" where
  "br_cpuid cpuid mask_eax mask_ebx mask_ecx mask_edx =
     (case cpuid of
        Some (eax, ebx, ecx, edx) \<Rightarrow>
          if eax AND mask_eax = mask_eax \<and> ebx AND mask_ebx = mask_ebx
             \<and> ecx AND mask_ecx = mask_ecx \<and> edx AND mask_edx = mask_edx then 1 else 0
      | None \<Rightarrow> 0)"

definition br_aes_x86ni_supported :: "(u32 \<times> u32 \<times> u32 \<times> u32) option \<Rightarrow> nat" where
  "br_aes_x86ni_supported cpuid = br_cpuid cpuid 0 0 0x02080000 0"

record br_block_ctr_class =
  ctr_context_size :: nat
  ctr_block_size :: nat
  ctr_log_block_size :: nat
  ctr_init :: "u128 list \<Rightarrow> br_aes_x86ni_ctr_keys \<Rightarrow> bytes \<Rightarrow> br_aes_x86ni_ctr_keys"
  ctr_run :: "br_aes_x86ni_ctr_keys \<Rightarrow> bytes \<Rightarrow> u32 \<Rightarrow> bytes \<Rightarrow> u32 \<times> bytes"

definition br_aes_x86ni_ctr_vtable :: br_block_ctr_class where
  "br_aes_x86ni_ctr_vtable = \<lparr>ctr_context_size = 256, ctr_block_size = 16, ctr_log_block_size = 4,
     ctr_init = br_aes_x86ni_ctr_init, ctr_run = br_aes_x86ni_ctr_run\<rparr>"

definition br_aes_x86ni_ctr_get_vtable ::
  "(u32 \<times> u32 \<times> u32 \<times> u32) option \<Rightarrow> br_block_ctr_class option" where
  "br_aes_x86ni_ctr_get_vtable cpuid =
     (if br_aes_x86ni_supported cpuid \<noteq> 0 then Some br_aes_x86ni_ctr_vtable else None)"

definition pclmul_supported :: "(u32 \<times> u32 \<times> u32 \<times> u32) option \<Rightarrow> nat" where
  "pclmul_supported cpuid = br_cpuid cpuid 0 0 0x00000002 0"

definition br_ghash_pclmul_get ::
  "(u32 \<times> u32 \<times> u32 \<times> u32) option \<Rightarrow> (bytes \<Rightarrow> bytes \<Rightarrow> bytes \<Rightarrow> bytes) option" where
  "br_ghash_pclmul_get cpuid = (if pclmul_supported cpuid \<noteq> 0 then Some br_ghash_pclmul else None)"

lemma and_eq_mask: "w AND m = m \<longleftrightarrow> (\<forall>n. bit m n \<longrightarrow> bit w n)" for w m :: u32
proof
  assume "w AND m = m"
  then show "\<forall>n. bit m n \<longrightarrow> bit w n" by (metis bit_and_iff)
qed (auto intro: bit_word_eqI simp: bit_and_iff)

lemma feature_masks:
  "w AND 0x02080000 = 0x02080000 \<longleftrightarrow> bit w 25 \<and> bit w 19" "w AND 2 = 2 \<longleftrightarrow> bit w 1" for w :: u32
proof -
  have m: "(0x02080000 :: u32) = set_bit 25 (set_bit 19 0)" "(2 :: u32) = set_bit 1 0"
    by (simp_all add: set_bit_eq_or)
  show "w AND 0x02080000 = 0x02080000 \<longleftrightarrow> bit w 25 \<and> bit w 19" "w AND 2 = 2 \<longleftrightarrow> bit w 1"
    unfolding and_eq_mask unfolding m bit_set_bit_iff by auto
qed

section \<open>Properties\<close>

text \<open>C17. AES-GCM by \<open>br_gcm_init\<close>, \<open>br_gcm_reset\<close>, any sequence of \<open>br_gcm_aad_inject\<close> calls, \<open>br_gcm_flip\<close> and
  any sequence of \<open>br_gcm_run\<close> calls, on the AES-NI counter mode and the carry-less GHASH, gives the
  ciphertext (or plaintext) and the tag of SP 800-38D over the concatenated inputs, for every cut into
  calls, every nonce length and every AES key size.\<close>

theorem gcm_streaming:
  assumes "length (gc_buf ctx) = 16"
    and "gcm_session encrypt ctx (br_aes_x86ni_ctr_run (ctr_keys sk0 bc key)) br_ghash_pclmul iv As ds = (ctx', out)"
  shows "out = gcm_crypt (aes_encrypt (aes_key key)) iv (concat ds)
    \<and> snd (br_gcm_get_tag ctx')
      = gcm_tag (aes_encrypt (aes_key key)) iv (concat As) (if encrypt then out else concat ds)"
  using aes_gcm.session_correct [OF assms] by blast

definition zero_gcm_context :: br_gcm_context where
  "zero_gcm_context = \<lparr>gc_run = (\<lambda>_ c d. (c, d)), gc_gh = (\<lambda>y _ _. y), gc_h = replicate 16 0,
     gc_j0_1 = replicate 12 0, gc_buf = replicate 16 0, gc_y = replicate 16 0, gc_j0_2 = 0, gc_jc = 0,
     gc_count_aad = 0, gc_count_ctr = 0\<rparr>"

definition zero_ctr_keys :: br_aes_x86ni_ctr_keys where
  "zero_ctr_keys = \<lparr>skni = replicate 240 0, num_rounds = 0\<rparr>"

theorem gcm_streaming_witness:
  "length (gc_buf zero_gcm_context) = 16
    \<and> snd (gcm_session True zero_gcm_context (br_aes_x86ni_ctr_run (ctr_keys [] zero_ctr_keys [7])) br_ghash_pclmul
        (replicate 12 1) [[1, 2], [3]] [replicate 5 4, replicate 40 6])
      = gcm_crypt (aes_encrypt (fixed 32 [7])) (replicate 12 1) (replicate 5 4 @ replicate 40 6)"
  using gcm_streaming [of zero_gcm_context True "[]" zero_ctr_keys "[7]" "replicate 12 1" "[[1, 2], [3]]"
      "[replicate 5 4, replicate 40 6]" "fst (gcm_session True zero_gcm_context
        (br_aes_x86ni_ctr_run (ctr_keys [] zero_ctr_keys [7])) br_ghash_pclmul
        (replicate 12 1) [[1, 2], [3]] [replicate 5 4, replicate 40 6])"]
  by (simp add: zero_gcm_context_def aes_key_def del: replicate.simps)

text \<open>Decrypting, under the same key, nonce and additional data and with any other cut into calls, what
  the encryption produced restores the message, and the tag check then answers 1 for the tag of the
  encryption and 0 for every other 16-byte tag.\<close>

theorem gcm_open_seal:
  assumes "length (gc_buf ctx) = 16" and "length (gc_buf ctx') = 16" and "length tag = 16"
    and "r = br_aes_x86ni_ctr_run (ctr_keys sk0 bc key)"
    and "gcm_session True ctx r br_ghash_pclmul iv As ds = (ctx1, ct)"
    and "gcm_session False ctx' r br_ghash_pclmul iv As' cs = (ctx2, pt)"
    and "concat As' = concat As" and "concat cs = ct"
  shows "pt = concat ds
    \<and> snd (br_gcm_check_tag ctx2 tag) = (if tag = snd (br_gcm_get_tag ctx1) then 1 else 0)"
proof -
  note e = aes_gcm.session_correct [OF assms(1) assms(5) [unfolded assms(4)]]
  note d = aes_gcm.session_correct [OF assms(2) assms(6) [unfolded assms(4)]]
  have "pt = concat ds"
    using e(1) d(1) assms(8) gcm_crypt_crypt [of "aes_encrypt (aes_key key)"] by (simp add: length_aes_encrypt)
  moreover note aes_gcm.check_tag_correct [OF assms(2) assms(6) [unfolded assms(4)] assms(3)]
  ultimately show ?thesis using e(2) assms(7,8) by simp
qed

theorem gcm_open_seal_witness:
  "\<exists>ctx1 ct ctx2 pt. gcm_session True zero_gcm_context (br_aes_x86ni_ctr_run (ctr_keys [] zero_ctr_keys [7]))
        br_ghash_pclmul (replicate 12 1) [[1, 2], [3]] [replicate 5 4, replicate 40 6] = (ctx1, ct)
    \<and> gcm_session False zero_gcm_context (br_aes_x86ni_ctr_run (ctr_keys [] zero_ctr_keys [7]))
        br_ghash_pclmul (replicate 12 1) [[1, 2, 3]] [ct] = (ctx2, pt)
    \<and> pt = replicate 5 4 @ replicate 40 6
    \<and> snd (br_gcm_check_tag ctx2 (replicate 16 0)) = (if replicate 16 0 = snd (br_gcm_get_tag ctx1) then 1 else 0)"
proof -
  obtain ctx1 ct where 1: "gcm_session True zero_gcm_context (br_aes_x86ni_ctr_run (ctr_keys [] zero_ctr_keys [7]))
        br_ghash_pclmul (replicate 12 1) [[1, 2], [3]] [replicate 5 4, replicate 40 6] = (ctx1, ct)" by fastforce
  obtain ctx2 pt where 2: "gcm_session False zero_gcm_context (br_aes_x86ni_ctr_run (ctr_keys [] zero_ctr_keys [7]))
        br_ghash_pclmul (replicate 12 1) [[1, 2, 3]] [ct] = (ctx2, pt)" by fastforce
  have "length (gc_buf zero_gcm_context) = 16" by (simp add: zero_gcm_context_def)
  from gcm_open_seal [OF this this _ refl 1 2, of "replicate 16 0"] 1 2 show ?thesis by simp
qed

text \<open>The run-time getters hand out the AES-NI counter mode exactly on processors whose CPUID reports
  AES-NI and SSE4.1, and the GHASH code exactly on those that report PCLMULQDQ.\<close>

theorem cpu_dispatch:
  "(br_aes_x86ni_ctr_get_vtable cpuid = Some br_aes_x86ni_ctr_vtable
      \<longleftrightarrow> (\<exists>eax ebx ecx edx. cpuid = Some (eax, ebx, ecx, edx) \<and> bit ecx 25 \<and> bit ecx 19))
    \<and> (br_ghash_pclmul_get cpuid = Some br_ghash_pclmul
      \<longleftrightarrow> (\<exists>eax ebx ecx edx. cpuid = Some (eax, ebx, ecx, edx) \<and> bit ecx 1))"
  by (auto simp: br_aes_x86ni_ctr_get_vtable_def br_ghash_pclmul_get_def br_aes_x86ni_supported_def
    pclmul_supported_def br_cpuid_def feature_masks split: option.splits)

end
