(* ===== verification/Curve25519.thy ===== *)
theory Curve25519 imports Prelude begin

text \<open>
  \<open>c_src/curve25519-donna-c64.c\<close>: arithmetic modulo \<open>2 ^ 255 - 19\<close> on five 51-bit limbs and the X25519
  function. A field element is the tuple of its limbs; a function that writes through an output
  pointer returns the element. The theory \<open>Curve25519_Field\<close> proves the field operations, and
  \<open>Curve25519_Ladder\<close> the scalar multiplication.
\<close>

type_synonym limb = u64
type_synonym felem = "limb \<times> limb \<times> limb \<times> limb \<times> limb"
type_synonym felem_wide = "u128 \<times> u128 \<times> u128 \<times> u128 \<times> u128"

fun fsum :: "felem \<Rightarrow> felem \<Rightarrow> felem" where
  "fsum (o0, o1, o2, o3, o4) (i0, i1, i2, i3, i4) = (o0 + i0, o1 + i1, o2 + i2, o3 + i3, o4 + i4)"

definition fdifference_backwards :: "felem \<Rightarrow> felem \<Rightarrow> felem" where
  "fdifference_backwards out inp =
     (let (o0, o1, o2, o3, o4) = out;
          (i0, i1, i2, i3, i4) = inp;
          two54m152 = push_bit 54 1 - 152;
          two54m8 = push_bit 54 1 - 8
      in (i0 + two54m152 - o0, i1 + two54m8 - o1, i2 + two54m8 - o2, i3 + two54m8 - o3, i4 + two54m8 - o4))"

definition fscalar_product :: "felem \<Rightarrow> limb \<Rightarrow> felem" where
  "fscalar_product inp scalar =
     (let (i0, i1, i2, i3, i4) = inp;
          a = (ucast i0 :: u128) * ucast scalar;
          o0 = (ucast a :: limb) AND 0x7ffffffffffff;
          a = (ucast i1 :: u128) * ucast scalar + ucast (ucast (drop_bit 51 a) :: limb);
          o1 = (ucast a :: limb) AND 0x7ffffffffffff;
          a = (ucast i2 :: u128) * ucast scalar + ucast (ucast (drop_bit 51 a) :: limb);
          o2 = (ucast a :: limb) AND 0x7ffffffffffff;
          a = (ucast i3 :: u128) * ucast scalar + ucast (ucast (drop_bit 51 a) :: limb);
          o3 = (ucast a :: limb) AND 0x7ffffffffffff;
          a = (ucast i4 :: u128) * ucast scalar + ucast (ucast (drop_bit 51 a) :: limb);
          o4 = (ucast a :: limb) AND 0x7ffffffffffff;
          o0 = ucast ((ucast o0 :: u128) + drop_bit 51 a * 19)
      in (o0, o1, o2, o3, o4))"

text \<open>The carry chain that ends \<open>fmul\<close> and each round of \<open>fsquare_times\<close>.\<close>

definition fcarry :: "felem_wide \<Rightarrow> felem" where
  "fcarry t =
     (let (t0, t1, t2, t3, t4) = t;
          r0 = (ucast t0 :: limb) AND 0x7ffffffffffff; c = ucast (drop_bit 51 t0) :: limb;
          t1 = t1 + ucast c; r1 = (ucast t1 :: limb) AND 0x7ffffffffffff; c = ucast (drop_bit 51 t1) :: limb;
          t2 = t2 + ucast c; r2 = (ucast t2 :: limb) AND 0x7ffffffffffff; c = ucast (drop_bit 51 t2) :: limb;
          t3 = t3 + ucast c; r3 = (ucast t3 :: limb) AND 0x7ffffffffffff; c = ucast (drop_bit 51 t3) :: limb;
          t4 = t4 + ucast c; r4 = (ucast t4 :: limb) AND 0x7ffffffffffff; c = ucast (drop_bit 51 t4) :: limb;
          r0 = r0 + c * 19; c = drop_bit 51 r0; r0 = r0 AND 0x7ffffffffffff;
          r1 = r1 + c; c = drop_bit 51 r1; r1 = r1 AND 0x7ffffffffffff;
          r2 = r2 + c
      in (r0, r1, r2, r3, r4))"

definition umul :: "limb \<Rightarrow> limb \<Rightarrow> u128" where
  "umul a b = ucast a * ucast b"

definition fmul :: "felem \<Rightarrow> felem \<Rightarrow> felem" where
  "fmul in2 inp =
     (let (s0, s1, s2, s3, s4) = in2;
          (r0, r1, r2, r3, r4) = inp;
          t0 = umul r0 s0;
          t1 = umul r0 s1 + umul r1 s0;
          t2 = umul r0 s2 + umul r2 s0 + umul r1 s1;
          t3 = umul r0 s3 + umul r3 s0 + umul r1 s2 + umul r2 s1;
          t4 = umul r0 s4 + umul r4 s0 + umul r3 s1 + umul r1 s3 + umul r2 s2;
          r4 = r4 * 19;
          r1 = r1 * 19;
          r2 = r2 * 19;
          r3 = r3 * 19;
          t0 = t0 + (umul r4 s1 + umul r1 s4 + umul r2 s3 + umul r3 s2);
          t1 = t1 + (umul r4 s2 + umul r2 s4 + umul r3 s3);
          t2 = t2 + (umul r4 s3 + umul r3 s4);
          t3 = t3 + umul r4 s4
      in fcarry (t0, t1, t2, t3, t4))"

definition fsquare :: "felem \<Rightarrow> felem" where
  "fsquare inp =
     (let (r0, r1, r2, r3, r4) = inp;
          d0 = r0 * 2;
          d1 = r1 * 2;
          d2 = r2 * 2 * 19;
          d419 = r4 * 19;
          d4 = d419 * 2;
          t0 = umul r0 r0 + umul d4 r1 + umul d2 r3;
          t1 = umul d0 r1 + umul d4 r2 + umul r3 (r3 * 19);
          t2 = umul d0 r2 + umul r1 r1 + umul d4 r3;
          t3 = umul d0 r3 + umul d1 r2 + umul r4 d419;
          t4 = umul d0 r4 + umul d1 r3 + umul r2 r2
      in fcarry (t0, t1, t2, t3, t4))"

text \<open>
  \<open>do ... while (--count)\<close>: the counter is a limb, so that a count of zero would make \<open>2 ^ 64\<close> rounds.
\<close>

lemma count_decreases: "unat (count - 1 - 1) < unat (count - 1)" if "count - 1 \<noteq> 0" for count :: limb
  using that by (metis diff_less unat_gt_0 unat_minus_one zero_less_one)

function fsquare_times :: "felem \<Rightarrow> limb \<Rightarrow> felem" where
  "fsquare_times r count =
     (if count - 1 \<noteq> 0 then fsquare_times (fsquare r) (count - 1) else fsquare r)"
  by pat_completeness auto
termination
  by (relation "measure (\<lambda>(_, count). unat (count - 1))")
    (simp, simp only: in_measure case_prod_conv count_decreases not_False_eq_True)

declare fsquare_times.simps [simp del]

definition load_limb :: "bytes \<Rightarrow> limb" where
  "load_limb inp =
     ucast (inp ! 0) OR push_bit 8 (ucast (inp ! 1)) OR push_bit 16 (ucast (inp ! 2))
       OR push_bit 24 (ucast (inp ! 3)) OR push_bit 32 (ucast (inp ! 4)) OR push_bit 40 (ucast (inp ! 5))
       OR push_bit 48 (ucast (inp ! 6)) OR push_bit 56 (ucast (inp ! 7))"

definition store_limb :: "limb \<Rightarrow> bytes" where
  "store_limb inp =
     [ucast (inp AND 0xff), ucast (drop_bit 8 inp AND 0xff), ucast (drop_bit 16 inp AND 0xff),
      ucast (drop_bit 24 inp AND 0xff), ucast (drop_bit 32 inp AND 0xff), ucast (drop_bit 40 inp AND 0xff),
      ucast (drop_bit 48 inp AND 0xff), ucast (drop_bit 56 inp AND 0xff)]"

definition fexpand :: "bytes \<Rightarrow> felem" where
  "fexpand inp =
     (load_limb inp AND 0x7ffffffffffff,
      drop_bit 3 (load_limb (drop 6 inp)) AND 0x7ffffffffffff,
      drop_bit 6 (load_limb (drop 12 inp)) AND 0x7ffffffffffff,
      drop_bit 1 (load_limb (drop 19 inp)) AND 0x7ffffffffffff,
      drop_bit 12 (load_limb (drop 24 inp)) AND 0x7ffffffffffff)"

text \<open>The carries of \<open>fcontract\<close> from each limb to the next one, and the folding of the last one.\<close>

definition fcontract_carry :: "felem_wide \<Rightarrow> felem_wide" where
  "fcontract_carry t =
     (let (t0, t1, t2, t3, t4) = t;
          t1 = t1 + drop_bit 51 t0; t0 = t0 AND 0x7ffffffffffff;
          t2 = t2 + drop_bit 51 t1; t1 = t1 AND 0x7ffffffffffff;
          t3 = t3 + drop_bit 51 t2; t2 = t2 AND 0x7ffffffffffff;
          t4 = t4 + drop_bit 51 t3; t3 = t3 AND 0x7ffffffffffff
      in (t0, t1, t2, t3, t4))"

definition fcontract_fold :: "felem_wide \<Rightarrow> felem_wide" where
  "fcontract_fold t =
     (let (t0, t1, t2, t3, t4) = t;
          t0 = t0 + 19 * drop_bit 51 t4; t4 = t4 AND 0x7ffffffffffff in (t0, t1, t2, t3, t4))"

definition fcontract :: "felem \<Rightarrow> bytes" where
  "fcontract inp =
     (let (i0, i1, i2, i3, i4) = inp;
          t = (ucast i0, ucast i1, ucast i2, ucast i3, ucast i4);
          t = fcontract_fold (fcontract_carry t);
          t = fcontract_fold (fcontract_carry t);
          (t0, t1, t2, t3, t4) = t;
          t = (t0 + 19, t1, t2, t3, t4);
          t = fcontract_fold (fcontract_carry t);
          (t0, t1, t2, t3, t4) = t;
          t = (t0 + (0x8000000000000 - 19), t1 + (0x8000000000000 - 1), t2 + (0x8000000000000 - 1),
               t3 + (0x8000000000000 - 1), t4 + (0x8000000000000 - 1));
          (t0, t1, t2, t3, t4) = fcontract_carry t;
          t4 = t4 AND 0x7ffffffffffff
      in store_limb (ucast (t0 OR push_bit 51 t1)) @ store_limb (ucast (drop_bit 13 t1 OR push_bit 38 t2))
           @ store_limb (ucast (drop_bit 26 t2 OR push_bit 25 t3)) @ store_limb (ucast (drop_bit 39 t3 OR push_bit 12 t4)))"

definition fmonty :: "felem \<Rightarrow> felem \<Rightarrow> felem \<Rightarrow> felem \<Rightarrow> felem \<Rightarrow> felem \<times> felem \<times> felem \<times> felem" where
  "fmonty x z xprime zprime qmqp =
     (let origx = x;
          x = fsum x z;
          z = fdifference_backwards z origx;
          origxprime = xprime;
          xprime = fsum xprime zprime;
          zprime = fdifference_backwards zprime origxprime;
          xxprime = fmul xprime z;
          zzprime = fmul x zprime;
          origxprime = xxprime;
          xxprime = fsum xxprime zzprime;
          zzprime = fdifference_backwards zzprime origxprime;
          x3 = fsquare_times xxprime 1;
          zzzprime = fsquare_times zzprime 1;
          z3 = fmul zzzprime qmqp;
          xx = fsquare_times x 1;
          zz = fsquare_times z 1;
          x2 = fmul xx zz;
          zz = fdifference_backwards zz xx;
          zzz = fscalar_product zz 121665;
          zzz = fsum zzz xx;
          z2 = fmul zz zzz
      in (x2, z2, x3, z3))"

definition swap_conditional :: "felem \<Rightarrow> felem \<Rightarrow> limb \<Rightarrow> felem \<times> felem" where
  "swap_conditional a b iswap =
     (let (a0, a1, a2, a3, a4) = a;
          (b0, b1, b2, b3, b4) = b;
          swap = - iswap;
          x0 = swap AND (a0 XOR b0);
          x1 = swap AND (a1 XOR b1);
          x2 = swap AND (a2 XOR b2);
          x3 = swap AND (a3 XOR b3);
          x4 = swap AND (a4 XOR b4)
      in ((a0 XOR x0, a1 XOR x1, a2 XOR x2, a3 XOR x3, a4 XOR x4),
          (b0 XOR x0, b1 XOR x1, b2 XOR x2, b3 XOR x3, b4 XOR x4)))"

text \<open>
  The two nested loops of \<open>cmult\<close>. The state is \<open>nqx\<close>, \<open>nqz\<close>, \<open>nqpqx\<close>, \<open>nqpqz\<close>; the second set of four
  buffers is written by \<open>fmonty\<close> before it is read and then takes the place of the first one.
\<close>

type_synonym ladder_state = "felem \<times> felem \<times> felem \<times> felem"

definition cmult_step :: "felem \<Rightarrow> limb \<Rightarrow> ladder_state \<Rightarrow> ladder_state" where
  "cmult_step q b st =
     (let (nqx, nqz, nqpqx, nqpqz) = st;
          (nqx, nqpqx) = swap_conditional nqx nqpqx b;
          (nqz, nqpqz) = swap_conditional nqz nqpqz b;
          (nqx2, nqz2, nqpqx2, nqpqz2) = fmonty nqx nqz nqpqx nqpqz q;
          (nqx2, nqpqx2) = swap_conditional nqx2 nqpqx2 b;
          (nqz2, nqpqz2) = swap_conditional nqz2 nqpqz2 b
      in (nqx2, nqz2, nqpqx2, nqpqz2))"

fun cmult_bits :: "felem \<Rightarrow> u8 \<Rightarrow> nat \<Rightarrow> ladder_state \<Rightarrow> ladder_state" where
  "cmult_bits q byte 0 st = st"
| "cmult_bits q byte (Suc j) st =
     (let b = ucast (drop_bit 7 byte); st = cmult_step q b st; byte = push_bit 1 byte
      in cmult_bits q byte j st)"

definition cmult :: "bytes \<Rightarrow> felem \<Rightarrow> felem \<times> felem" where
  "cmult n q =
     (let (nqx, nqz, nqpqx, nqpqz) =
            fold (\<lambda>i st. let byte = n ! (31 - i) in cmult_bits q byte 8 st) [0..<32]
              ((1, 0, 0, 0, 0), (0, 0, 0, 0, 0), q, (1, 0, 0, 0, 0))
      in (nqx, nqz))"

definition crecip :: "felem \<Rightarrow> felem" where
  "crecip z =
     (let a = fsquare_times z 1;
          t0 = fsquare_times a 2;
          b = fmul t0 z;
          a = fmul b a;
          t0 = fsquare_times a 1;
          b = fmul t0 b;
          t0 = fsquare_times b 5;
          b = fmul t0 b;
          t0 = fsquare_times b 10;
          c = fmul t0 b;
          t0 = fsquare_times c 20;
          t0 = fmul t0 c;
          t0 = fsquare_times t0 10;
          b = fmul t0 b;
          t0 = fsquare_times b 50;
          c = fmul t0 b;
          t0 = fsquare_times c 100;
          t0 = fmul t0 c;
          t0 = fsquare_times t0 50;
          t0 = fmul t0 b;
          t0 = fsquare_times t0 5
      in fmul t0 a)"

definition curve25519_donna :: "bytes \<Rightarrow> bytes \<Rightarrow> bytes" where
  "curve25519_donna secret basepoint =
     (let e = take 32 secret;
          e = e[0 := e ! 0 AND 248];
          e = e[31 := e ! 31 AND 127];
          e = e[31 := e ! 31 OR 64];
          bp = fexpand basepoint;
          (x, z) = cmult e bp;
          zmone = crecip z;
          z = fmul x zmone
      in fcontract z)"

end
