(* ===== verification/Curve25519_Field.thy ===== *)
theory Curve25519_Field imports Curve25519 begin

text \<open>
  The field operations of \<open>Curve25519\<close>: each computes, modulo \<open>2 ^ 255 - 19\<close>, the operation it is named
  after, within the limb bounds that the callers keep.
\<close>

definition p25519 :: int where
  "p25519 = 2 ^ 255 - 19"

lemma p25519_limbs: "p25519 = (2 ^ 51) ^ 5 - 19"
  by (simp add: p25519_def)

fun nval :: "nat \<times> nat \<times> nat \<times> nat \<times> nat \<Rightarrow> int" where
  "nval (a0, a1, a2, a3, a4) =
     int a0 + 2 ^ 51 * int a1 + (2 ^ 51) ^ 2 * int a2 + (2 ^ 51) ^ 3 * int a3 + (2 ^ 51) ^ 4 * int a4"

fun limbs :: "felem \<Rightarrow> nat \<times> nat \<times> nat \<times> nat \<times> nat" where
  "limbs (a0, a1, a2, a3, a4) = (unat a0, unat a1, unat a2, unat a3, unat a4)"

definition fval :: "felem \<Rightarrow> int" where
  "fval x = nval (limbs x)"

text \<open>Two bounds: \<open>tight\<close> elements come out of \<open>fmul\<close>; \<open>loose\<close> ones may go into it.\<close>

fun below :: "nat \<Rightarrow> felem \<Rightarrow> bool" where
  "below n (a0, a1, a2, a3, a4) \<longleftrightarrow> unat a0 < n \<and> unat a1 < n \<and> unat a2 < n \<and> unat a3 < n \<and> unat a4 < n"

abbreviation tight :: "felem \<Rightarrow> bool" where
  "tight \<equiv> below (2 ^ 51 + 1)"

abbreviation loose :: "felem \<Rightarrow> bool" where
  "loose \<equiv> below (9 * 2 ^ 51)"

section \<open>Words and numbers\<close>

lemma and_mask51: "of_nat n AND (0x7ffffffffffff :: 'a::len word) = of_nat (n mod 2 ^ 51)"
proof -
  have "(0x7ffffffffffff :: 'a word) = mask 51" by (simp add: mask_numeral)
  then have "of_nat n AND (0x7ffffffffffff :: 'a word) = take_bit 51 (of_nat n)" by (simp only: take_bit_eq_mask)
  then show ?thesis by (simp only: take_bit_of_nat flip: take_bit_eq_mod [where ?'a = nat])
qed

lemma drop_bit_word_of_nat:
  assumes "n < 2 ^ LENGTH('a)"
  shows "drop_bit k (of_nat n :: 'a::len word) = of_nat (n div 2 ^ k)"
proof -
  have "unat (drop_bit k (of_nat n :: 'a word)) = n div 2 ^ k"
    by (simp only: unat_drop_bit_eq unat_word_of_nat [OF assms] drop_bit_eq_div [where ?'a = nat])
  from arg_cong [OF this, of "of_nat :: nat \<Rightarrow> 'a word"] show ?thesis by simp
qed

lemma ucast_limb_of_nat: "ucast (of_nat n :: u128) = (of_nat n :: limb)"
  by (simp add: word_unat_eq_iff unsigned_ucast_eq unsigned_of_nat)

lemma ucast_wide_of_nat: "n < 2 ^ 64 \<Longrightarrow> ucast (of_nat n :: limb) = (of_nat n :: u128)"
  by (simp add: word_unat_eq_iff unsigned_ucast_eq unsigned_of_nat take_bit_nat_eq_self)

lemma ucast_wide_limb: "ucast (x :: limb) = (of_nat (unat x) :: u128)"
  using ucast_wide_of_nat [of "unat x"] unat_bound [of x] by simp

lemma umul_of_nat: "m < 2 ^ 64 \<Longrightarrow> n < 2 ^ 64 \<Longrightarrow> umul (of_nat m) (of_nat n) = of_nat (m * n)"
  by (simp add: umul_def ucast_wide_of_nat)

lemma limb_split: "int n = 2 ^ 51 * int (n div 2 ^ 51) + int (n mod 2 ^ 51)"
  using arg_cong [OF mult_div_mod_eq [of "2 ^ 51" n], of int]
  by (simp only: of_nat_add of_nat_mult of_nat_power of_nat_numeral)

lemma limb_split_add: "a + b = n \<Longrightarrow> int a + int b = 2 ^ 51 * int (n div 2 ^ 51) + int (n mod 2 ^ 51)"
  by (simp only: limb_split [symmetric] flip: of_nat_add)

section \<open>The carry chain\<close>

definition carried :: "nat \<Rightarrow> nat \<Rightarrow> nat \<Rightarrow> nat \<Rightarrow> nat \<Rightarrow> nat \<times> nat \<times> nat \<times> nat \<times> nat" where
  "carried N0 N1 N2 N3 N4 =
     (let T1 = N1 + N0 div 2 ^ 51; T2 = N2 + T1 div 2 ^ 51; T3 = N3 + T2 div 2 ^ 51; T4 = N4 + T3 div 2 ^ 51;
          R0 = N0 mod 2 ^ 51 + T4 div 2 ^ 51 * 19; R1 = T1 mod 2 ^ 51 + R0 div 2 ^ 51
      in (R0 mod 2 ^ 51, R1 mod 2 ^ 51, T2 mod 2 ^ 51 + R1 div 2 ^ 51, T3 mod 2 ^ 51, T4 mod 2 ^ 51))"

text \<open>What the accumulators may hold when the chain starts, with room for the carries.\<close>

definition wide_ok :: "nat \<Rightarrow> nat \<Rightarrow> nat \<Rightarrow> nat \<Rightarrow> nat \<Rightarrow> bool" where
  "wide_ok N0 N1 N2 N3 N4 \<longleftrightarrow> N0 < 2 ^ 115 - 2 ^ 64 \<and> N1 < 2 ^ 115 - 2 ^ 64 \<and> N2 < 2 ^ 115 - 2 ^ 64
     \<and> N3 < 2 ^ 115 - 2 ^ 64 \<and> N4 < 430 * 2 ^ 102"

lemma carriedE:
  assumes "carried N0 N1 N2 N3 N4 = (x0, x1, x2, x3, x4)" and ok: "wide_ok N0 N1 N2 N3 N4"
  obtains T1 T2 T3 T4 R0 R1 where
    "N1 + N0 div 2 ^ 51 = T1" "N2 + T1 div 2 ^ 51 = T2" "N3 + T2 div 2 ^ 51 = T3" "N4 + T3 div 2 ^ 51 = T4"
    "N0 mod 2 ^ 51 + T4 div 2 ^ 51 * 19 = R0" "T1 mod 2 ^ 51 + R0 div 2 ^ 51 = R1"
    "N0 < 2 ^ 115" "T1 < 2 ^ 115" "T2 < 2 ^ 115" "T3 < 2 ^ 115" "T4 < 2 ^ 115" "R0 < 2 ^ 64" "R1 < 2 * 2 ^ 51"
    "x0 = R0 mod 2 ^ 51" "x1 = R1 mod 2 ^ 51" "x2 = T2 mod 2 ^ 51 + R1 div 2 ^ 51" "x3 = T3 mod 2 ^ 51"
    "x4 = T4 mod 2 ^ 51"
proof -
  define T1 where "T1 = N1 + N0 div 2 ^ 51"
  define T2 where "T2 = N2 + T1 div 2 ^ 51"
  define T3 where "T3 = N3 + T2 div 2 ^ 51"
  define T4 where "T4 = N4 + T3 div 2 ^ 51"
  define R0 where "R0 = N0 mod 2 ^ 51 + T4 div 2 ^ 51 * 19"
  define R1 where "R1 = T1 mod 2 ^ 51 + R0 div 2 ^ 51"
  have x: "x0 = R0 mod 2 ^ 51" "x1 = R1 mod 2 ^ 51" "x2 = T2 mod 2 ^ 51 + R1 div 2 ^ 51" "x3 = T3 mod 2 ^ 51"
    "x4 = T4 mod 2 ^ 51"
    using assms(1) unfolding carried_def Let_def
    by (simp_all only: prod.inject flip: T1_def T2_def T3_def T4_def R0_def R1_def)
  have step: "n div 2 ^ 51 < 2 ^ 64" if "n < 2 ^ 115" for n :: nat
    using that by (simp add: less_mult_imp_div_less)
  have N: "N0 < 2 ^ 115" using ok by (simp add: wide_ok_def)
  have T1: "T1 < 2 ^ 115" using ok step [OF N] by (simp add: T1_def wide_ok_def)
  have T2: "T2 < 2 ^ 115" using ok step [OF T1] by (simp add: T2_def wide_ok_def)
  have T3: "T3 < 2 ^ 115" using ok step [OF T2] by (simp add: T3_def wide_ok_def)
  have T4: "T4 < 431 * 2 ^ 102" using ok step [OF T3] by (simp add: T4_def wide_ok_def)
  have "T4 div 2 ^ 51 < 431 * 2 ^ 51" using T4 by (simp add: less_mult_imp_div_less)
  then have R0: "R0 < 2 ^ 64" using mod_less_divisor [of "2 ^ 51" N0] unfolding R0_def by simp
  have "R1 < 2 * 2 ^ 51" using mod_less_divisor [of "2 ^ 51" T1] less_mult_imp_div_less [of R0 "2 ^ 13" "2 ^ 51"] R0
    unfolding R1_def by simp
  moreover have "T4 < 2 ^ 115" using T4 by simp
  ultimately show thesis
    using that [OF T1_def [symmetric] T2_def [symmetric] T3_def [symmetric] T4_def [symmetric] R0_def [symmetric]
        R1_def [symmetric] N T1 T2 T3 _ R0 _ x] by blast
qed

lemma fcarry_of_nat:
  assumes "carried N0 N1 N2 N3 N4 = (x0, x1, x2, x3, x4)" and "wide_ok N0 N1 N2 N3 N4"
  shows "fcarry (of_nat N0, of_nat N1, of_nat N2, of_nat N3, of_nat N4)
    = (of_nat x0, of_nat x1, of_nat x2, of_nat x3, of_nat x4)"
proof (rule carriedE [OF assms])
  fix T1 T2 T3 T4 R0 R1
  assume T: "N1 + N0 div 2 ^ 51 = T1" "N2 + T1 div 2 ^ 51 = T2" "N3 + T2 div 2 ^ 51 = T3" "N4 + T3 div 2 ^ 51 = T4"
    "N0 mod 2 ^ 51 + T4 div 2 ^ 51 * 19 = R0" "T1 mod 2 ^ 51 + R0 div 2 ^ 51 = R1"
    and b: "N0 < 2 ^ 115" "T1 < 2 ^ 115" "T2 < 2 ^ 115" "T3 < 2 ^ 115" "T4 < 2 ^ 115"
    and r: "R0 < 2 ^ 64" "R1 < 2 * 2 ^ 51"
    and x: "x0 = R0 mod 2 ^ 51" "x1 = R1 mod 2 ^ 51" "x2 = T2 mod 2 ^ 51 + R1 div 2 ^ 51" "x3 = T3 mod 2 ^ 51"
      "x4 = T4 mod 2 ^ 51"
  have cy: "ucast (drop_bit 51 (of_nat n :: u128)) = (of_nat (n div 2 ^ 51) :: limb)" if "n < 2 ^ 115" for n
    using that by (simp add: drop_bit_word_of_nat ucast_limb_of_nat)
  have add: "(of_nat m :: u128) + ucast (of_nat (n div 2 ^ 51) :: limb) = of_nat (m + n div 2 ^ 51)"
    if "n < 2 ^ 115" for m n
  proof -
    have "n div 2 ^ 51 < 2 ^ 64" using that by (simp add: less_mult_imp_div_less)
    then show ?thesis by (simp only: ucast_wide_of_nat of_nat_add)
  qed
  have r0: "of_nat (N0 mod 2 ^ 51) + of_nat (T4 div 2 ^ 51) * 19 = (of_nat R0 :: limb)"
    using arg_cong [OF T(5), of "of_nat :: nat \<Rightarrow> limb"] by simp
  have d: "drop_bit 51 (of_nat R0 :: limb) = of_nat (R0 div 2 ^ 51)" "drop_bit 51 (of_nat R1 :: limb) = of_nat (R1 div 2 ^ 51)"
    using r by (simp_all add: drop_bit_word_of_nat)
  show ?thesis
    unfolding x fcarry_def Let_def prod.case ucast_limb_of_nat and_mask51
      cy [OF b(1)] add [OF b(1)] T(1) cy [OF b(2)] add [OF b(2)] T(2) cy [OF b(3)] add [OF b(3)]
      T(3) cy [OF b(4)] add [OF b(4)] T(4) cy [OF b(5)] r0 d of_nat_add [symmetric] T(6) ..
qed

lemma carry_identity:
  fixes B :: int
  assumes "N0 = B * q0 + m0" "N1 + q0 = B * q1 + m1" "N2 + q1 = B * q2 + m2"
    "N3 + q2 = B * q3 + m3" "N4 + q3 = B * q4 + m4" "m0 + q4 * 19 = B * k0 + y0"
    "m1 + k0 = B * k1 + y1"
  shows "N0 + B * N1 + B ^ 2 * N2 + B ^ 3 * N3 + B ^ 4 * N4
    = y0 + B * y1 + B ^ 2 * (m2 + k1) + B ^ 3 * m3 + B ^ 4 * m4 + q4 * (B ^ 5 - 19)"
  using assms by algebra

lemma carried_val:
  assumes "carried N0 N1 N2 N3 N4 = (x0, x1, x2, x3, x4)" and "wide_ok N0 N1 N2 N3 N4"
  shows "nval (x0, x1, x2, x3, x4) mod p25519 = nval (N0, N1, N2, N3, N4) mod p25519
    \<and> x0 < 2 ^ 51 \<and> x1 < 2 ^ 51 \<and> x2 \<le> 2 ^ 51 \<and> x3 < 2 ^ 51 \<and> x4 < 2 ^ 51"
proof (rule carriedE [OF assms])
  fix T1 T2 T3 T4 R0 R1
  assume T: "N1 + N0 div 2 ^ 51 = T1" "N2 + T1 div 2 ^ 51 = T2" "N3 + T2 div 2 ^ 51 = T3" "N4 + T3 div 2 ^ 51 = T4"
    "N0 mod 2 ^ 51 + T4 div 2 ^ 51 * 19 = R0" "T1 mod 2 ^ 51 + R0 div 2 ^ 51 = R1"
    and r: "R1 < 2 * 2 ^ 51"
    and x: "x0 = R0 mod 2 ^ 51" "x1 = R1 mod 2 ^ 51" "x2 = T2 mod 2 ^ 51 + R1 div 2 ^ 51" "x3 = T3 mod 2 ^ 51"
      "x4 = T4 mod 2 ^ 51"
  note dm = limb_split and dm' = limb_split_add
  have "int (N0 mod 2 ^ 51) + int (T4 div 2 ^ 51) * 19 = 2 ^ 51 * int (R0 div 2 ^ 51) + int (R0 mod 2 ^ 51)"
    using dm' [OF T(5)] by (simp only: of_nat_mult of_nat_numeral)
  note carry_identity [where B = "2 ^ 51", OF dm [of N0] dm' [OF T(1)] dm' [OF T(2)] dm' [OF T(3)] dm' [OF T(4)] this dm' [OF T(6)]]
  then have v: "nval (N0, N1, N2, N3, N4) = nval (x0, x1, x2, x3, x4) + int (T4 div 2 ^ 51) * p25519"
    by (simp only: nval.simps x of_nat_add p25519_limbs)
  have "R1 div 2 ^ 51 < 2" using r by (rule less_mult_imp_div_less)
  moreover have lt: "n mod 2 ^ 51 < 2 ^ 51" for n :: nat by simp
  ultimately have "x2 \<le> 2 ^ 51" using lt [of T2] unfolding x by linarith
  with v show ?thesis unfolding x(1,2,4,5) by (simp only: lt mod_mult_self1 simp_thms)
qed

section \<open>Multiplication and squaring\<close>

lemma limbs_of_nat: "x = (of_nat (unat x) :: limb)"
  by simp

lemma felem_of_nats:
  obtains a0 a1 a2 a3 a4 where "x = (of_nat a0, of_nat a1, of_nat a2, of_nat a3, of_nat a4 :: limb)"
    and "limbs x = (a0, a1, a2, a3, a4)"
  by (cases x) (metis limbs.simps limbs_of_nat)

lemma limbs_of_nats:
  assumes "x0 < 2 ^ 64" "x1 < 2 ^ 64" "x2 < 2 ^ 64" "x3 < 2 ^ 64" "x4 < 2 ^ 64"
  shows "limbs (of_nat x0, of_nat x1, of_nat x2, of_nat x3, of_nat x4) = (x0, x1, x2, x3, x4)"
  using assms by (simp add: unat_word_of_nat)

lemma fcarry_correct:
  assumes ok: "wide_ok N0 N1 N2 N3 N4"
    and r: "r = fcarry (of_nat N0, of_nat N1, of_nat N2, of_nat N3, of_nat N4)"
  shows "fval r mod p25519 = nval (N0, N1, N2, N3, N4) mod p25519 \<and> tight r"
proof -
  obtain x0 x1 x2 x3 x4 where c: "carried N0 N1 N2 N3 N4 = (x0, x1, x2, x3, x4)" by (metis prod.collapse)
  note v = carried_val [OF c ok]
  then have l: "limbs r = (x0, x1, x2, x3, x4)"
    unfolding r fcarry_of_nat [OF c ok] by (intro limbs_of_nats) simp_all
  moreover from l v have "tight r" by (cases r) simp
  ultimately show ?thesis using v by (simp only: fval_def simp_thms)
qed

lemma loose_product: "a < 9 * 2 ^ 51 \<Longrightarrow> b < 9 * 2 ^ 51 \<Longrightarrow> a * b \<le> 81 * 2 ^ 102" for a b :: nat
  using mult_mono [of a "9 * 2 ^ 51" b "9 * 2 ^ 51"] by simp

lemma mul_identity:
  fixes B :: int
  shows "(a0 * b0 + 19 * (a4 * b1 + a1 * b4 + a2 * b3 + a3 * b2))
      + B * (a0 * b1 + a1 * b0 + 19 * (a4 * b2 + a2 * b4 + a3 * b3))
      + B ^ 2 * (a0 * b2 + a2 * b0 + a1 * b1 + 19 * (a4 * b3 + a3 * b4))
      + B ^ 3 * (a0 * b3 + a3 * b0 + a1 * b2 + a2 * b1 + 19 * (a4 * b4))
      + B ^ 4 * (a0 * b4 + a4 * b0 + a3 * b1 + a1 * b3 + a2 * b2)
    = (b0 + B * b1 + B ^ 2 * b2 + B ^ 3 * b3 + B ^ 4 * b4) * (a0 + B * a1 + B ^ 2 * a2 + B ^ 3 * a3 + B ^ 4 * a4)
      - (a4 * b1 + a1 * b4 + a2 * b3 + a3 * b2 + B * (a4 * b2 + a2 * b4 + a3 * b3)
         + B ^ 2 * (a4 * b3 + a3 * b4) + B ^ 3 * (a4 * b4)) * (B ^ 5 - 19)"
  by algebra

lemma umul_19: "a < 9 * 2 ^ 51 \<Longrightarrow> b < 9 * 2 ^ 51 \<Longrightarrow> umul (of_nat a * 19) (of_nat b) = of_nat (19 * (a * b))"
  using umul_of_nat [of "19 * a" b] by (simp add: mult.commute mult.left_commute)

lemma umul_loose: "a < 9 * 2 ^ 51 \<Longrightarrow> b < 9 * 2 ^ 51 \<Longrightarrow> umul (of_nat a) (of_nat b) = of_nat (a * b)"
  by (rule umul_of_nat) simp_all

lemma sub_mult_mod: "(a - k * m) mod m = a mod m" for a k m :: int
  by (subst mod_diff_eq [symmetric]) simp

lemma fmul_of_nat:
  assumes la: "a0 < 9 * 2 ^ 51" "a1 < 9 * 2 ^ 51" "a2 < 9 * 2 ^ 51" "a3 < 9 * 2 ^ 51" "a4 < 9 * 2 ^ 51"
    and lb: "b0 < 9 * 2 ^ 51" "b1 < 9 * 2 ^ 51" "b2 < 9 * 2 ^ 51" "b3 < 9 * 2 ^ 51" "b4 < 9 * 2 ^ 51"
  shows "fmul (of_nat b0, of_nat b1, of_nat b2, of_nat b3, of_nat b4) (of_nat a0, of_nat a1, of_nat a2, of_nat a3, of_nat a4)
    = fcarry (of_nat (a0 * b0 + (19 * (a4 * b1) + 19 * (a1 * b4) + 19 * (a2 * b3) + 19 * (a3 * b2))),
        of_nat (a0 * b1 + a1 * b0 + (19 * (a4 * b2) + 19 * (a2 * b4) + 19 * (a3 * b3))),
        of_nat (a0 * b2 + a2 * b0 + a1 * b1 + (19 * (a4 * b3) + 19 * (a3 * b4))),
        of_nat (a0 * b3 + a3 * b0 + a1 * b2 + a2 * b1 + 19 * (a4 * b4)),
        of_nat (a0 * b4 + a4 * b0 + a3 * b1 + a1 * b3 + a2 * b2))"
  unfolding fmul_def Let_def prod.case by (simp only: umul_19 umul_loose la lb flip: of_nat_add)

lemma fmul_correct:
  assumes "loose x" "loose y"
  shows "fval (fmul x y) mod p25519 = fval x * fval y mod p25519 \<and> tight (fmul x y)"
proof -
  obtain b0 b1 b2 b3 b4 where x: "x = (of_nat b0, of_nat b1, of_nat b2, of_nat b3, of_nat b4)"
    and bx: "limbs x = (b0, b1, b2, b3, b4)" by (rule felem_of_nats)
  obtain a0 a1 a2 a3 a4 where y: "y = (of_nat a0, of_nat a1, of_nat a2, of_nat a3, of_nat a4)"
    and ay: "limbs y = (a0, a1, a2, a3, a4)" by (rule felem_of_nats)
  have lb: "b0 < 9 * 2 ^ 51" "b1 < 9 * 2 ^ 51" "b2 < 9 * 2 ^ 51" "b3 < 9 * 2 ^ 51" "b4 < 9 * 2 ^ 51"
    using assms(1) bx by (cases x, simp)+
  have la: "a0 < 9 * 2 ^ 51" "a1 < 9 * 2 ^ 51" "a2 < 9 * 2 ^ 51" "a3 < 9 * 2 ^ 51" "a4 < 9 * 2 ^ 51"
    using assms(2) ay by (cases y, simp)+
  define N0 where "N0 = a0 * b0 + (19 * (a4 * b1) + 19 * (a1 * b4) + 19 * (a2 * b3) + 19 * (a3 * b2))"
  define N1 where "N1 = a0 * b1 + a1 * b0 + (19 * (a4 * b2) + 19 * (a2 * b4) + 19 * (a3 * b3))"
  define N2 where "N2 = a0 * b2 + a2 * b0 + a1 * b1 + (19 * (a4 * b3) + 19 * (a3 * b4))"
  define N3 where "N3 = a0 * b3 + a3 * b0 + a1 * b2 + a2 * b1 + 19 * (a4 * b4)"
  define N4 where "N4 = a0 * b4 + a4 * b0 + a3 * b1 + a1 * b3 + a2 * b2"
  note N = N0_def N1_def N2_def N3_def N4_def
  have f: "fmul x y = fcarry (of_nat N0, of_nat N1, of_nat N2, of_nat N3, of_nat N4)"
    unfolding x y N by (rule fmul_of_nat [OF la lb])
  note pr = loose_product [OF la(1)] loose_product [OF la(2)] loose_product [OF la(3)] loose_product [OF la(4)]
    loose_product [OF la(5)]
  have "wide_ok N0 N1 N2 N3 N4"
    unfolding wide_ok_def N using pr [OF lb(1)] pr [OF lb(2)] pr [OF lb(3)] pr [OF lb(4)] pr [OF lb(5)]
    by simp
  note c = fcarry_correct [OF this f]
  have "nval (N0, N1, N2, N3, N4) = fval x * fval y - (int (a4 * b1 + a1 * b4 + a2 * b3 + a3 * b2)
      + 2 ^ 51 * int (a4 * b2 + a2 * b4 + a3 * b3) + (2 ^ 51) ^ 2 * int (a4 * b3 + a3 * b4)
      + (2 ^ 51) ^ 3 * int (a4 * b4)) * p25519"
    unfolding fval_def bx ay nval.simps N p25519_limbs of_nat_add of_nat_mult
    using mul_identity [of "int a0" "int b0" "int a4" "int b1" "int a1" "int b4" "int a2" "int b3" "int a3" "int b2" "2 ^ 51"]
    by (simp only: of_nat_numeral distrib_left)
  then show ?thesis using c by (simp only: sub_mult_mod)
qed

lemma fsquare_fmul:
  assumes "loose x"
  shows "fsquare x = fmul x x"
proof -
  obtain a0 a1 a2 a3 a4 where x: "x = (of_nat a0, of_nat a1, of_nat a2, of_nat a3, of_nat a4)"
    and ax: "limbs x = (a0, a1, a2, a3, a4)" by (rule felem_of_nats)
  have la: "a0 < 9 * 2 ^ 51" "a1 < 9 * 2 ^ 51" "a2 < 9 * 2 ^ 51" "a3 < 9 * 2 ^ 51" "a4 < 9 * 2 ^ 51"
    using assms ax by (cases x, simp)+
  have m: "umul (of_nat a * 2) (of_nat b) = of_nat (2 * (a * b))"
    "umul (of_nat a * 2 * 19) (of_nat b) = of_nat (38 * (a * b))"
    "umul (of_nat a * 19 * 2) (of_nat b) = of_nat (38 * (a * b))"
    "umul (of_nat b) (of_nat a * 19) = of_nat (19 * (b * a))"
    if "a < 9 * 2 ^ 51" "b < 9 * 2 ^ 51" for a b
    using that umul_of_nat [of "2 * a" b] umul_of_nat [of "38 * a" b] umul_of_nat [of b "19 * a"]
    by (simp_all add: mult.commute mult.left_commute)
  have "fsquare x = fcarry (of_nat (a0 * a0 + 38 * (a4 * a1) + 38 * (a2 * a3)),
      of_nat (2 * (a0 * a1) + 38 * (a4 * a2) + 19 * (a3 * a3)),
      of_nat (2 * (a0 * a2) + a1 * a1 + 38 * (a4 * a3)), of_nat (2 * (a0 * a3) + 2 * (a1 * a2) + 19 * (a4 * a4)),
      of_nat (2 * (a0 * a4) + 2 * (a1 * a3) + a2 * a2))"
    unfolding fsquare_def x Let_def prod.case by (simp only: m umul_loose la flip: of_nat_add)
  then show ?thesis
    unfolding x fmul_of_nat [OF la la] by (simp add: ac_simps)
qed

lemma tight_loose [simp]: "tight x \<Longrightarrow> loose x"
  by (cases x) simp

lemma fsquare_correct:
  "loose x \<Longrightarrow> fval (fsquare x) mod p25519 = fval x * fval x mod p25519 \<and> tight (fsquare x)"
  using fmul_correct [of x x] by (simp add: fsquare_fmul)

text \<open>The rounds that a counter gives: as many as it says, and \<open>2 ^ 64\<close> when it starts at zero.\<close>

definition rounds :: "limb \<Rightarrow> nat" where "rounds count = Suc (unat (count - 1))"

lemma rounds_eq: "rounds count = (if count = 0 then 2 ^ 64 else unat count)"
proof (cases "count = 0")
  case True
  have "unat (- 1 :: limb) = 2 ^ 64 - 1" by (simp add: unsigned_minus_1_eq_mask mask_eq_exp_minus_1)
  then show ?thesis by (simp add: True rounds_def)
next
  case False
  then show ?thesis by (simp add: rounds_def unat_minus_one unat_gt_0)
qed

lemma fsquare_times_rounds:
  assumes "loose x"
  shows "fval (fsquare_times x count) mod p25519 = fval x ^ 2 ^ rounds count mod p25519 \<and> tight (fsquare_times x count)"
  using assms
proof (induction x count rule: fsquare_times.induct)
  case (1 x count)
  note sq = fsquare_correct [OF "1.prems"]
  show ?case
  proof (cases "count - 1 = 0")
    case True
    then show ?thesis using sq by (simp add: fsquare_times.simps [of x] rounds_def power2_eq_square)
  next
    case False
    have "rounds (count - 1) = unat (count - 1)" unfolding rounds_eq by (rule if_not_P) (rule False)
    then have u: "rounds count = Suc (rounds (count - 1))" by (simp only: rounds_def [of count])
    have "fval (fsquare x) ^ 2 ^ rounds (count - 1) mod p25519 = fval x ^ 2 ^ rounds count mod p25519"
      unfolding u power_Suc power_mult power2_eq_square using sq by (metis power_mod)
    then show ?thesis using "1.IH" [OF False tight_loose] False sq
      by (simp add: fsquare_times.simps [of x count])
  qed
qed

lemma fsquare_times_correct:
  assumes "loose x" and "count \<noteq> 0"
  shows "fval (fsquare_times x count) mod p25519 = fval x ^ 2 ^ unat count mod p25519 \<and> tight (fsquare_times x count)"
  using fsquare_times_rounds [OF assms(1), of count] unfolding rounds_eq if_not_P [OF assms(2)] .

section \<open>Addition, subtraction and scaling\<close>

lemma fsum_correct:
  assumes "below m x" "below n y" "m + n \<le> 2 ^ 64"
  shows "fval (fsum x y) = fval x + fval y \<and> below (m + n) (fsum x y)"
proof -
  have "unat (a + b) = unat a + unat b \<and> unat a + unat b < m + n" if "unat a < m" "unat b < n" for a b :: limb
    using that assms(3) by (simp add: unat_word_ariths)
  with assms(1,2) show ?thesis
    by (cases x; cases y) (simp add: fval_def algebra_simps)
qed

lemma fdifference_correct:
  assumes "tight x" "tight y"
  shows "fval (fdifference_backwards x y) mod p25519 = (fval y - fval x) mod p25519 \<and> loose (fdifference_backwards x y)"
proof -
  obtain a0 a1 a2 a3 a4 b0 b1 b2 b3 b4 where xy: "x = (a0, a1, a2, a3, a4)" "y = (b0, b1, b2, b3, b4)"
    by (metis prod.collapse)
  have c: "(push_bit 54 1 - 152 :: limb) = 0x3fffffffffff68" "(push_bit 54 1 - 8 :: limb) = 0x3ffffffffffff8"
    by simp_all
  have u: "int (unat (b + c - a)) = int (unat b) + int (unat c) - int (unat a) \<and> unat (b + c - a) < 9 * 2 ^ 51"
    if "unat a < 2 ^ 51 + 1" "unat b < 2 ^ 51 + 1" "2 ^ 51 + 1 < unat c" "unat c < 2 ^ 54 - 1" for a b c :: limb
  proof -
    have "unat (b + c) = unat b + unat c" using that by (simp add: unat_word_ariths)
    then show ?thesis using that by (simp add: unat_sub_if')
  qed
  have r: "fdifference_backwards x y = (b0 + 0x3fffffffffff68 - a0, b1 + 0x3ffffffffffff8 - a1,
      b2 + 0x3ffffffffffff8 - a2, b3 + 0x3ffffffffffff8 - a3, b4 + 0x3ffffffffffff8 - a4)"
    unfolding xy fdifference_backwards_def Let_def prod.case c ..
  have k: "unat (0x3fffffffffff68 :: limb) = 0x3fffffffffff68" "unat (0x3ffffffffffff8 :: limb) = 0x3ffffffffffff8"
    by simp_all
  have "fval (fdifference_backwards x y) = fval y - fval x + 8 * p25519"
    using assms u unfolding r unfolding xy by (simp add: fval_def p25519_def)
  moreover have "loose (fdifference_backwards x y)"
    using assms u unfolding r unfolding xy by simp
  ultimately show ?thesis by simp
qed

lemma scalar_identity:
  fixes B :: int
  assumes "i0 * s = B * q0 + m0" "i1 * s + q0 = B * q1 + m1" "i2 * s + q1 = B * q2 + m2"
    "i3 * s + q2 = B * q3 + m3" "i4 * s + q3 = B * q4 + m4"
  shows "(m0 + q4 * 19) + B * m1 + B ^ 2 * m2 + B ^ 3 * m3 + B ^ 4 * m4
    = (i0 + B * i1 + B ^ 2 * i2 + B ^ 3 * i3 + B ^ 4 * i4) * s - q4 * (B ^ 5 - 19)"
  using assms by algebra

lemma fscalar_limbs:
  assumes la: "a0 < 9 * 2 ^ 51" "a1 < 9 * 2 ^ 51" "a2 < 9 * 2 ^ 51" "a3 < 9 * 2 ^ 51" "a4 < 9 * 2 ^ 51"
    and k: "k < 2 ^ 17"
    and T: "T0 = a0 * k" "T1 = a1 * k + T0 div 2 ^ 51" "T2 = a2 * k + T1 div 2 ^ 51" "T3 = a3 * k + T2 div 2 ^ 51"
      "T4 = a4 * k + T3 div 2 ^ 51"
  shows "limbs (fscalar_product (of_nat a0, of_nat a1, of_nat a2, of_nat a3, of_nat a4) (of_nat k))
      = (T0 mod 2 ^ 51 + T4 div 2 ^ 51 * 19, T1 mod 2 ^ 51, T2 mod 2 ^ 51, T3 mod 2 ^ 51, T4 mod 2 ^ 51)"
    and "T4 div 2 ^ 51 < 2 ^ 21"
proof -
  have ak: "a * k < 9 * 2 ^ 68" if "a < 9 * 2 ^ 51" for a
    using mult_strict_mono [OF that k] by simp
  have step: "n div 2 ^ 51 < 2 ^ 21" if "n < 10 * 2 ^ 68" for n :: nat
    using that by (simp add: less_mult_imp_div_less)
  have T0: "T0 < 10 * 2 ^ 68" using ak [OF la(1)] by (simp add: T(1))
  have T1: "T1 < 10 * 2 ^ 68" using ak [OF la(2)] step [OF T0] by (simp add: T(2))
  have T2: "T2 < 10 * 2 ^ 68" using ak [OF la(3)] step [OF T1] by (simp add: T(3))
  have T3: "T3 < 10 * 2 ^ 68" using ak [OF la(4)] step [OF T2] by (simp add: T(4))
  have T4: "T4 < 10 * 2 ^ 68" using ak [OF la(5)] step [OF T3] by (simp add: T(5))
  have mk: "(ucast (of_nat a :: limb) :: u128) * ucast (of_nat k :: limb) = of_nat (a * k)" if "a < 9 * 2 ^ 51" for a
    using umul_of_nat [of a k] that k by (simp add: umul_def)
  have cy: "(ucast (ucast (drop_bit 51 (of_nat n :: u128)) :: limb) :: u128) = of_nat (n div 2 ^ 51)"
      "drop_bit 51 (of_nat n :: u128) = of_nat (n div 2 ^ 51)" if "n < 10 * 2 ^ 68" for n
    using that step [OF that] by (simp_all add: drop_bit_word_of_nat ucast_limb_of_nat ucast_wide_of_nat)
  have m: "(ucast (of_nat (n mod 2 ^ 51) :: limb) :: u128) = of_nat (n mod 2 ^ 51)" for n
    using mod_less_divisor [of "2 ^ 51" n] by (intro ucast_wide_of_nat) simp
  have n19: "(19 :: u128) = of_nat 19" by simp
  have r: "fscalar_product (of_nat a0, of_nat a1, of_nat a2, of_nat a3, of_nat a4) (of_nat k)
      = (of_nat (T0 mod 2 ^ 51 + T4 div 2 ^ 51 * 19), of_nat (T1 mod 2 ^ 51),
      of_nat (T2 mod 2 ^ 51), of_nat (T3 mod 2 ^ 51), of_nat (T4 mod 2 ^ 51))"
    unfolding fscalar_product_def Let_def prod.case mk [OF la(1)] T(1) [symmetric] cy(1) [OF T0]
      mk [OF la(2)] mk [OF la(3)] mk [OF la(4)] mk [OF la(5)] of_nat_add [symmetric] T(2) [symmetric] cy(1) [OF T1]
      T(3) [symmetric] cy(1) [OF T2] T(4) [symmetric] cy(1) [OF T3] T(5) [symmetric] cy(2) [OF T4]
      ucast_limb_of_nat and_mask51 m
    unfolding n19 of_nat_mult [symmetric] of_nat_add [symmetric] ucast_limb_of_nat ..
  show q: "T4 div 2 ^ 51 < 2 ^ 21" by (rule step [OF T4])
  show "limbs (fscalar_product (of_nat a0, of_nat a1, of_nat a2, of_nat a3, of_nat a4) (of_nat k))
      = (T0 mod 2 ^ 51 + T4 div 2 ^ 51 * 19, T1 mod 2 ^ 51, T2 mod 2 ^ 51, T3 mod 2 ^ 51, T4 mod 2 ^ 51)"
    unfolding r using q mod_less_divisor [of "2 ^ 51" T0]
    by (intro limbs_of_nats) (auto intro: less_trans [OF mod_less_divisor])
qed

lemma fscalar_correct:
  assumes "loose x" and "unat s < 2 ^ 17"
  shows "fval (fscalar_product x s) mod p25519 = fval x * int (unat s) mod p25519
    \<and> below (2 ^ 51 + 2 ^ 26) (fscalar_product x s)"
proof -
  obtain a0 a1 a2 a3 a4 where x: "x = (of_nat a0, of_nat a1, of_nat a2, of_nat a3, of_nat a4)"
    and ax: "limbs x = (a0, a1, a2, a3, a4)" by (rule felem_of_nats)
  have la: "a0 < 9 * 2 ^ 51" "a1 < 9 * 2 ^ 51" "a2 < 9 * 2 ^ 51" "a3 < 9 * 2 ^ 51" "a4 < 9 * 2 ^ 51"
    using assms(1) ax by (cases x, simp)+
  define k where "k = unat s"
  have k: "s = of_nat k" "k < 2 ^ 17" using assms(2) by (simp_all add: k_def)
  define T0 where "T0 = a0 * k"
  define T1 where "T1 = a1 * k + T0 div 2 ^ 51"
  define T2 where "T2 = a2 * k + T1 div 2 ^ 51"
  define T3 where "T3 = a3 * k + T2 div 2 ^ 51"
  define T4 where "T4 = a4 * k + T3 div 2 ^ 51"
  note l = fscalar_limbs [OF la k(2) T0_def T1_def T2_def T3_def T4_def, folded x k(1)]
  have lt: "n mod 2 ^ 51 < 2 ^ 51" for n :: nat by simp
  have dm: "int a * int k + int q = 2 ^ 51 * int (n div 2 ^ 51) + int (n mod 2 ^ 51)" if "n = a * k + q" for a q n
    using limb_split_add [OF that [symmetric]] by (simp only: of_nat_mult)
  have dm0: "int a0 * int k = 2 ^ 51 * int (T0 div 2 ^ 51) + int (T0 mod 2 ^ 51)"
    using limb_split [of T0] by (simp only: T0_def of_nat_mult)
  have "fval (fscalar_product x s) = fval x * int k - int (T4 div 2 ^ 51) * p25519"
    unfolding fval_def l ax nval.simps p25519_limbs of_nat_add of_nat_mult of_nat_numeral
    using dm0 dm [OF T1_def] dm [OF T2_def] dm [OF T3_def] dm [OF T4_def]
    by (rule scalar_identity)
  moreover have "T0 mod 2 ^ 51 + T4 div 2 ^ 51 * 19 < 2 ^ 51 + 2 ^ 26"
    using add_strict_mono [OF lt [of T0], of "T4 div 2 ^ 51 * 19" "2 ^ 26"] l(2) by simp
  then have "below (2 ^ 51 + 2 ^ 26) (fscalar_product x s)"
    using l(1) by (cases "fscalar_product x s") (simp add: less_trans [OF mod_less_divisor])
  ultimately show ?thesis by (simp only: sub_mult_mod k_def simp_thms)
qed

section \<open>Expansion and contraction\<close>

lemma bit_le_int: "bit (le_int bs) n \<longleftrightarrow> n div 8 < length bs \<and> bit (bs ! (n div 8)) (n mod 8)"
proof (induction bs arbitrary: n)
  case (Cons b bs)
  have "\<not> bit (uint b) m \<or> \<not> bit (push_bit 8 (le_int bs)) m" for m
    by (auto simp: bit_simps dest: bit_imp_le_length)
  then have "uint b + push_bit 8 (le_int bs) = uint b OR push_bit 8 (le_int bs)"
    by (intro disjunctive_add) blast
  then have e: "le_int (b # bs) = uint b OR push_bit 8 (le_int bs)" by (simp add: push_bit_eq_mult)
  show ?case
  proof (cases "n < 8")
    case True
    then show ?thesis unfolding e by (auto simp: bit_simps)
  next
    case False
    then have "n div 8 = Suc ((n - 8) div 8)" "(n - 8) mod 8 = n mod 8"
      by (auto simp: le_div_geq le_mod_geq)
    with False show ?thesis unfolding e by (auto simp: bit_simps Cons.IH dest: bit_imp_le_length)
  qed
qed simp

lemma load_limb_bit:
  assumes "8 \<le> length b" "n < 64"
  shows "bit (load_limb b) n \<longleftrightarrow> bit (b ! (n div 8)) (n mod 8)"
proof -
  have "load_limb b = le_word [b ! 0, b ! 1, b ! 2, b ! 3, b ! 4, b ! 5, b ! 6, b ! 7]"
    by (simp add: load_limb_def push_bit_or or.assoc)
  moreover have "[b ! 0, b ! 1, b ! 2, b ! 3, b ! 4, b ! 5, b ! 6, b ! 7] = take 8 b"
    using assms(1) by (intro nth_equalityI) (auto simp: less_Suc_eq numeral_eq_Suc)
  ultimately have "load_limb b = le_word (take 8 b)" by (simp only:)
  then have "bit (load_limb b) n \<longleftrightarrow> n div 8 < 8 \<and> bit (take 8 b ! (n div 8)) (n mod 8)"
    using assms by (simp add: bit_le_word)
  then show ?thesis using assms(2) by (simp add: less_mult_imp_div_less)
qed

lemma fexpand_limb:
  assumes "length b = 32" "off + 8 \<le> 32" "sh + 51 \<le> 64" "e = 8 * off + sh"
  shows "int (unat (drop_bit sh (load_limb (drop off b)) AND 0x7ffffffffffff)) = le_int b div 2 ^ e mod 2 ^ 51"
proof -
  have m: "(0x7ffffffffffff :: limb) = mask 51" by (simp add: mask_numeral)
  have "uint (drop_bit sh (load_limb (drop off b)) AND mask 51) = take_bit 51 (drop_bit (8 * off + sh) (le_int b))"
  proof (rule bit_eqI)
    fix n
    have "(8 * off + (sh + n)) div 8 = off + (sh + n) div 8" "(8 * off + (sh + n)) mod 8 = (sh + n) mod 8" by simp_all
    moreover have "off + (sh + n) div 8 < 32" if "n < 51" using that assms(2,3) by linarith
    ultimately show "bit (uint (drop_bit sh (load_limb (drop off b)) AND mask 51)) n
        \<longleftrightarrow> bit (take_bit 51 (drop_bit (8 * off + sh) (le_int b))) n"
      using assms by (auto simp: bit_simps bit_le_int load_limb_bit add.assoc)
  qed
  then show ?thesis unfolding m assms(4) by (simp add: take_bit_eq_mod drop_bit_eq_div)
qed

lemma split_base:
  fixes x B :: int
  assumes "0 < B"
  shows "x mod B ^ 5 = x mod B + B * (x div B mod B) + B ^ 2 * (x div B ^ 2 mod B)
    + B ^ 3 * (x div B ^ 3 mod B) + B ^ 4 * (x div B ^ 4 mod B)"
proof -
  have s: "x mod B ^ Suc k = x mod B + B * (x div B mod B ^ k)" for x k
    using assms zmod_zmult2_eq [of "B ^ k" x B] by simp
  have d: "x div B ^ k div B = x div B ^ Suc k" for k
    using assms zdiv_zmult2_eq [of B x "B ^ k"] by (simp add: mult.commute)
  have "x mod B ^ 5 = x mod B + B * (x div B mod B + B * (x div B ^ 2 mod B
      + B * (x div B ^ 3 mod B + B * (x div B ^ 4 mod B))))"
    using s [of x 4] s [of "x div B" 3] s [of "x div B ^ 2" 2] s [of "x div B ^ 3" 1] d [of 1] d [of 2] d [of 3]
    by (simp add: eval_nat_numeral)
  also have "\<dots> = x mod B + B * (x div B mod B) + B ^ 2 * (x div B ^ 2 mod B)
    + B ^ 3 * (x div B ^ 3 mod B) + B ^ 4 * (x div B ^ 4 mod B)" by algebra
  finally show ?thesis .
qed

lemma split_limbs:
  "x mod 2 ^ 255 = x mod 2 ^ 51 + 2 ^ 51 * (x div 2 ^ 51 mod 2 ^ 51) + (2 ^ 51) ^ 2 * (x div 2 ^ 102 mod 2 ^ 51)
    + (2 ^ 51) ^ 3 * (x div 2 ^ 153 mod 2 ^ 51) + (2 ^ 51) ^ 4 * (x div 2 ^ 204 mod 2 ^ 51)" for x :: int
proof -
  have "(2::int) ^ 255 = (2 ^ 51) ^ 5" "(2::int) ^ 102 = (2 ^ 51) ^ 2" "(2::int) ^ 153 = (2 ^ 51) ^ 3"
    "(2::int) ^ 204 = (2 ^ 51) ^ 4" by (simp_all only: flip: power_mult) simp_all
  then show ?thesis using split_base [of "2 ^ 51" x] by (simp only:) simp
qed

lemma fexpand_correct:
  assumes "length b = 32"
  shows "fval (fexpand b) = le_int b mod 2 ^ 255 \<and> below (2 ^ 51) (fexpand b)"
proof -
  have l0: "int (unat (load_limb b AND 0x7ffffffffffff)) = le_int b mod 2 ^ 51"
    using fexpand_limb [OF assms, of 0 0 0] by simp
  have l: "int (unat (drop_bit 3 (load_limb (drop 6 b)) AND 0x7ffffffffffff)) = le_int b div 2 ^ 51 mod 2 ^ 51"
    "int (unat (drop_bit 6 (load_limb (drop 12 b)) AND 0x7ffffffffffff)) = le_int b div 2 ^ 102 mod 2 ^ 51"
    "int (unat (drop_bit 1 (load_limb (drop 19 b)) AND 0x7ffffffffffff)) = le_int b div 2 ^ 153 mod 2 ^ 51"
    "int (unat (drop_bit 12 (load_limb (drop 24 b)) AND 0x7ffffffffffff)) = le_int b div 2 ^ 204 mod 2 ^ 51"
    by (rule fexpand_limb [OF assms]; simp)+
  have "unat (w AND 0x7ffffffffffff) < 2 ^ 51" for w :: limb
    using and_mask51 [of "unat w", where ?'a = 64] by (simp add: unat_word_of_nat)
  then have "below (2 ^ 51) (fexpand b)" by (simp add: fexpand_def)
  moreover have "fval (fexpand b) = le_int b mod 2 ^ 255"
    unfolding fval_def fexpand_def limbs.simps nval.simps split_limbs l0 l ..
  ultimately show ?thesis by blast
qed

type_synonym nlimbs = "nat \<times> nat \<times> nat \<times> nat \<times> nat"

fun ncarry :: "nlimbs \<Rightarrow> nlimbs" where
  "ncarry (N0, N1, N2, N3, N4) =
     (let T1 = N1 + N0 div 2 ^ 51; T2 = N2 + T1 div 2 ^ 51; T3 = N3 + T2 div 2 ^ 51
      in (N0 mod 2 ^ 51, T1 mod 2 ^ 51, T2 mod 2 ^ 51, T3 mod 2 ^ 51, N4 + T3 div 2 ^ 51))"

fun nfold :: "nlimbs \<Rightarrow> nlimbs" where
  "nfold (N0, N1, N2, N3, N4) = (N0 + 19 * (N4 div 2 ^ 51), N1, N2, N3, N4 mod 2 ^ 51)"

fun nbelow :: "nat \<Rightarrow> nlimbs \<Rightarrow> bool" where
  "nbelow n (N0, N1, N2, N3, N4) \<longleftrightarrow> N0 < n \<and> N1 < n \<and> N2 < n \<and> N3 < n \<and> N4 < n"

fun wide :: "nlimbs \<Rightarrow> felem_wide" where
  "wide (N0, N1, N2, N3, N4) = (of_nat N0, of_nat N1, of_nat N2, of_nat N3, of_nat N4)"

lemma ncarry_identity:
  fixes B :: int
  assumes "n0 = B * q0 + m0" "n1 + q0 = B * q1 + m1" "n2 + q1 = B * q2 + m2" "n3 + q2 = B * q3 + m3"
  shows "m0 + B * m1 + B ^ 2 * m2 + B ^ 3 * m3 + B ^ 4 * (n4 + q3)
    = n0 + B * n1 + B ^ 2 * n2 + B ^ 3 * n3 + B ^ 4 * n4"
  using assms by algebra

lemma ncarry_props:
  assumes "nbelow (2 ^ 60) N" and "ncarry N = (x0, x1, x2, x3, x4)"
  shows "nval (x0, x1, x2, x3, x4) = nval N \<and> x0 < 2 ^ 51 \<and> x1 < 2 ^ 51 \<and> x2 < 2 ^ 51 \<and> x3 < 2 ^ 51 \<and> x4 < 2 ^ 61
    \<and> fcontract_carry (wide N) = wide (x0, x1, x2, x3, x4)"
proof -
  obtain N0 N1 N2 N3 N4 where N: "N = (N0, N1, N2, N3, N4)" by (metis prod.collapse)
  define T1 where "T1 = N1 + N0 div 2 ^ 51"
  define T2 where "T2 = N2 + T1 div 2 ^ 51"
  define T3 where "T3 = N3 + T2 div 2 ^ 51"
  define T4 where "T4 = N4 + T3 div 2 ^ 51"
  have x: "x0 = N0 mod 2 ^ 51" "x1 = T1 mod 2 ^ 51" "x2 = T2 mod 2 ^ 51" "x3 = T3 mod 2 ^ 51" "x4 = T4"
    using assms(2) unfolding N ncarry.simps Let_def
    by (simp_all only: prod.inject flip: T1_def T2_def T3_def T4_def)
  have step: "n div 2 ^ 51 < 2 ^ 10" if "n < 2 ^ 61" for n :: nat
    using that by (simp add: less_mult_imp_div_less)
  have N0: "N0 < 2 ^ 61" using assms(1) N by simp
  have T1: "T1 < 2 ^ 61" using assms(1) N step [OF N0] by (simp add: T1_def)
  have T2: "T2 < 2 ^ 61" using assms(1) N step [OF T1] by (simp add: T2_def)
  have T3: "T3 < 2 ^ 61" using assms(1) N step [OF T2] by (simp add: T3_def)
  have T4: "T4 < 2 ^ 61" using assms(1) N step [OF T3] by (simp add: T4_def)
  have cy: "drop_bit 51 (of_nat n :: u128) = of_nat (n div 2 ^ 51)" if "n < 2 ^ 61" for n
    using that by (simp add: drop_bit_word_of_nat)
  have "fcontract_carry (wide N) = wide (x0, x1, x2, x3, x4)"
    unfolding x N wide.simps fcontract_carry_def Let_def prod.case cy [OF N0] of_nat_add [symmetric] T1_def [symmetric]
      cy [OF T1] T2_def [symmetric] cy [OF T2] T3_def [symmetric] cy [OF T3] T4_def [symmetric] and_mask51 ..
  moreover have "nval (x0, x1, x2, x3, x4) = nval N"
    unfolding N x nval.simps T4_def of_nat_add
    using limb_split [of N0] limb_split_add [OF T1_def [symmetric]] limb_split_add [OF T2_def [symmetric]]
      limb_split_add [OF T3_def [symmetric]]
    by (rule ncarry_identity)
  ultimately show ?thesis using T4 by (simp add: x)
qed

lemma nfold_props:
  assumes x: "x0 < 2 ^ 51" "x1 < 2 ^ 51" "x2 < 2 ^ 51" "x3 < 2 ^ 51" "x4 < 2 ^ 61" and y: "y = nfold (x0, x1, x2, x3, x4)"
    and v: "v = nval (x0, x1, x2, x3, x4)"
  shows "nval y = v mod 2 ^ 255 + 19 * (v div 2 ^ 255) \<and> nbelow (2 ^ 52) y
    \<and> fcontract_fold (wide (x0, x1, x2, x3, x4)) = wide y"
proof -
  define m where "m = nval (x0, x1, x2, x3, x4 mod 2 ^ 51)"
  have "v = 2 ^ 255 * int (x4 div 2 ^ 51) + m"
    using limb_split [of x4] unfolding v m_def nval.simps by simp
  moreover have "0 \<le> m" "m < 2 ^ 255"
    using x mod_less_divisor [of "2 ^ 51" x4] by (simp_all add: m_def)
  ultimately have "v mod 2 ^ 255 = m" "v div 2 ^ 255 = int (x4 div 2 ^ 51)"
    by simp_all
  then have "nval y = v mod 2 ^ 255 + 19 * (v div 2 ^ 255)"
    by (simp add: y m_def)
  moreover have q: "x4 div 2 ^ 51 < 2 ^ 10" using x(5) by (simp add: less_mult_imp_div_less)
  then have "nbelow (2 ^ 52) y"
    using x by (simp add: y less_trans [OF mod_less_divisor])
  moreover have "drop_bit 51 (of_nat x4 :: u128) = of_nat (x4 div 2 ^ 51)"
    using x(5) by (simp add: drop_bit_word_of_nat)
  then have "fcontract_fold (wide (x0, x1, x2, x3, x4)) = wide y"
    unfolding y by (simp add: fcontract_fold_def Let_def and_mask51)
  ultimately show ?thesis by blast
qed

lemma contract_pass:
  assumes "nbelow (2 ^ 60) N"
  obtains y where "fcontract_fold (fcontract_carry (wide N)) = wide y"
    "nval y = nval N mod 2 ^ 255 + 19 * (nval N div 2 ^ 255)" "nbelow (2 ^ 52) y"
proof -
  obtain x0 x1 x2 x3 x4 where c: "ncarry N = (x0, x1, x2, x3, x4)" by (metis prod.collapse)
  note p = ncarry_props [OF assms c]
  then have b: "x0 < 2 ^ 51" "x1 < 2 ^ 51" "x2 < 2 ^ 51" "x3 < 2 ^ 51" "x4 < 2 ^ 61" by blast+
  note q = nfold_props [OF b refl refl]
  show thesis
    using p q by (intro that [of "nfold (x0, x1, x2, x3, x4)"]) (simp_all only:)
qed

lemma nval_nonneg: "0 \<le> nval N"
  by (cases N) simp

lemma nval_bound: "nbelow (2 ^ 52) N \<Longrightarrow> nval N < 4 * 2 ^ 255"
  by (cases N) simp

text \<open>The value after the two first passes, and after the conditional subtraction of the modulus.\<close>

lemma wrap_once: "D \<le> a \<Longrightarrow> a < 2 * D \<Longrightarrow> a div D = 1 \<and> a mod D = a - D" for a D :: int
  using int_div_pos_eq [of a D 1 "a - D"] int_mod_pos_eq [of a D 1 "a - D"] by simp

lemma contract_values:
  fixes v :: int
  assumes "0 \<le> v" "v < 4 * 2 ^ 255"
    and "v1 = v mod 2 ^ 255 + 19 * (v div 2 ^ 255)" "v2 = v1 mod 2 ^ 255 + 19 * (v1 div 2 ^ 255)"
    and "v3 = (v2 + 19) mod 2 ^ 255 + 19 * ((v2 + 19) div 2 ^ 255)"
  shows "(v3 + 2 ^ 255 - 19) mod 2 ^ 255 = v mod p25519"
proof -
  have r: "(a mod 2 ^ 255 + 19 * (a div 2 ^ 255)) mod p25519 = a mod p25519" for a
  proof -
    have "a mod 2 ^ 255 + 19 * (a div 2 ^ 255) = a - (a div 2 ^ 255) * p25519"
      using mult_div_mod_eq [of "2 ^ 255" a] by (simp add: p25519_def algebra_simps)
    then show ?thesis by (simp only: sub_mult_mod)
  qed
  have "v div 2 ^ 255 < 4" "0 \<le> v div 2 ^ 255"
    using assms(1,2) zdiv_mono1 [of v "4 * 2 ^ 255 - 1" "2 ^ 255"] by (simp_all add: pos_imp_zdiv_nonneg_iff)
  then have v1: "0 \<le> v1" "v1 < 2 ^ 255 + 76" using assms(3) pos_mod_bound [of "2 ^ 255" v] by auto
  have v2: "0 \<le> v2 \<and> v2 < 2 ^ 255"
  proof (cases "v1 < 2 ^ 255")
    case True
    then show ?thesis using v1(1) assms(4) by simp
  next
    case False
    then have "v1 div 2 ^ 255 = 1" "v1 mod 2 ^ 255 = v1 - 2 ^ 255" using v1(2) wrap_once [of "2 ^ 255" v1] by simp_all
    then show ?thesis using assms(4) v1 False by simp
  qed
  have m: "v mod p25519 = v2 mod p25519" using assms(3,4) r by metis
  show ?thesis
  proof (cases "v2 < p25519")
    case True
    then have "v3 = v2 + 19" using v2 assms(5) by (simp add: p25519_def)
    then show ?thesis using True v2 m by simp
  next
    case False
    then have "(v2 + 19) div 2 ^ 255 = 1" "(v2 + 19) mod 2 ^ 255 = v2 + 19 - 2 ^ 255" "v2 mod p25519 = v2 - p25519"
      using v2 wrap_once [of "2 ^ 255" "v2 + 19"] wrap_once [of p25519 v2] by (simp_all add: p25519_def)
    then have "v3 + 2 ^ 255 - 19 = v2 - p25519 + 2 ^ 255" "0 \<le> v2 - p25519" "v2 - p25519 < 2 ^ 255"
      using v2 False assms(5) by (simp_all add: p25519_def)
    then have "(v3 + 2 ^ 255 - 19) mod 2 ^ 255 = v2 - p25519" by (simp only: mod_add_self2 mod_pos_pos_trivial)
    then show ?thesis using m \<open>v2 mod p25519 = v2 - p25519\<close> by simp
  qed
qed

lemma le_int_store_limb: "length (store_limb w) = 8 \<and> le_int (store_limb w) = int (unat w)"
proof -
  have m: "(0xff :: limb) = mask 8" by (simp add: mask_numeral)
  have "store_limb w = le_bytes 8 w"
  proof (rule nth_equalityI)
    fix i assume "i < length (store_limb w)"
    then have "i \<in> {0, 1, 2, 3, 4, 5, 6, 7}" by (auto simp: store_limb_def)
    then show "store_limb w ! i = le_bytes 8 w ! i"
      unfolding store_limb_def m by (auto intro!: bit_word_eqI simp: bit_simps)
  qed (simp add: store_limb_def)
  moreover have "le_int (le_bytes 8 w) = uint w"
  proof (rule bit_eqI)
    fix n :: nat
    have "n div 8 < 8 \<longleftrightarrow> n < 64" by (simp add: div_less_iff_less_mult)
    then show "bit (le_int (le_bytes 8 w)) n \<longleftrightarrow> bit (uint w) n"
      by (cases "n < 64") (auto simp: bit_le_int bit_simps dest: bit_imp_le_length)
  qed
  ultimately show ?thesis by simp
qed

lemma pack_limb:
  assumes "lo < 2 ^ k" "hi < 2 ^ 51" "k \<le> 51"
  shows "unat (ucast (of_nat lo OR push_bit k (of_nat hi) :: u128) :: limb) = (lo + 2 ^ k * hi) mod 2 ^ 64"
proof -
  have "\<not> bit lo n \<or> \<not> bit (push_bit k hi) n" for n
    using assms(1) by (auto simp: bit_simps) (metis bit_take_bit_iff linorder_not_less take_bit_nat_eq_self)
  then have "lo + push_bit k hi = lo OR push_bit k hi" by (intro disjunctive_add) blast
  then have "of_nat lo OR push_bit k (of_nat hi) = (of_nat (lo + 2 ^ k * hi) :: u128)"
    by (metis mult.commute of_nat_or_eq push_bit_eq_mult push_bit_of_nat)
  then show ?thesis by (simp only: ucast_limb_of_nat unsigned_of_nat take_bit_eq_mod) simp
qed

lemma split_pow: "int x = 2 ^ k * int (x div 2 ^ k) + int (x mod 2 ^ k)"
  using arg_cong [OF mult_div_mod_eq [of "2 ^ k" x], of int]
  by (simp only: of_nat_add of_nat_mult of_nat_power of_nat_numeral)

lemma packed_bytes:
  assumes "x0 < 2 ^ 51" "x1 < 2 ^ 51" "x2 < 2 ^ 51" "x3 < 2 ^ 51" "x4 < 2 ^ 51"
    and r: "r = store_limb (ucast (of_nat x0 OR push_bit 51 (of_nat x1) :: u128))
      @ store_limb (ucast (drop_bit 13 (of_nat x1) OR push_bit 38 (of_nat x2) :: u128))
      @ store_limb (ucast (drop_bit 26 (of_nat x2) OR push_bit 25 (of_nat x3) :: u128))
      @ store_limb (ucast (drop_bit 39 (of_nat x3) OR push_bit 12 (of_nat x4) :: u128))"
  shows "length r = 32 \<and> le_int r = nval (x0, x1, x2, x3, x4)"
proof -
  have d: "drop_bit k (of_nat x :: u128) = of_nat (x div 2 ^ k)" if "x < 2 ^ 51" for x k
    using that by (intro drop_bit_word_of_nat) simp
  have q: "x div 2 ^ k < 2 ^ j" if "x < 2 ^ 51" "j + k = 51" for x k j :: nat
    using that by (simp add: less_mult_imp_div_less flip: power_add)
  have low: "(lo + 2 ^ k * hi) mod 2 ^ 64 = lo + 2 ^ k * (hi mod 2 ^ j)" if "lo < 2 ^ k" "k + j = 64" for lo hi k j :: nat
  proof -
    have "(2::nat) ^ 64 = 2 ^ k * 2 ^ j" using that(2) by (metis power_add)
    then show ?thesis using that(1) by (simp only: mod_mult2_eq) simp
  qed
  have u: "unat (ucast (of_nat lo OR push_bit k (of_nat hi) :: u128) :: limb) = lo + 2 ^ k * (hi mod 2 ^ j)"
    if "lo < 2 ^ k" "hi < 2 ^ 51" "k + j = 64" "k \<le> 51" for lo hi k j
    using that by (simp only: pack_limb low)
  have u: "unat (ucast (of_nat x0 OR push_bit 51 (of_nat x1) :: u128) :: limb) = x0 + 2 ^ 51 * (x1 mod 2 ^ 13)"
    "unat (ucast (of_nat (x1 div 2 ^ 13) OR push_bit 38 (of_nat x2) :: u128) :: limb) = x1 div 2 ^ 13 + 2 ^ 38 * (x2 mod 2 ^ 26)"
    "unat (ucast (of_nat (x2 div 2 ^ 26) OR push_bit 25 (of_nat x3) :: u128) :: limb) = x2 div 2 ^ 26 + 2 ^ 25 * (x3 mod 2 ^ 39)"
    "unat (ucast (of_nat (x3 div 2 ^ 39) OR push_bit 12 (of_nat x4) :: u128) :: limb) = x3 div 2 ^ 39 + 2 ^ 12 * (x4 mod 2 ^ 52)"
    by (rule u; (rule assms q [OF assms(2)] q [OF assms(3)] q [OF assms(4)])?; simp)+
  have s: "le_int (store_limb w @ ys) = int (unat w) + 2 ^ 64 * le_int ys" for w ys
    using le_int_store_limb [of w] by (simp add: le_int_append)
  have "le_int r = int (x0 + 2 ^ 51 * (x1 mod 2 ^ 13)) + 2 ^ 64 * (int (x1 div 2 ^ 13 + 2 ^ 38 * (x2 mod 2 ^ 26))
      + 2 ^ 64 * (int (x2 div 2 ^ 26 + 2 ^ 25 * (x3 mod 2 ^ 39)) + 2 ^ 64 * int (x3 div 2 ^ 39 + 2 ^ 12 * (x4 mod 2 ^ 52))))"
    unfolding r d [OF assms(2)] d [OF assms(3)] d [OF assms(4)] s le_int_store_limb [THEN conjunct2] u ..
  also have "\<dots> = nval (x0, x1, x2, x3, x4)"
    using split_pow [of x1 13] split_pow [of x2 26] split_pow [of x3 39] assms(5) by simp
  finally show ?thesis using le_int_store_limb by (simp add: r)
qed

lemma nval_last_mod:
  assumes "x0 < 2 ^ 51" "x1 < 2 ^ 51" "x2 < 2 ^ 51" "x3 < 2 ^ 51"
  shows "nval (x0, x1, x2, x3, x4 mod 2 ^ 51) = nval (x0, x1, x2, x3, x4) mod 2 ^ 255"
proof -
  have "nval (x0, x1, x2, x3, x4) = nval (x0, x1, x2, x3, x4 mod 2 ^ 51) + 2 ^ 255 * int (x4 div 2 ^ 51)"
    using limb_split [of x4] unfolding nval.simps by simp
  moreover have "nval (x0, x1, x2, x3, x4 mod 2 ^ 51) < 2 ^ 255"
    using assms mod_less_divisor [of "2 ^ 51" x4] by simp
  ultimately show ?thesis using nval_nonneg by (simp only: mod_mult_self2 mod_pos_pos_trivial)
qed

lemma fcontract_correct:
  assumes "tight x"
  shows "length (fcontract x) = 32 \<and> le_int (fcontract x) = fval x mod p25519"
proof -
  obtain i0 i1 i2 i3 i4 where x: "x = (i0, i1, i2, i3, i4)" by (metis prod.collapse)
  define N where "N = limbs x"
  have w: "(ucast i0, ucast i1, ucast i2, ucast i3, ucast i4) = wide N"
    unfolding N_def x limbs.simps wide.simps ucast_wide_limb ..
  have "nbelow (2 ^ 60) N" using assms by (simp add: N_def x)
  then obtain y1 where y1: "fcontract_fold (fcontract_carry (wide N)) = wide y1"
    "nval y1 = nval N mod 2 ^ 255 + 19 * (nval N div 2 ^ 255)" "nbelow (2 ^ 52) y1" by (rule contract_pass)
  then have "nbelow (2 ^ 60) y1" by (cases y1) simp
  then obtain y2 where y2: "fcontract_fold (fcontract_carry (wide y1)) = wide y2"
    "nval y2 = nval y1 mod 2 ^ 255 + 19 * (nval y1 div 2 ^ 255)" "nbelow (2 ^ 52) y2" by (rule contract_pass)
  obtain b0 b1 b2 b3 b4 where b: "y2 = (b0, b1, b2, b3, b4)" by (metis prod.collapse)
  have "nbelow (2 ^ 60) (b0 + 19, b1, b2, b3, b4)" using y2(3) b by simp
  then obtain y3 where y3: "fcontract_fold (fcontract_carry (wide (b0 + 19, b1, b2, b3, b4))) = wide y3"
    "nval y3 = nval (b0 + 19, b1, b2, b3, b4) mod 2 ^ 255 + 19 * (nval (b0 + 19, b1, b2, b3, b4) div 2 ^ 255)"
    "nbelow (2 ^ 52) y3" by (rule contract_pass)
  obtain c0 c1 c2 c3 c4 where c: "y3 = (c0, c1, c2, c3, c4)" by (metis prod.collapse)
  define R where "R = (c0 + (2 ^ 51 - 19), c1 + (2 ^ 51 - 1), c2 + (2 ^ 51 - 1), c3 + (2 ^ 51 - 1), c4 + (2 ^ 51 - 1))"
  have "nbelow (2 ^ 60) R" using y3(3) c by (simp add: R_def)
  moreover obtain x0 x1 x2 x3 x4 where k: "ncarry R = (x0, x1, x2, x3, x4)" by (metis prod.collapse)
  ultimately have p: "nval (x0, x1, x2, x3, x4) = nval R" "x0 < 2 ^ 51" "x1 < 2 ^ 51" "x2 < 2 ^ 51" "x3 < 2 ^ 51"
    "fcontract_carry (wide R) = wide (x0, x1, x2, x3, x4)" using ncarry_props by blast+
  have "nval R = nval y3 + 2 ^ 255 - 19" by (simp add: R_def c)
  moreover have "nval (b0 + 19, b1, b2, b3, b4) = nval y2 + 19" by (simp add: b)
  moreover have "nval N < 4 * 2 ^ 255" using assms by (intro nval_bound) (simp add: N_def x)
  ultimately have v: "nval (x0, x1, x2, x3, x4 mod 2 ^ 51) = nval N mod p25519"
    using contract_values [OF nval_nonneg _ y1(2) y2(2), of "nval y3"] y3(2) p by (simp only: nval_last_mod)
  have W: "(of_nat c0 + (0x8000000000000 - 19), of_nat c1 + (0x8000000000000 - 1), of_nat c2 + (0x8000000000000 - 1),
      of_nat c3 + (0x8000000000000 - 1), of_nat c4 + (0x8000000000000 - 1)) = wide R" by (simp add: R_def)
  have B: "(of_nat b0 + 19, of_nat b1, of_nat b2, of_nat b3, of_nat b4) = wide (b0 + 19, b1, b2, b3, b4)" by simp
  show ?thesis
    using packed_bytes [OF p(2-5) _ refl, of "x4 mod 2 ^ 51"] v
    unfolding x fcontract_def Let_def prod.case w y1(1) y2(1) unfolding b wide.simps prod.case unfolding B y3(1)
    unfolding c wide.simps prod.case unfolding W p(6) unfolding wide.simps prod.case and_mask51
    by (simp add: fval_def N_def x)
qed

end
