(* ===== verification/Curve25519_Ladder.thy ===== *)
theory Curve25519_Ladder imports Curve25519_Field begin

text \<open>
  The Montgomery ladder, the inversion and \<open>curve25519_donna\<close> against the X25519 function of RFC 7748 over
  the integers modulo \<open>2 ^ 255 - 19\<close>.
\<close>

section \<open>RFC 7748\<close>

type_synonym ladder_ints = "int \<times> int \<times> int \<times> int"

definition monty_ref :: "int \<Rightarrow> ladder_ints \<Rightarrow> ladder_ints" where
  "monty_ref x_1 st =
     (let (x_2, z_2, x_3, z_3) = st;
          A = x_2 + z_2;
          AA = A ^ 2;
          B = x_2 - z_2;
          BB = B ^ 2;
          E = AA - BB;
          C = x_3 + z_3;
          D = x_3 - z_3;
          DA = D * A;
          CB = C * B
      in (AA * BB mod p25519, E * (AA + 121665 * E) mod p25519,
          (DA + CB) ^ 2 mod p25519, x_1 * (DA - CB) ^ 2 mod p25519))"

definition cswap :: "bool \<Rightarrow> ladder_ints \<Rightarrow> ladder_ints" where
  "cswap b st = (let (x_2, z_2, x_3, z_3) = st in if b then (x_3, z_3, x_2, z_2) else st)"

definition ladder_step :: "int \<Rightarrow> bool \<Rightarrow> ladder_ints \<Rightarrow> ladder_ints" where
  "ladder_step u b st = cswap b (monty_ref u (cswap b st))"

definition ladder :: "int \<Rightarrow> int \<Rightarrow> ladder_ints" where
  "ladder k u = fold (\<lambda>i. ladder_step u (bit k (255 - i))) [0..<256] (1, 0, u, 1)"

definition decodeScalar25519 :: "int \<Rightarrow> int" where
  "decodeScalar25519 k = 2 ^ 254 + 8 * (k mod 2 ^ 254 div 8)"

definition X25519 :: "int \<Rightarrow> int \<Rightarrow> int" where
  "X25519 k u = (let (x_2, z_2, _, _) = ladder (decodeScalar25519 k) (u mod 2 ^ 255)
     in x_2 * z_2 ^ (2 ^ 255 - 21) mod p25519)"

section \<open>The ladder step\<close>

definition modp :: "int \<Rightarrow> felem \<Rightarrow> bool" where
  "modp v x \<longleftrightarrow> fval x mod p25519 = v mod p25519"

lemma modp_fmul: "loose x \<Longrightarrow> loose y \<Longrightarrow> modp a x \<Longrightarrow> modp b y \<Longrightarrow> modp (a * b) (fmul x y) \<and> tight (fmul x y)"
  using fmul_correct [of x y] by (auto simp: modp_def intro: mod_mult_cong)

lemma modp_fsquare: "loose x \<Longrightarrow> modp a x \<Longrightarrow> modp (a ^ 2) (fsquare_times x 1) \<and> tight (fsquare_times x 1)"
  using fsquare_times_correct [of x 1] by (auto simp: modp_def) (metis power_mod)

lemma modp_fsum:
  "below m x \<Longrightarrow> below n y \<Longrightarrow> m + n \<le> 9 * 2 ^ 51 \<Longrightarrow> modp a x \<Longrightarrow> modp b y \<Longrightarrow> modp (a + b) (fsum x y) \<and> loose (fsum x y)"
  using fsum_correct [of m x n y] by (cases "fsum x y") (auto simp: modp_def intro: mod_add_cong)

lemma modp_fdifference:
  "tight x \<Longrightarrow> tight y \<Longrightarrow> modp a x \<Longrightarrow> modp b y \<Longrightarrow>
     modp (b - a) (fdifference_backwards x y) \<and> loose (fdifference_backwards x y)"
  using fdifference_correct [of x y] by (auto simp: modp_def intro: mod_diff_cong)

lemma modp_fscalar:
  "loose x \<Longrightarrow> modp a x \<Longrightarrow> modp (a * 121665) (fscalar_product x 121665) \<and> below (2 ^ 51 + 2 ^ 26) (fscalar_product x 121665)"
  using fscalar_correct [of x 121665] by (auto simp: modp_def intro: mod_mult_cong)

definition tracks :: "ladder_ints \<Rightarrow> ladder_state \<Rightarrow> bool" where
  "tracks v st \<longleftrightarrow> (case v of (a, b, c, d) \<Rightarrow> case st of (x, z, x', z') \<Rightarrow>
     modp a x \<and> modp b z \<and> modp c x' \<and> modp d z' \<and> tight x \<and> tight z \<and> tight x' \<and> tight z')"

lemma fmonty_correct:
  assumes "tracks (a, b, c, d) (x, z, x', z')" and q: "tight q" "modp u q"
  shows "tracks (monty_ref u (a, b, c, d)) (fmonty x z x' z' q)"
proof -
  have m: "modp a x" "modp b z" "modp c x'" "modp d z'" and t: "tight x" "tight z" "tight x'" "tight z'"
    using assms(1) by (simp_all add: tracks_def)
  define A B C D where "A = fsum x z" and "B = fdifference_backwards z x" and "C = fsum x' z'"
    and "D = fdifference_backwards z' x'"
  have A: "modp (a + b) A" "loose A" and B: "modp (a - b) B" "loose B" and C: "modp (c + d) C" "loose C"
    and D: "modp (c - d) D" "loose D"
    using m t modp_fsum [of "2 ^ 51 + 1" _ "2 ^ 51 + 1"] modp_fdifference by (simp_all add: A_def B_def C_def D_def)
  define CB DA where "CB = fmul C B" and "DA = fmul A D"
  have CB: "modp ((c + d) * (a - b)) CB" "tight CB" and DA: "modp ((a + b) * (c - d)) DA" "tight DA"
    using modp_fmul A B C D by (simp_all add: CB_def DA_def)
  define xx zz where "xx = fsquare_times A 1" and "zz = fsquare_times B 1"
  have xx: "modp ((a + b) ^ 2) xx" "tight xx" and zz: "modp ((a - b) ^ 2) zz" "tight zz"
    using modp_fsquare A B by (simp_all add: xx_def zz_def)
  define S T where "S = fsum CB DA" and "T = fdifference_backwards DA CB"
  have S: "modp ((c + d) * (a - b) + (a + b) * (c - d)) S" "loose S"
    and T: "modp ((c + d) * (a - b) - (a + b) * (c - d)) T" "loose T"
    using CB DA modp_fsum [of "2 ^ 51 + 1" CB "2 ^ 51 + 1"] modp_fdifference by (simp_all add: S_def T_def)
  define x3 z3 where "x3 = fsquare_times S 1" and "z3 = fmul (fsquare_times T 1) q"
  have 3: "modp (((c + d) * (a - b) + (a + b) * (c - d)) ^ 2) x3" "tight x3"
    "modp (((c + d) * (a - b) - (a + b) * (c - d)) ^ 2 * u) z3" "tight z3"
    using modp_fsquare [OF S(2,1)] modp_fsquare [OF T(2,1)] modp_fmul tight_loose q unfolding x3_def z3_def by blast+
  define E where "E = fdifference_backwards zz xx"
  have E: "modp ((a + b) ^ 2 - (a - b) ^ 2) E" "loose E" using modp_fdifference xx zz by (simp_all add: E_def)
  define F where "F = fsum (fscalar_product E 121665) xx"
  have F: "modp (((a + b) ^ 2 - (a - b) ^ 2) * 121665 + (a + b) ^ 2) F" "loose F"
    using modp_fsum [OF conjunct2 [OF modp_fscalar [OF E(2,1)]] xx(2) _ conjunct1 [OF modp_fscalar [OF E(2,1)]] xx(1)]
    unfolding F_def by simp_all
  have "modp ((a + b) ^ 2 * (a - b) ^ 2) (fmul xx zz)" "tight (fmul xx zz)"
    "modp (((a + b) ^ 2 - (a - b) ^ 2) * (((a + b) ^ 2 - (a - b) ^ 2) * 121665 + (a + b) ^ 2)) (fmul E F)" "tight (fmul E F)"
    using modp_fmul tight_loose xx zz E F by blast+
  moreover have "fmonty x z x' z' q = (fmul xx zz, fmul E F, x3, z3)"
    unfolding fmonty_def Let_def xx_def zz_def E_def F_def x3_def z3_def S_def T_def CB_def DA_def A_def B_def C_def D_def ..
  moreover have "(c + d) * (a - b) + (a + b) * (c - d) = (c - d) * (a + b) + (c + d) * (a - b)"
    "((c + d) * (a - b) - (a + b) * (c - d)) ^ 2 = ((c - d) * (a + b) - (c + d) * (a - b)) ^ 2"
    by (simp_all add: algebra_simps power2_commute)
  ultimately show ?thesis using 3
    by (simp add: tracks_def monty_ref_def Let_def modp_def mult.commute add.commute)
qed

section \<open>The loops\<close>

lemma swap_conditional_correct: "swap_conditional x y 1 = (y, x)" "swap_conditional x y 0 = (x, y)"
proof -
  have "v XOR (- 1 AND (v XOR w)) = w" "w XOR (- 1 AND (v XOR w)) = v" for v w :: limb
    by (auto intro: bit_word_eqI simp: bit_simps)
  then show "swap_conditional x y 1 = (y, x)"
    unfolding swap_conditional_def Let_def by (cases x; cases y) simp
  show "swap_conditional x y 0 = (x, y)"
    unfolding swap_conditional_def Let_def by (cases x; cases y) simp
qed

lemma cmult_step_correct:
  assumes "tracks v st" and "tight q" "modp u q"
  shows "tracks (ladder_step u b v) (cmult_step q (of_bool b) st)"
proof -
  obtain v1 v2 v3 v4 where v: "v = (v1, v2, v3, v4)" by (metis prod.collapse)
  obtain x z x' z' where st: "st = (x, z, x', z')" by (metis prod.collapse)
  define w where "w = cswap b v"
  define y where "y = (if b then (x', z', x, z) else (x, z, x', z'))"
  obtain w1 w2 w3 w4 y1 y2 y3 y4 where wy: "w = (w1, w2, w3, w4)" "y = (y1, y2, y3, y4)" by (metis prod.collapse)
  have "tracks w y" using assms(1) by (simp add: w_def y_def cswap_def v st tracks_def)
  then have f: "tracks (monty_ref u w) (fmonty y1 y2 y3 y4 q)"
    unfolding wy by (rule fmonty_correct) fact+
  obtain r1 r2 r3 r4 where r: "fmonty y1 y2 y3 y4 q = (r1, r2, r3, r4)" by (metis prod.collapse)
  obtain m1 m2 m3 m4 where m: "monty_ref u w = (m1, m2, m3, m4)" by (metis prod.collapse)
  have "cmult_step q (of_bool b) st = (if b then (r3, r4, r1, r2) else (r1, r2, r3, r4))"
    using r wy by (cases b) (simp_all add: cmult_step_def st y_def swap_conditional_correct)
  moreover have "ladder_step u b v = (if b then (m3, m4, m1, m2) else (m1, m2, m3, m4))"
    unfolding ladder_step_def w_def [symmetric] m by (simp add: cswap_def)
  ultimately show ?thesis using f by (simp add: r m tracks_def)
qed

lemma cmult_bits_fold:
  "n \<le> 8 \<Longrightarrow> cmult_bits q byte n st = fold (\<lambda>j. cmult_step q (of_bool (bit byte (7 - j)))) [0..<n] st"
proof (induction n arbitrary: byte st)
  case (Suc n)
  have b: "ucast (drop_bit 7 byte) = (of_bool (bit byte 7) :: limb)"
  proof (rule bit_word_eqI)
    fix n assume "n < LENGTH(64)"
    show "bit (ucast (drop_bit 7 byte) :: limb) n = bit (of_bool (bit byte 7) :: limb) n"
      by (cases n) (auto simp: bit_simps dest: bit_imp_le_length)
  qed
  define next_byte where "next_byte = push_bit 1 byte"
  have s: "bit next_byte (7 - j) = bit byte (7 - Suc j)" if "j < n" for j
    using that Suc.prems by (auto simp: next_byte_def bit_push_bit_iff simp del: push_bit_Suc One_nat_def)
  have e: "fold (\<lambda>j. cmult_step q (of_bool (bit next_byte (7 - j)))) [0..<n] x
      = fold (\<lambda>j. cmult_step q (of_bool (bit byte (7 - Suc j)))) [0..<n] x" for x
    by (rule fold_cong) (simp_all only: refl s set_upt atLeastLessThan_iff)
  have "cmult_bits q byte (Suc n) st
      = fold (\<lambda>j. cmult_step q (of_bool (bit byte (7 - Suc j)))) [0..<n] (cmult_step q (of_bool (bit byte 7)) st)"
    using Suc.IH [of next_byte] Suc.prems
    by (simp only: cmult_bits.simps Let_def b e Suc_leD flip: next_byte_def)
  also have "\<dots> = fold (\<lambda>j. cmult_step q (of_bool (bit byte (7 - j)))) (0 # map Suc [0..<n]) st"
    by (simp add: fold_map comp_def)
  finally show ?case by (simp only: map_Suc_upt upt_conv_Cons [OF zero_less_Suc])
qed simp

lemma fold_nested:
  "fold (\<lambda>i s. fold (\<lambda>j. f (m * i + j)) [0..<m] s) [0..<n] s = fold f [0..<m * n] s"
proof (induction n)
  case (Suc n)
  have "[0..<m * Suc n] = [0..<m * n] @ map (\<lambda>j. m * n + j) [0..<m]"
    using upt_add_eq_append [of 0 "m * n" m] by (simp add: map_add_upt add.commute)
  then show ?case using Suc by (simp add: fold_map comp_def del: upt_Suc) (simp add: upt_Suc)
qed simp

lemma tracks_fold:
  assumes "tracks v st" and "tight q" "modp u q"
  shows "tracks (fold (\<lambda>i. ladder_step u (b i)) is v) (fold (\<lambda>i. cmult_step q (of_bool (b i))) is st)"
  using assms(1)
proof (induction "is" arbitrary: v st)
  case (Cons i "is")
  from Cons.IH [OF cmult_step_correct [OF Cons.prems assms(2,3), of "b i"]] show ?case by simp
qed simp

lemma cmult_correct:
  assumes "length n = 32" and "tight q" and "ladder (le_int n) (fval q) = (x_2, z_2, x_3, z_3)" and "cmult n q = (x, z)"
  shows "modp x_2 x \<and> modp z_2 z \<and> tight x \<and> tight z"
proof -
  let ?b = "\<lambda>i. bit (le_int n) (255 - i)"
  let ?st = "((1, 0, 0, 0, 0), (0, 0, 0, 0, 0), q, (1, 0, 0, 0, 0)) :: ladder_state"
  have b: "bit (n ! (31 - i)) (7 - j) = ?b (8 * i + j)" if "i < 32" "j < 8" for i j
  proof -
    have "255 - (8 * i + j) = 8 * (31 - i) + (7 - j)" using that by simp
    moreover have "(8 * (31 - i) + (7 - j)) div 8 = 31 - i" "(8 * (31 - i) + (7 - j)) mod 8 = 7 - j" by simp_all
    moreover have "31 - i < 32" by linarith
    ultimately show ?thesis using assms(1) by (simp add: bit_le_int)
  qed
  have "fold (\<lambda>i st. let byte = n ! (31 - i) in cmult_bits q byte 8 st) [0..<32] ?st
      = fold (\<lambda>i s. fold (\<lambda>j. cmult_step q (of_bool (?b (8 * i + j)))) [0..<8] s) [0..<32] ?st"
    by (intro fold_cong refl ext) (simp only: Let_def cmult_bits_fold le_refl, rule fold_cong,
      simp_all only: refl b set_upt atLeastLessThan_iff)
  also have "\<dots> = fold (\<lambda>i. cmult_step q (of_bool (?b i))) [0..<8 * 32] ?st"
    by (rule fold_nested)
  also have "(8 * 32 :: nat) = 256" by simp
  finally have c: "fold (\<lambda>i st. let byte = n ! (31 - i) in cmult_bits q byte 8 st) [0..<32] ?st
      = fold (\<lambda>i. cmult_step q (of_bool (?b i))) [0..<256] ?st" .
  have "tracks (1, 0, fval q, 1) ?st" using assms(2) by (simp add: tracks_def modp_def fval_def)
  from tracks_fold [OF this assms(2), of "fval q" ?b "[0..<256]"]
  have "tracks (x_2, z_2, x_3, z_3) (fold (\<lambda>i. cmult_step q (of_bool (?b i))) [0..<256] ?st)"
    by (simp only: assms(3) [unfolded ladder_def] modp_def)
  then show ?thesis using assms(4) unfolding cmult_def c tracks_def
    by (simp only: prod.case Let_def split: prod.splits) blast
qed

section \<open>Inversion\<close>

definition raised :: "felem \<Rightarrow> nat \<Rightarrow> felem \<Rightarrow> bool" where
  "raised z e a \<longleftrightarrow> loose a \<and> fval a mod p25519 = fval z ^ e mod p25519"

lemma raised_mul:
  assumes "raised z e a" "raised z f b" "e + f = g"
  shows "raised z g (fmul a b)"
proof -
  have "fval a * fval b mod p25519 = fval z ^ e * fval z ^ f mod p25519"
    using assms(1,2) by (intro mod_mult_cong) (simp_all only: raised_def)
  then have "fval (fmul a b) mod p25519 = fval z ^ g mod p25519" "tight (fmul a b)"
    using fmul_correct [of a b] assms by (simp_all only: raised_def power_add flip: assms(3))
  then show ?thesis unfolding raised_def by (blast intro: tight_loose)
qed

lemma raised_sq:
  assumes "raised z e a" "count \<noteq> 0" "e * 2 ^ unat count = g"
  shows "raised z g (fsquare_times a count)"
proof -
  have "fval a ^ 2 ^ unat count mod p25519 = (fval z ^ e) ^ 2 ^ unat count mod p25519"
    using assms(1) power_mod [of "fval a" p25519 "2 ^ unat count"] power_mod [of "fval z ^ e" p25519 "2 ^ unat count"]
    unfolding raised_def by metis
  then have "fval (fsquare_times a count) mod p25519 = fval z ^ g mod p25519" "tight (fsquare_times a count)"
    using fsquare_times_correct [OF _ assms(2), of a] assms(1) by (simp_all only: raised_def power_mult simp_thms flip: assms(3))
  then show ?thesis unfolding raised_def by (blast intro: tight_loose)
qed

lemma crecip_correct:
  assumes z: "tight z"
  shows "fval (crecip z) mod p25519 = fval z ^ (2 ^ 255 - 21) mod p25519 \<and> loose (crecip z)"
proof -
  define a0 where "a0 = fsquare_times z 1"
  define b0 where "b0 = fmul (fsquare_times a0 2) z"
  define a where "a = fmul b0 a0"
  define b1 where "b1 = fmul (fsquare_times a 1) b0"
  define b2 where "b2 = fmul (fsquare_times b1 5) b1"
  define c1 where "c1 = fmul (fsquare_times b2 10) b2"
  define t1 where "t1 = fmul (fsquare_times c1 20) c1"
  define b3 where "b3 = fmul (fsquare_times t1 10) b2"
  define c2 where "c2 = fmul (fsquare_times b3 50) b3"
  define t2 where "t2 = fmul (fsquare_times c2 100) c2"
  define t3 where "t3 = fmul (fsquare_times t2 50) b3"
  have 1: "raised z 1 z" using tight_loose [OF z] by (simp add: raised_def)
  have "raised z 2 a0" unfolding a0_def by (rule raised_sq [OF 1]) simp_all
  then have a0: "raised z 2 a0" .
  have b0: "raised z 9 b0" unfolding b0_def by (rule raised_mul [OF raised_sq [OF a0 _ refl] 1]) simp_all
  have a: "raised z 11 a" unfolding a_def by (rule raised_mul [OF b0 a0]) simp
  have b1: "raised z (2 ^ 5 - 1) b1" unfolding b1_def by (rule raised_mul [OF raised_sq [OF a _ refl] b0]) simp_all
  have b2: "raised z (2 ^ 10 - 1) b2" unfolding b2_def by (rule raised_mul [OF raised_sq [OF b1 _ refl] b1]) simp_all
  have c1: "raised z (2 ^ 20 - 1) c1" unfolding c1_def by (rule raised_mul [OF raised_sq [OF b2 _ refl] b2]) simp_all
  have t1: "raised z (2 ^ 40 - 1) t1" unfolding t1_def by (rule raised_mul [OF raised_sq [OF c1 _ refl] c1]) simp_all
  have b3: "raised z (2 ^ 50 - 1) b3" unfolding b3_def by (rule raised_mul [OF raised_sq [OF t1 _ refl] b2]) simp_all
  have c2: "raised z (2 ^ 100 - 1) c2" unfolding c2_def by (rule raised_mul [OF raised_sq [OF b3 _ refl] b3]) simp_all
  have t2: "raised z (2 ^ 200 - 1) t2" unfolding t2_def by (rule raised_mul [OF raised_sq [OF c2 _ refl] c2]) simp_all
  have t3: "raised z (2 ^ 250 - 1) t3" unfolding t3_def by (rule raised_mul [OF raised_sq [OF t2 _ refl] b3]) simp_all
  have "raised z (2 ^ 255 - 21) (fmul (fsquare_times t3 5) a)"
    by (rule raised_mul [OF raised_sq [OF t3 _ refl] a]) simp_all
  moreover have "crecip z = fmul (fsquare_times t3 5) a"
    unfolding crecip_def Let_def a0_def b0_def a_def b1_def b2_def c1_def t1_def b3_def c2_def t2_def t3_def ..
  ultimately show ?thesis by (simp only: raised_def)
qed

section \<open>X25519\<close>

lemma bit_decodeScalar: "bit (decodeScalar25519 k) n \<longleftrightarrow> n = 254 \<or> 3 \<le> n \<and> n < 254 \<and> bit k n"
proof -
  define m where "m = push_bit 3 (drop_bit 3 (take_bit 254 k))"
  have b: "bit m n \<longleftrightarrow> 3 \<le> n \<and> n < 254 \<and> bit k n" for n by (auto simp: m_def bit_simps)
  define t :: int where "t = 2 ^ 254"
  have t: "bit t n \<longleftrightarrow> n = 254" for n unfolding t_def bit_exp_iff by auto
  have "decodeScalar25519 k = t + m"
    by (simp add: decodeScalar25519_def m_def t_def push_bit_eq_mult drop_bit_eq_div take_bit_eq_mod mult.commute)
  also have "\<dots> = t OR m" by (rule disjunctive_add) (auto simp: b t)
  finally show ?thesis by (auto simp: bit_or_iff t b)
qed

lemma clamp_bits:
  assumes "i < 8"
  shows "bit (b AND 248 :: u8) i \<longleftrightarrow> bit b i \<and> 3 \<le> i"
    and "bit ((b AND 127) OR 64 :: u8) i \<longleftrightarrow> i = 6 \<or> bit b i \<and> i < 7"
proof -
  have m: "(248 :: u8) = push_bit 3 (mask 5)" "(127 :: u8) = mask 7" "(64 :: u8) = 2 ^ 6"
    by (simp_all add: mask_numeral)
  show "bit (b AND 248 :: u8) i \<longleftrightarrow> bit b i \<and> 3 \<le> i"
    "bit ((b AND 127) OR 64 :: u8) i \<longleftrightarrow> i = 6 \<or> bit b i \<and> i < 7"
    unfolding m bit_and_iff bit_or_iff bit_push_bit_iff bit_mask_iff bit_exp_iff using assms by auto
qed

lemma clamp_correct:
  assumes "length e = 32"
  shows "le_int (e[0 := e ! 0 AND 248, 31 := (e ! 31 AND 127) OR 64]) = decodeScalar25519 (le_int e)"
proof (rule bit_eqI)
  fix n :: nat
  obtain q r where n: "n = 8 * q + r" "r < 8" by (metis mod_less_divisor mult_div_mod_eq zero_less_numeral)
  then have d: "n div 8 = q" "n mod 8 = r" by simp_all
  let ?e = "e[0 := e ! 0 AND 248, 31 := (e ! 31 AND 127) OR 64]"
  have "bit (?e ! q) r \<longleftrightarrow> n = 254 \<or> 3 \<le> n \<and> n < 254 \<and> bit (e ! q) r" if "q < 32"
  proof -
    consider "q = 0" | "q = 31" | "q \<noteq> 0" "q \<noteq> 31" by blast
    then show ?thesis
    proof cases
      case 1
      then have "?e ! q = e ! 0 AND 248" using assms by simp
      then show ?thesis using 1 n clamp_bits(1) [OF n(2), of "e ! 0"] by auto
    next
      case 2
      then have "?e ! q = (e ! 31 AND 127) OR 64" using assms by simp
      then show ?thesis using 2 n clamp_bits(2) [OF n(2), of "e ! 31"] by auto
    next
      case 3
      then have "?e ! q = e ! q" "3 \<le> n" "n < 248" using assms n that by (simp, linarith+)
      then show ?thesis by simp
    qed
  qed
  moreover have "q < 32" if "n = 254" using n that by linarith
  ultimately show "bit (le_int ?e) n \<longleftrightarrow> bit (decodeScalar25519 (le_int e)) n"
    unfolding bit_decodeScalar bit_le_int d using assms by auto
qed

lemma donna_X25519:
  assumes "length secret = 32" "length basepoint = 32"
  shows "length (curve25519_donna secret basepoint) = 32
    \<and> le_int (curve25519_donna secret basepoint) = X25519 (le_int secret) (le_int basepoint)"
proof -
  let ?e = "secret[0 := secret ! 0 AND 248, 31 := (secret ! 31 AND 127) OR 64]"
  define bp where "bp = fexpand basepoint"
  have bp: "fval bp = le_int basepoint mod 2 ^ 255" "tight bp"
    using fexpand_correct [OF assms(2)] unfolding bp_def by (simp, cases "fexpand basepoint") auto
  obtain x_2 z_2 x_3 z_3 where l: "ladder (le_int ?e) (fval bp) = (x_2, z_2, x_3, z_3)" by (metis prod.collapse)
  obtain x z where c: "cmult ?e bp = (x, z)" by (metis prod.collapse)
  have xz: "modp x_2 x" "modp z_2 z" "tight x" "tight z"
    using cmult_correct [OF _ bp(2) l c] assms(1) by simp_all
  define r where "r = fmul x (crecip z)"
  have "fval r mod p25519 = fval x * fval (crecip z) mod p25519" "tight r"
    using fmul_correct [of x "crecip z"] crecip_correct [OF xz(4)] tight_loose [OF xz(3)] unfolding r_def by blast+
  moreover have "fval x * fval (crecip z) mod p25519 = x_2 * z_2 ^ (2 ^ 255 - 21) mod p25519"
    using xz(1,2) crecip_correct [OF xz(4)] unfolding modp_def by (metis mod_mult_cong power_mod)
  moreover have "curve25519_donna secret basepoint = fcontract r"
    using assms(1) c unfolding curve25519_donna_def Let_def bp_def [symmetric] by (simp add: r_def)
  moreover have "X25519 (le_int secret) (le_int basepoint) = x_2 * z_2 ^ (2 ^ 255 - 21) mod p25519"
    using l unfolding X25519_def clamp_correct [OF assms(1)] bp(1) by (simp only: prod.case Let_def)
  ultimately show ?thesis using fcontract_correct [of r] by (simp only: simp_thms)
qed

section \<open>Properties\<close>

text \<open>C16. \<open>curve25519_donna\<close> on a 32-byte secret and a 32-byte point is the X25519 function of RFC 7748 (scalar
  clamping, masking of the top bit of the point, Montgomery ladder over all 256 bits, inversion by
  exponentiation), and its 32 output bytes are the fully reduced result in little-endian order.\<close>

theorem curve25519_donna_correct:
  assumes "length secret = 32" and "length basepoint = 32"
  shows "length (curve25519_donna secret basepoint) = 32
    \<and> le_int (curve25519_donna secret basepoint) = X25519 (le_int secret) (le_int basepoint)"
  using assms by (rule donna_X25519)

theorem curve25519_donna_correct_witness:
  "length (replicate 32 (7::u8)) = 32 \<and> length ((9::u8) # replicate 31 0) = 32
    \<and> le_int (curve25519_donna (replicate 32 7) (9 # replicate 31 0))
      = X25519 (le_int (replicate 32 7)) (le_int (9 # replicate 31 0))"
  using curve25519_donna_correct [of "replicate 32 7" "9 # replicate 31 0"] by simp

text \<open>C28. \<open>fmul\<close> multiplies modulo \<open>2 ^ 255 - 19\<close> and returns limbs of at most \<open>2 ^ 51\<close>, for limbs below
  \<open>9 * 2 ^ 51\<close> on input; no intermediate 64-bit or 128-bit value wraps within these bounds.\<close>

theorem fmul_bounds:
  assumes "loose x" and "loose y"
  shows "fval (fmul x y) mod p25519 = fval x * fval y mod p25519 \<and> tight (fmul x y)"
  using assms by (rule fmul_correct)

theorem fmul_bounds_witness:
  "loose (9 * 2 ^ 51 - 1, 9 * 2 ^ 51 - 1, 9 * 2 ^ 51 - 1, 9 * 2 ^ 51 - 1, 9 * 2 ^ 51 - 1)
    \<and> tight (fmul (9 * 2 ^ 51 - 1, 9 * 2 ^ 51 - 1, 9 * 2 ^ 51 - 1, 9 * 2 ^ 51 - 1, 9 * 2 ^ 51 - 1)
        (9 * 2 ^ 51 - 1, 9 * 2 ^ 51 - 1, 9 * 2 ^ 51 - 1, 9 * 2 ^ 51 - 1, 9 * 2 ^ 51 - 1))"
proof -
  let ?m = "9 * 2 ^ 51 - 1 :: limb"
  have "loose (?m, ?m, ?m, ?m, ?m)" by simp
  from this fmul_bounds [OF this this] show ?thesis by blast
qed

text \<open>C29. The bound the comment on \<open>fmul\<close> states, limbs below \<open>2 ^ 55\<close>, is not enough: on limbs all equal to
  \<open>2 ^ 55 - 1\<close> the 64-bit carries are truncated and the result is not the product modulo
  \<open>2 ^ 255 - 19\<close>.\<close>

theorem fmul_stated_bound_insufficient:
  "\<exists>x y. below (2 ^ 55) x \<and> below (2 ^ 55) y \<and> fval (fmul x y) mod p25519 \<noteq> fval x * fval y mod p25519"
proof -
  let ?m = "0x7fffffffffffff :: limb"
  let ?x = "(?m, ?m, ?m, ?m, ?m)"
  have u: "umul ?m ?m = 1298074214633706835075030044377089" "?m * 19 = 684547143360315373" "umul 684547143360315373 ?m = 24663410078040429866425570843164691"
    by (simp_all add: umul_def)
  have "fmul ?x ?x = fcarry (99951714526795426300777313417035853, 76586378663388703269426772618248251,
      53221042799981980238076231819460649, 29855706936575257206725691020673047, 6490371073168534175375150221885445)"
    unfolding fmul_def Let_def prod.case u by simp
  also have "\<dots> = (108909, 5531, 1481, 5623, 1573)" by (simp add: fcarry_def)
  finally have f: "fmul ?x ?x = (108909, 5531, 1481, 5623, 1573)" .
  have "below (2 ^ 55) ?x" by simp
  moreover have "fval (fmul ?x ?x) mod p25519 \<noteq> fval ?x * fval ?x mod p25519"
    unfolding f by (simp add: fval_def p25519_def)
  ultimately show ?thesis by blast
qed

text \<open>C30. The unrolled squaring equals the general multiplication of an element by itself, and \<open>fsquare_times\<close> returns
  for every count an element within the bounds: the argument squared \<open>count\<close> times, that is raised to the power \<open>2 ^ count\<close>,
  where a count of zero wraps around and makes \<open>2 ^ 64\<close> rounds.\<close>

theorem fsquare_times_correct_power:
  assumes "loose x"
  shows "fsquare x = fmul x x
    \<and> (\<exists>n. n = (if count = 0 then 2 ^ 64 else unat count)
        \<and> fval (fsquare_times x count) mod p25519 = fval x ^ 2 ^ n mod p25519 \<and> tight (fsquare_times x count))"
  using fsquare_fmul [OF assms] fsquare_times_rounds [OF assms, of count] rounds_eq [of count] by blast

theorem fsquare_times_correct_power_witness:
  "loose (3, 0, 0, 0, 0) \<and> fval (fsquare_times (3, 0, 0, 0, 0) 5) mod p25519 = 3 ^ 32 mod p25519"
proof -
  have l: "loose (3, 0, 0, 0, 0)" by simp
  have "fval (3, 0, 0, 0, 0) = 3" by (simp add: fval_def)
  with l fsquare_times_correct_power [OF l, of 5] show ?thesis by simp
qed

text \<open>\<open>fexpand\<close> reads the low 255 bits of 32 little-endian bytes, and \<open>fcontract\<close> writes the canonical
  representative below \<open>2 ^ 255 - 19\<close>: contracting an expanded element gives back its value reduced.\<close>

theorem fexpand_fcontract:
  assumes "length b = 32"
  shows "le_int (fcontract (fexpand b)) = (le_int b mod 2 ^ 255) mod p25519"
proof -
  have "tight (fexpand b)" using fexpand_correct [OF assms] by (cases "fexpand b") auto
  then show ?thesis using fcontract_correct [of "fexpand b"] fexpand_correct [OF assms] by (simp only: simp_thms)
qed

theorem fexpand_fcontract_witness:
  "length ([255, 255, 255, 255, 255, 255, 255, 255, 255, 255, 255, 255, 255, 255, 255, 255,
      255, 255, 255, 255, 255, 255, 255, 255, 255, 255, 255, 255, 255, 255, 255, 255] :: bytes) = 32
    \<and> le_int (fcontract (fexpand [255, 255, 255, 255, 255, 255, 255, 255, 255, 255, 255, 255, 255, 255, 255, 255,
      255, 255, 255, 255, 255, 255, 255, 255, 255, 255, 255, 255, 255, 255, 255, 255])) = 18"
  using fexpand_fcontract [of "[255, 255, 255, 255, 255, 255, 255, 255, 255, 255, 255, 255, 255, 255, 255, 255,
      255, 255, 255, 255, 255, 255, 255, 255, 255, 255, 255, 255, 255, 255, 255, 255]"]
  by (simp add: p25519_def)

end
