(* ===== verification/Sgxsd_Crypto.thy ===== *)
theory Sgxsd_Crypto imports HMAC GCM Curve25519_Ladder begin

text \<open>
  The cryptographic helpers of \<open>c_src/sgxsd-enclave.c\<close>: AES-256-GCM on whole buffers, SHA-256 and HMAC over
  buffer lists, and the HKDF rounds. A pointer parameter that the code compares with \<open>NULL\<close> is an
  \<open>option\<close>; a function that writes through pointers returns the new contents. The contexts these
  functions keep on the stack start out as zeros here: the results of the BearSSL functions do not
  depend on what a context held before (\<open>GCM\<close>, \<open>HMAC\<close>), and the code erases them before it returns.
\<close>

datatype sgx_status =
    SGX_SUCCESS
  | SGX_ERROR_UNEXPECTED
  | SGX_ERROR_INVALID_PARAMETER
  | SGX_ERROR_OUT_OF_MEMORY
  | SGX_ERROR_INVALID_STATE
  | SGX_ERROR_MAC_MISMATCH
  | SGXSD_ERROR_PENDING_REQUEST_NOT_FOUND
  | SGX_ERROR_OTHER u32

definition SGXSD_AES_GCM_IV_SIZE :: nat where "SGXSD_AES_GCM_IV_SIZE = 12"
definition SGXSD_AES_GCM_MAC_SIZE :: nat where "SGXSD_AES_GCM_MAC_SIZE = 16"
definition SGXSD_AES_GCM_KEY_SIZE :: nat where "SGXSD_AES_GCM_KEY_SIZE = 32"
definition SGXSD_CURVE25519_KEY_SIZE :: nat where "SGXSD_CURVE25519_KEY_SIZE = 32"
definition SGXSD_SHA256_HASH_SIZE :: nat where "SGXSD_SHA256_HASH_SIZE = 32"

lemmas sgxsd_sizes = SGXSD_AES_GCM_IV_SIZE_def SGXSD_AES_GCM_MAC_SIZE_def SGXSD_AES_GCM_KEY_SIZE_def
  SGXSD_CURVE25519_KEY_SIZE_def SGXSD_SHA256_HASH_SIZE_def

section \<open>AES-GCM\<close>

definition sgxsd_aes_gcm_run ::
  "bool \<Rightarrow> bytes option \<Rightarrow> bytes option \<Rightarrow> u32 \<Rightarrow> bytes option \<Rightarrow> bytes option \<Rightarrow> bytes option \<Rightarrow> u32
    \<Rightarrow> bytes option \<Rightarrow> sgx_status \<times> bytes option \<times> bytes option" where
  "sgxsd_aes_gcm_run encrypt p_key p_src src_len p_dst p_iv p_aad aad_len p_mac =
     (if p_key = None \<or> (p_src = None \<or> p_dst = None) \<and> src_len \<noteq> 0 \<or> p_iv = None
         \<or> p_aad = None \<and> aad_len \<noteq> 0 \<or> p_mac = None
      then (SGX_ERROR_INVALID_PARAMETER, p_dst, p_mac)
      else
        let n = unat src_len;
            aes_ctx = br_aes_x86ni_ctr_init (replicate 15 0) zero_ctr_keys (the p_key);
            ctx = br_gcm_init zero_gcm_context (br_aes_x86ni_ctr_run aes_ctx) br_ghash_pclmul;
            ctx = br_gcm_reset ctx (the p_iv);
            ctx = (if aad_len \<noteq> 0 then br_gcm_aad_inject ctx (take (unat aad_len) (the p_aad)) else ctx);
            ctx = br_gcm_flip ctx;
            (ctx, p_dst) = (if src_len \<noteq> 0
              then let dst = memcpy_at 0 (take n (the p_src)) (the p_dst);
                       (ctx, out) = br_gcm_run ctx encrypt (take n dst)
                   in (ctx, Some (memcpy_at 0 out dst))
              else (ctx, p_dst));
            (p_mac, tag_res) = (if encrypt then (Some (snd (br_gcm_get_tag ctx)), True)
              else (p_mac, snd (br_gcm_check_tag ctx (the p_mac)) \<noteq> 0))
        in if tag_res then (SGX_SUCCESS, p_dst, p_mac)
           else (SGX_ERROR_MAC_MISMATCH, map_option (memcpy_at 0 (replicate n 0)) p_dst, p_mac))"

definition sgxsd_aes_gcm_encrypt ::
  "bytes option \<Rightarrow> bytes option \<Rightarrow> u32 \<Rightarrow> bytes option \<Rightarrow> bytes option \<Rightarrow> bytes option \<Rightarrow> u32
    \<Rightarrow> bytes option \<Rightarrow> sgx_status \<times> bytes option \<times> bytes option" where
  "sgxsd_aes_gcm_encrypt p_key p_src src_len p_dst p_iv p_aad aad_len p_out_mac =
     sgxsd_aes_gcm_run True p_key p_src src_len p_dst p_iv p_aad aad_len p_out_mac"

definition sgxsd_aes_gcm_decrypt ::
  "bytes option \<Rightarrow> bytes option \<Rightarrow> u32 \<Rightarrow> bytes option \<Rightarrow> bytes option \<Rightarrow> bytes option \<Rightarrow> u32
    \<Rightarrow> bytes option \<Rightarrow> sgx_status \<times> bytes option" where
  "sgxsd_aes_gcm_decrypt p_key p_src src_len p_dst p_iv p_aad aad_len p_in_mac =
     (let (res, p_dst, _) = sgxsd_aes_gcm_run False p_key p_src src_len p_dst p_iv p_aad aad_len p_in_mac
      in (res, p_dst))"

section \<open>SHA-256, HMAC and HKDF\<close>

definition sgxsd_enclave_sha256 :: "bytes list \<Rightarrow> bytes" where
  "sgxsd_enclave_sha256 bufs =
     (let sha_context = br_sha256_init zero_context;
          sha_context = foldl br_sha224_update sha_context bufs
      in br_sha256_out sha_context)"

definition hmac_pad_step :: "bytes \<Rightarrow> bytes \<times> bytes \<Rightarrow> nat \<Rightarrow> bytes \<times> bytes" where
  "hmac_pad_step key pads i = (case pads of (i_key_pad, o_key_pad) \<Rightarrow>
     (i_key_pad[i := i_key_pad ! i XOR key ! i], o_key_pad[i := o_key_pad ! i XOR key ! i]))"

definition sgxsd_enclave_hmac_sha256 :: "bytes list \<Rightarrow> bytes" where
  "sgxsd_enclave_hmac_sha256 bufs =
     (let i_key_pad = replicate 64 0x36;
          o_key_pad = replicate 64 0x5c;
          key_buf = bufs ! 0;
          key_buf = (if 64 < length key_buf then sgxsd_enclave_sha256 [key_buf] else key_buf);
          (i_key_pad, o_key_pad) = foldl (hmac_pad_step key_buf) (i_key_pad, o_key_pad) [0..<length key_buf];
          bufs = bufs[0 := i_key_pad];
          hash = sgxsd_enclave_sha256 bufs
      in sgxsd_enclave_sha256 [o_key_pad, hash])"

record sgxsd_ra_hkdf_buf =
  t_n :: bytes
  hkdf_n :: u8

definition sgxsd_enclave_ra_hkdf_round :: "bytes \<Rightarrow> sgxsd_ra_hkdf_buf \<Rightarrow> sgxsd_ra_hkdf_buf" where
  "sgxsd_enclave_ra_hkdf_round prk buf =
     (let buf = buf\<lparr>hkdf_n := hkdf_n buf + 1\<rparr>;
          data = (if hkdf_n buf = 1 then [hkdf_n buf] else t_n buf @ [hkdf_n buf])
      in buf\<lparr>t_n := sgxsd_enclave_hmac_sha256 [prk, data]\<rparr>)"

definition zero_hkdf_buf :: sgxsd_ra_hkdf_buf where
  "zero_hkdf_buf = \<lparr>t_n = replicate 32 0, hkdf_n = 0\<rparr>"

text \<open>HKDF-Expand of RFC 5869 with an empty info string.\<close>

primrec rfc5869_T :: "bytes \<Rightarrow> nat \<Rightarrow> bytes" where
  "rfc5869_T prk 0 = []"
| "rfc5869_T prk (Suc i) = rfc2104_hmac fips_sha256 prk (rfc5869_T prk i @ [of_nat (Suc i)])"

section \<open>What they compute\<close>

lemma sha256_correct: "sgxsd_enclave_sha256 bufs = fips_sha256 (concat bufs)"
  by (simp add: sgxsd_enclave_sha256_def zero_context_def sha256.chunks_digest)

lemma length_fips_sha256 [simp]: "length (fips_sha256 m) = 32"
  by (rule sha256.digest_length)

lemma length_rfc2104_sha256 [simp]: "length (rfc2104_hmac fips_sha256 k m) = 32"
  by (simp add: rfc2104_hmac_def Let_def)

lemma hmac_pads:
  assumes "length key \<le> length a" "length a = length b"
  shows "foldl (hmac_pad_step key) (a, b) [0..<length key]
    = (xor_bytes (take (length key) a) key @ drop (length key) a, xor_bytes (take (length key) b) key @ drop (length key) b)"
proof -
  have "foldl (hmac_pad_step key) (a, b) [0..<n]
      = (xor_bytes (take n a) (take n key) @ drop n a, xor_bytes (take n b) (take n key) @ drop n b)" if "n \<le> length key" for n
    using that
  proof (induction n)
    case 0
    then show ?case by (simp add: xor_bytes_def)
  next
    case (Suc n)
    have "xor_bytes (take (Suc n) x) (take (Suc n) key) = xor_bytes (take n x) (take n key) @ [x ! n XOR key ! n]"
      "drop n x = x ! n # drop (Suc n) x" if "length key \<le> length x" for x
      using that Suc.prems by (simp_all add: take_Suc_conv_app_nth xor_bytes_def Cons_nth_drop_Suc)
    with Suc assms show ?case by (simp add: hmac_pad_step_def nth_append list_update_append)
  qed
  from this [of "length key"] show ?thesis by simp
qed

lemma pad_key:
  assumes "length k \<le> 64"
  shows "xor_bytes (take (length k) (replicate 64 c)) k @ drop (length k) (replicate 64 c)
    = map (\<lambda>x. x XOR c) (k @ replicate (64 - length k) 0)"
  using assms by (intro nth_equalityI) (auto simp: nth_append xor.commute)

lemma hmac_sha256_correct:
  "sgxsd_enclave_hmac_sha256 (key # bufs) = rfc2104_hmac fips_sha256 key (concat bufs)"
proof -
  define k where "k = (if 64 < length key then fips_sha256 key else key)"
  have k: "length k \<le> 64" by (simp add: k_def)
  then have f: "foldl (hmac_pad_step k) (replicate 64 0x36, replicate 64 0x5c) [0..<length k]
      = (map (\<lambda>x. x XOR 0x36) (k @ replicate (64 - length k) 0), map (\<lambda>x. x XOR 0x5c) (k @ replicate (64 - length k) 0))"
    by (simp only: hmac_pads length_replicate pad_key)
  have e: "(if 64 < length key then sgxsd_enclave_sha256 [key] else key) = k"
    by (simp add: k_def sha256_correct)
  have r: "rfc2104_key fips_sha256 key = k @ replicate (64 - length k) 0"
    by (simp add: rfc2104_key_def k_def Let_def)
  show ?thesis
    unfolding sgxsd_enclave_hmac_sha256_def Let_def nth_Cons_0 e f prod.case rfc2104_hmac_def r
    by (simp add: sha256_correct)
qed

lemma hkdf_round:
  assumes "hkdf_n buf = of_nat i" "i < 255" "i \<noteq> 0 \<longrightarrow> t_n buf = rfc5869_T prk i"
  shows "sgxsd_enclave_ra_hkdf_round prk buf = \<lparr>t_n = rfc5869_T prk (Suc i), hkdf_n = of_nat (Suc i)\<rparr>"
proof -
  have "unat (of_nat (Suc i) :: u8) = Suc i" using assms(2) by (intro unat_word_of_nat) simp
  then have "(of_nat (Suc i) :: u8) = 1 \<longleftrightarrow> i = 0"
    by (cases "i = 0") (auto simp del: of_nat_Suc simp: of_nat_Suc [of 0])
  then show ?thesis using assms(1,3)
    by (cases "i = 0") (auto simp: sgxsd_enclave_ra_hkdf_round_def Let_def hmac_sha256_correct ac_simps)
qed

lemma hkdf_two_rounds:
  "sgxsd_enclave_ra_hkdf_round prk zero_hkdf_buf = \<lparr>t_n = rfc5869_T prk 1, hkdf_n = 1\<rparr>"
  "sgxsd_enclave_ra_hkdf_round prk \<lparr>t_n = rfc5869_T prk 1, hkdf_n = 1\<rparr> = \<lparr>t_n = rfc5869_T prk 2, hkdf_n = 2\<rparr>"
  using hkdf_round [of zero_hkdf_buf 0 prk] hkdf_round [of "\<lparr>t_n = rfc5869_T prk 1, hkdf_n = 1\<rparr>" 1 prk]
  by (simp_all add: zero_hkdf_buf_def numeral_2_eq_2)

lemma length_rfc5869_T [simp]: "0 < i \<Longrightarrow> length (rfc5869_T prk i) = 32"
  by (cases i) simp_all

text \<open>The bytes a pointer and a length designate.\<close>

definition region :: "bytes option \<Rightarrow> u32 \<Rightarrow> bytes" where
  "region p n = (case p of None \<Rightarrow> [] | Some b \<Rightarrow> take (unat n) b)"

definition readable :: "bytes option \<Rightarrow> u32 \<Rightarrow> bool" where
  "readable p n \<longleftrightarrow> (case p of None \<Rightarrow> n = 0 | Some b \<Rightarrow> unat n \<le> length b)"

lemma length_region: "readable p n \<Longrightarrow> length (region p n) = unat n"
  by (auto simp: region_def readable_def split: option.splits)

lemma length_gcm_crypt [simp]: "length (gcm_crypt (aes_encrypt key) iv d) = length d"
  using ctr_ref_at [of "aes_encrypt key", where q = 0] length_aes_encrypt
  by (simp add: gcm_crypt_def split: prod.splits)

lemma ctr_keys_32: "length key = 32 \<Longrightarrow> br_aes_x86ni_ctr_init (replicate 15 0) zero_ctr_keys key = ctr_keys [] zero_ctr_keys key"
  by (simp add: ctr_keys_def aes_key_def fixed_def zero_ctr_keys_def)

lemma map_memcpy_nil: "map_option (memcpy_at 0 []) p = p"
  by (cases p) (simp_all add: memcpy_at_def)

lemma aes_gcm_run_correct:
  assumes key: "length key = 32" and mac: "length mac = 16"
    and r: "readable p_src src_len" "readable p_dst src_len" "readable p_aad aad_len"
    and D: "D = region p_src src_len" and A: "A = region p_aad aad_len"
    and out: "out = gcm_crypt (aes_encrypt key) iv D"
    and T: "T = gcm_tag (aes_encrypt key) iv A (if encrypt then out else D)"
  shows "sgxsd_aes_gcm_run encrypt (Some key) p_src src_len p_dst (Some iv) p_aad aad_len (Some mac)
    = (if encrypt then (SGX_SUCCESS, map_option (memcpy_at 0 out) p_dst, Some T)
       else if mac = T then (SGX_SUCCESS, map_option (memcpy_at 0 out) p_dst, Some mac)
       else (SGX_ERROR_MAC_MISMATCH, map_option (memcpy_at 0 (replicate (unat src_len) 0)) p_dst, Some mac))"
proof -
  let ?run = "br_aes_x86ni_ctr_run (ctr_keys [] zero_ctr_keys key)"
  define As where "As = (if aad_len \<noteq> 0 then [A] else [])"
  define ds where "ds = (if src_len \<noteq> 0 then [D] else [])"
  have c: "concat As = A" "concat ds = D"
    using r length_region [OF r(1)] length_region [OF r(3)] by (auto simp: As_def ds_def A D)
  obtain ctx o' where s: "gcm_session encrypt zero_gcm_context ?run br_ghash_pclmul iv As ds = (ctx, o')" by fastforce
  have z: "length (gc_buf zero_gcm_context) = 16" by (simp add: zero_gcm_context_def)
  have k: "aes_key key = key" using key by (simp add: aes_key_def fixed_id)
  have o: "o' = out" and tag: "snd (br_gcm_get_tag ctx) = T"
    and chk: "snd (br_gcm_check_tag ctx mac) = (if mac = T then 1 else 0)"
    using aes_gcm.session_correct [OF z s] aes_gcm.check_tag_correct [OF z s mac] by (simp_all add: c k out T)
  define ctx0 where "ctx0 = br_gcm_flip (foldl br_gcm_aad_inject
      (br_gcm_reset (br_gcm_init zero_gcm_context ?run br_ghash_pclmul) iv) As)"
  have f: "br_gcm_flip (if aad_len \<noteq> 0 then br_gcm_aad_inject
      (br_gcm_reset (br_gcm_init zero_gcm_context ?run br_ghash_pclmul) iv) (take (unat aad_len) (the p_aad))
      else br_gcm_reset (br_gcm_init zero_gcm_context ?run br_ghash_pclmul) iv) = ctx0"
    using r(3) by (auto simp: ctx0_def As_def A region_def readable_def split: option.splits)
  have d: "gcm_run_chunks encrypt ctx0 ds = (ctx, out)" using s o by (simp add: gcm_session_def ctx0_def Let_def)
  have g: "\<not> (p_src = None \<or> p_dst = None) \<or> src_len = 0" "p_aad = None \<longrightarrow> aad_len = 0"
    using r by (auto simp: readable_def split: option.splits)
  show ?thesis
  proof (cases "src_len = 0")
    case True
    then have "ctx = ctx0" "out = []" using d by (auto simp: ds_def)
    then show ?thesis using True g(2) tag chk
      unfolding sgxsd_aes_gcm_run_def option.sel ctr_keys_32 [OF key] f Let_def
      by (auto simp: map_memcpy_nil)
  next
    case False
    then obtain src dst where p: "p_src = Some src" "p_dst = Some dst" using g(1) by auto
    have n: "unat src_len \<le> length src" "unat src_len \<le> length dst" using r(1,2) by (simp_all add: readable_def p)
    then have D': "take (unat src_len) (memcpy_at 0 (take (unat src_len) src) dst) = D" "length D = unat src_len"
      by (simp_all add: D region_def p memcpy_at_def)
    have e: "br_gcm_run ctx0 encrypt D = (ctx, out)" using d False by (simp add: ds_def split: prod.splits)
    have m: "memcpy_at 0 x (memcpy_at 0 y dst) = memcpy_at 0 x dst"
      if "length x = unat src_len" "length y = unat src_len" for x y using that n by (simp add: memcpy_at_def)
    have "length out = unat src_len" by (simp add: out D'(2))
    then show ?thesis using False g(2) n chk
      unfolding sgxsd_aes_gcm_run_def p option.sel ctr_keys_32 [OF key] f Let_def D'(1) e
      by (cases p_aad; cases "mac = T") (simp_all add: tag m)
  qed
qed

lemma aes_gcm_null:
  assumes "p_key = None \<or> (p_src = None \<or> p_dst = None) \<and> src_len \<noteq> 0 \<or> p_iv = None
    \<or> p_aad = None \<and> aad_len \<noteq> 0 \<or> p_mac = None"
  shows "sgxsd_aes_gcm_run encrypt p_key p_src src_len p_dst p_iv p_aad aad_len p_mac
    = (SGX_ERROR_INVALID_PARAMETER, p_dst, p_mac)"
  unfolding sgxsd_aes_gcm_run_def if_P [OF assms] ..

text \<open>The two calls on whole buffers that the enclave makes.\<close>

lemma encrypt_whole_aad:
  assumes "length key = 32" "length src < 2 ^ 32" "length dst = length src" "length mac = 16"
    and "readable p_aad aad_len"
  shows "sgxsd_aes_gcm_encrypt (Some key) (Some src) (of_nat (length src)) (Some dst) (Some iv) p_aad aad_len (Some mac)
    = (SGX_SUCCESS, Some (gcm_crypt (aes_encrypt key) iv src),
       Some (gcm_tag (aes_encrypt key) iv (region p_aad aad_len) (gcm_crypt (aes_encrypt key) iv src)))"
proof -
  have n: "unat (of_nat (length src) :: u32) = length src" using assms(2) by (simp add: unat_word_of_nat)
  have "sgxsd_aes_gcm_run True (Some key) (Some src) (of_nat (length src)) (Some dst) (Some iv) p_aad aad_len (Some mac)
    = (SGX_SUCCESS, Some (memcpy_at 0 (gcm_crypt (aes_encrypt key) iv src) dst),
       Some (gcm_tag (aes_encrypt key) iv (region p_aad aad_len) (gcm_crypt (aes_encrypt key) iv src)))"
    using assms n by (subst aes_gcm_run_correct [OF _ _ _ _ _ refl refl refl refl]) (simp_all add: readable_def region_def)
  then show ?thesis using assms by (simp add: sgxsd_aes_gcm_encrypt_def memcpy_at_whole)
qed

lemma encrypt_whole:
  assumes "length key = 32" "length src < 2 ^ 32" "length dst = length src" "length mac = 16"
  shows "sgxsd_aes_gcm_encrypt (Some key) (Some src) (of_nat (length src)) (Some dst) (Some iv) None 0 (Some mac)
    = (SGX_SUCCESS, Some (gcm_crypt (aes_encrypt key) iv src),
       Some (gcm_tag (aes_encrypt key) iv [] (gcm_crypt (aes_encrypt key) iv src)))"
  using encrypt_whole_aad [OF assms, of None 0] by (simp add: readable_def region_def)

lemma decrypt_whole:
  assumes "length key = 32" "length src < 2 ^ 32" "length dst = length src" "length mac = 16"
    and "readable p_aad aad_len"
  shows "sgxsd_aes_gcm_decrypt (Some key) (Some src) (of_nat (length src)) (Some dst) (Some iv) p_aad aad_len (Some mac)
    = (if mac = gcm_tag (aes_encrypt key) iv (region p_aad aad_len) src
       then (SGX_SUCCESS, Some (gcm_crypt (aes_encrypt key) iv src))
       else (SGX_ERROR_MAC_MISMATCH, Some (replicate (length src) 0)))"
proof -
  have n: "unat (of_nat (length src) :: u32) = length src" using assms(2) by (simp add: unat_word_of_nat)
  have "sgxsd_aes_gcm_run False (Some key) (Some src) (of_nat (length src)) (Some dst) (Some iv) p_aad aad_len (Some mac)
    = (if mac = gcm_tag (aes_encrypt key) iv (region p_aad aad_len) src
       then (SGX_SUCCESS, Some (memcpy_at 0 (gcm_crypt (aes_encrypt key) iv src) dst), Some mac)
       else (SGX_ERROR_MAC_MISMATCH, Some (memcpy_at 0 (replicate (length src) 0) dst), Some mac))"
    using assms n by (subst aes_gcm_run_correct [OF _ _ _ _ _ refl refl refl refl]) (simp_all add: readable_def region_def)
  then show ?thesis using assms by (simp add: sgxsd_aes_gcm_decrypt_def memcpy_at_whole)
qed

lemma decrypt_encrypt:
  "gcm_crypt (aes_encrypt key) iv (gcm_crypt (aes_encrypt key) iv d) = d"
  by (rule gcm_crypt_crypt) (rule length_aes_encrypt)

lemma length_aes_tag [simp]: "length (gcm_tag (aes_encrypt key) iv A C) = 16"
  by (rule length_gcm_tag) (rule length_aes_encrypt)

section \<open>Properties\<close>

text \<open>C31. \<open>sgxsd_aes_gcm_encrypt\<close> succeeds and writes the GCM ciphertext and the tag over the additional data and the ciphertext.
  \<open>sgxsd_aes_gcm_decrypt\<close> of that ciphertext, under the same 32-byte key and IV and any additional data, present or not, succeeds with the
  original bytes when its 16-byte MAC is the tag for that additional data, as it is for the data and the tag of the encryption;
  otherwise it reports \<open>SGX_ERROR_MAC_MISMATCH\<close> and leaves only zeros in the output buffer.\<close>

theorem sgxsd_aes_gcm_roundtrip:
  assumes "length key = 32" and "length src < 2 ^ 32" and "length dst = length src" and "length mac = 16"
    and "length dst' = length src" and "length mac' = 16" and "readable p_aad aad_len" and "readable p_aad' aad_len'"
    and "sgxsd_aes_gcm_encrypt (Some key) (Some src) (of_nat (length src)) (Some dst) (Some iv) p_aad aad_len (Some mac)
      = (res, Some ct, Some tag)"
  shows "res = SGX_SUCCESS \<and> ct = gcm_crypt (aes_encrypt key) iv src \<and> tag = gcm_tag (aes_encrypt key) iv (region p_aad aad_len) ct
    \<and> sgxsd_aes_gcm_decrypt (Some key) (Some ct) (of_nat (length src)) (Some dst') (Some iv) p_aad' aad_len' (Some mac')
      = (if mac' = gcm_tag (aes_encrypt key) iv (region p_aad' aad_len') ct then (SGX_SUCCESS, Some src)
         else (SGX_ERROR_MAC_MISMATCH, Some (replicate (length src) 0)))"
proof -
  have e: "res = SGX_SUCCESS" "ct = gcm_crypt (aes_encrypt key) iv src" "tag = gcm_tag (aes_encrypt key) iv (region p_aad aad_len) ct"
    using assms(9) encrypt_whole_aad [OF assms(1-4,7), of iv] by auto
  then have l: "length ct = length src" by simp
  show ?thesis
    using decrypt_whole [of key ct dst' mac' p_aad' aad_len' iv, unfolded l] assms e by (simp add: decrypt_encrypt)
qed

theorem sgxsd_aes_gcm_roundtrip_witness:
  "\<exists>ct tag. sgxsd_aes_gcm_encrypt (Some (replicate 32 1)) (Some [1, 2, 3]) 3 (Some [0, 0, 0]) (Some (replicate 12 2)) (Some [8, 9]) 2
        (Some (replicate 16 0)) = (SGX_SUCCESS, Some ct, Some tag)
    \<and> sgxsd_aes_gcm_decrypt (Some (replicate 32 1)) (Some ct) 3 (Some [0, 0, 0]) (Some (replicate 12 2)) (Some [8, 9]) 2 (Some tag)
      = (SGX_SUCCESS, Some [1, 2, 3])"
proof -
  have r: "readable (Some [8, 9]) 2" by (simp add: readable_def)
  obtain ct tag where e: "sgxsd_aes_gcm_encrypt (Some (replicate 32 1)) (Some [1, 2, 3]) (of_nat (length [1, 2, 3 :: u8]))
      (Some [0, 0, 0]) (Some (replicate 12 2)) (Some [8, 9]) 2 (Some (replicate 16 0)) = (SGX_SUCCESS, Some ct, Some tag)"
    and t: "length tag = 16"
    using encrypt_whole_aad [OF _ _ _ _ r, of "replicate 32 1" "[1, 2, 3]" "[0, 0, 0]" "replicate 16 0" "replicate 12 2"] by simp
  have l: "length (replicate 32 (1 :: u8)) = 32" "length [1, 2, 3 :: u8] < 2 ^ 32" "length [0, 0, 0 :: u8] = length [1, 2, 3 :: u8]"
    "length (replicate 16 (0 :: u8)) = 16" by simp_all
  note q = sgxsd_aes_gcm_roundtrip [OF l l(3) t r r e, THEN conjunct2, THEN conjunct2]
  have "sgxsd_aes_gcm_decrypt (Some (replicate 32 1)) (Some ct) (of_nat (length [1, 2, 3 :: u8])) (Some [0, 0, 0]) (Some (replicate 12 2))
      (Some [8, 9]) 2 (Some tag) = (SGX_SUCCESS, Some [1, 2, 3])" using q [THEN conjunct2] unfolding if_P [OF q [THEN conjunct1]] .
  with e show ?thesis by (intro exI [of _ ct] exI [of _ tag]) simp
qed

text \<open>C32. The enclave's own HMAC routine is RFC 2104 over SHA-256 for every key length, over the concatenation
  of its buffers, and its HKDF rounds compute the successive blocks of HKDF-Expand of RFC 5869.\<close>

theorem sgxsd_hmac_hkdf_correct:
  "sgxsd_enclave_hmac_sha256 (key # bufs) = rfc2104_hmac fips_sha256 key (concat bufs)
    \<and> t_n (sgxsd_enclave_ra_hkdf_round prk zero_hkdf_buf) = rfc5869_T prk 1
    \<and> t_n (sgxsd_enclave_ra_hkdf_round prk (sgxsd_enclave_ra_hkdf_round prk zero_hkdf_buf)) = rfc5869_T prk 2"
  by (simp only: hmac_sha256_correct hkdf_two_rounds sgxsd_ra_hkdf_buf.simps simp_thms)

text \<open>A call of the AES-GCM routine with a missing key, IV or MAC, or with a missing buffer of nonzero
  length, returns \<open>SGX_ERROR_INVALID_PARAMETER\<close> and changes neither the output buffer nor the MAC.\<close>

theorem sgxsd_aes_gcm_parameter_check:
  "(if p_key = None \<or> (p_src = None \<or> p_dst = None) \<and> src_len \<noteq> 0 \<or> p_iv = None
      \<or> p_aad = None \<and> aad_len \<noteq> 0 \<or> p_mac = None
    then sgxsd_aes_gcm_run encrypt p_key p_src src_len p_dst p_iv p_aad aad_len p_mac
      = (SGX_ERROR_INVALID_PARAMETER, p_dst, p_mac)
    else fst (sgxsd_aes_gcm_run encrypt p_key p_src src_len p_dst p_iv p_aad aad_len p_mac)
      \<in> (if encrypt then {SGX_SUCCESS} else {SGX_SUCCESS, SGX_ERROR_MAC_MISMATCH}))"
proof (cases "p_key = None \<or> (p_src = None \<or> p_dst = None) \<and> src_len \<noteq> 0 \<or> p_iv = None
      \<or> p_aad = None \<and> aad_len \<noteq> 0 \<or> p_mac = None")
  case True
  then show ?thesis unfolding if_P [OF True] by (rule aes_gcm_null)
next
  case False
  then show ?thesis unfolding sgxsd_aes_gcm_run_def if_not_P [OF False]
    by (auto simp: Let_def split: prod.splits)
qed

end
