(* ===== verification/Sgxsd_State.thy ===== *)
theory Sgxsd_State imports Sgxsd_Crypto begin

text \<open>
  The data of the enclave, from \<open>include/sgxsd.h\<close>, \<open>include/sgxsd-enclave.h\<close>, \<open>include/cds.h\<close> and the static
  variables of \<open>c_src/sgxsd-enclave.c\<close>, and the node-level operations: initialisation, random numbers,
  key pairs, reports. The SGX SDK, the outgoing call and the server callbacks are the fields of the
  record \<open>env\<close>; what they read and change outside the enclave is the state component \<open>world\<close>.
\<close>

section \<open>Types\<close>

record sgxsd_pending_request_id =
  prid_data :: bytes
  prid_iv :: bytes
  prid_mac :: bytes

text \<open>The 36 bytes of the structure in memory.\<close>

definition prid_bytes :: "sgxsd_pending_request_id \<Rightarrow> bytes" where
  "prid_bytes p = prid_data p @ prid_iv p @ prid_mac p"

record sgxsd_request_negotiation_request =
  client_pubkey :: bytes

record sgxsd_request_negotiation_response =
  server_static_pubkey :: bytes
  server_ephemeral_pubkey :: bytes
  enc_prid_data :: bytes
  enc_prid_iv :: bytes
  enc_prid_mac :: bytes

record sgxsd_msg_header =
  hdr_iv :: bytes
  hdr_mac :: bytes
  hdr_pending_request_id :: sgxsd_pending_request_id

record sgxsd_node_init_args =
  pending_requests_table_order :: u8

record sgxsd_msg_from =
  from_valid :: bool
  from_tag :: u64
  from_server_key :: bytes

record cds_encrypted_msg =
  query_iv :: bytes
  query_mac :: bytes
  query_size :: u32
  query_data :: u64

record sgxsd_server_init_args =
  max_query_phones :: u32
  max_ratelimit_states :: u32

record sgxsd_server_handle_call_args =
  query_phone_count :: u32
  ratelimit_state_size :: u32
  ratelimit_state_uuid :: bytes
  ratelimit_state_data :: u64
  call_query :: cds_encrypted_msg
  query_commitment :: bytes

record sgxsd_server_terminate_args =
  in_phones :: u64
  in_phone_count :: u64
  in_uuids :: u64

record sgxsd_curve25519_key_pair =
  privkey :: bytes
  pubkey :: bytes

record sgxsd_pending_request =
  id_val :: u64
  hkdf_prk :: bytes

record sgxsd_server_state_desc =
  sd_valid :: bool
  sd_lock :: u32
  sd_state :: u64

definition SGXSD_ENCLAVE_MAX_SERVERS :: nat where "SGXSD_ENCLAVE_MAX_SERVERS = 256"

definition zero_pending_request :: sgxsd_pending_request where
  "zero_pending_request = \<lparr>id_val = 0, hkdf_prk = replicate 32 0\<rparr>"

definition zero_server_desc :: sgxsd_server_state_desc where
  "zero_server_desc = \<lparr>sd_valid = False, sd_lock = 0, sd_state = 0\<rparr>"

definition zero_key_pair :: sgxsd_curve25519_key_pair where
  "zero_key_pair = \<lparr>privkey = replicate 32 0, pubkey = replicate 32 0\<rparr>"

definition zero_msg_from :: sgxsd_msg_from where
  "zero_msg_from = \<lparr>from_valid = False, from_tag = 0, from_server_key = replicate 32 0\<rparr>"

text \<open>
  The environment. \<open>read_rand\<close>, \<open>is_outside_enclave\<close>, \<open>create_report\<close> and \<open>calloc\<close> are the SDK functions,
  \<open>ocall_reply\<close> the outgoing call (its bridge status and its return value). The server callbacks may
  use the public functions of the enclave, which change at most the state of the random generator and
  the world. \<open>stack_prid\<close> is what an automatic variable of that type holds before it is written.
\<close>

record 'w env =
  env_read_rand :: "nat \<Rightarrow> 'w \<Rightarrow> (sgx_status \<times> bytes) \<times> 'w"
  env_is_outside_enclave :: "u64 \<Rightarrow> nat \<Rightarrow> int"
  env_create_report :: "bytes \<Rightarrow> bytes \<Rightarrow> 'w \<Rightarrow> (sgx_status \<times> bytes) \<times> 'w"
  env_calloc :: "u64 \<Rightarrow> nat \<Rightarrow> 'w \<Rightarrow> bool \<times> 'w"
  env_ocall_reply :: "sgxsd_msg_header option \<Rightarrow> bytes option \<Rightarrow> u64 \<Rightarrow> u64 \<Rightarrow> 'w \<Rightarrow> (sgx_status \<times> sgx_status) \<times> 'w"
  env_server_init :: "sgxsd_server_init_args option \<Rightarrow> u64 \<Rightarrow> bytes \<times> 'w \<Rightarrow> (sgx_status \<times> u64) \<times> bytes \<times> 'w"
  env_server_handle_call :: "sgxsd_server_handle_call_args option \<Rightarrow> bytes \<Rightarrow> sgxsd_msg_from \<Rightarrow> u64 \<Rightarrow> bytes \<times> 'w
    \<Rightarrow> (sgx_status \<times> u64) \<times> bytes \<times> 'w"
  env_server_terminate :: "sgxsd_server_terminate_args option \<Rightarrow> u64 \<Rightarrow> bytes \<times> 'w \<Rightarrow> sgx_status \<times> bytes \<times> 'w"
  env_create_ratelimit_fingerprint :: "bytes \<Rightarrow> sgxsd_server_handle_call_args option \<Rightarrow> bytes \<Rightarrow> sgxsd_msg_from
    \<Rightarrow> bytes option \<Rightarrow> u64 \<Rightarrow> bytes \<times> 'w \<Rightarrow> (sgx_status \<times> bytes option) \<times> bytes \<times> 'w"
  env_stack_prid :: "'w \<Rightarrow> sgxsd_pending_request_id"

record 'w sgxsd_state =
  g_node_initialized :: bool
  g_read_rand_state :: bytes
  g_dh_keypair :: sgxsd_curve25519_key_pair
  g_new_dh_keypair :: sgxsd_curve25519_key_pair
  g_pending_requests :: "sgxsd_pending_request list option"
  g_pending_requests_table_order :: u8
  g_last_pending_request_id_val :: u64
  g_pending_request_id_key :: bytes
  g_server_states :: "sgxsd_server_state_desc list"
  world :: 'w

text \<open>The static variables before the first call: all zero.\<close>

definition initial_state :: "'w \<Rightarrow> 'w sgxsd_state" where
  "initial_state w = \<lparr>g_node_initialized = False, g_read_rand_state = replicate 32 0, g_dh_keypair = zero_key_pair,
     g_new_dh_keypair = zero_key_pair, g_pending_requests = None, g_pending_requests_table_order = 0,
     g_last_pending_request_id_val = 0, g_pending_request_id_key = replicate 32 0,
     g_server_states = replicate SGXSD_ENCLAVE_MAX_SERVERS zero_server_desc, world = w\<rparr>"

text \<open>A buffer of \<open>n\<close> bytes keeps its size whatever is written through its address.\<close>

definition sgx_read_rand :: "'w env \<Rightarrow> nat \<Rightarrow> 'w sgxsd_state \<Rightarrow> (sgx_status \<times> bytes) \<times> 'w sgxsd_state" where
  "sgx_read_rand e n s =
     (let ((res, buf), w) = env_read_rand e n (world s) in ((res, fixed n buf), s\<lparr>world := w\<rparr>))"

section \<open>Random numbers and key pairs\<close>

definition sgxsd_enclave_read_rand :: "'w env \<Rightarrow> 'w sgxsd_state \<Rightarrow> (sgx_status \<times> bytes) \<times> 'w sgxsd_state" where
  "sgxsd_enclave_read_rand e s =
     (let ((read_rand_res, x), s) = sgx_read_rand e 32 s
      in if read_rand_res \<noteq> SGX_SUCCESS then ((read_rand_res, x), s)
         else
           let hkdf_prk = sgxsd_enclave_hmac_sha256 [g_read_rand_state s, x];
               hkdf_buf = sgxsd_enclave_ra_hkdf_round hkdf_prk zero_hkdf_buf;
               s = s\<lparr>g_read_rand_state := t_n hkdf_buf\<rparr>;
               hkdf_buf = sgxsd_enclave_ra_hkdf_round hkdf_prk hkdf_buf
           in ((SGX_SUCCESS, t_n hkdf_buf), s))"

definition BASEPOINT :: bytes where
  "BASEPOINT = 9 # replicate 31 0"

definition sgxsd_enclave_generate_curve25519_keypair ::
  "'w env \<Rightarrow> sgxsd_curve25519_key_pair \<Rightarrow> 'w sgxsd_state \<Rightarrow> (sgx_status \<times> sgxsd_curve25519_key_pair) \<times> 'w sgxsd_state" where
  "sgxsd_enclave_generate_curve25519_keypair e p_keypair s =
     (let ((gen_privkey_res, x), s) = sgxsd_enclave_read_rand e s;
          p_keypair = p_keypair\<lparr>privkey := x\<rparr>
      in if gen_privkey_res \<noteq> SGX_SUCCESS then ((gen_privkey_res, p_keypair), s)
         else
           let x = x[0 := x ! 0 AND 248];
               x = x[31 := x ! 31 AND 127];
               x = x[31 := x ! 31 OR 64];
               p_keypair = p_keypair\<lparr>privkey := x\<rparr>;
               p_keypair = p_keypair\<lparr>pubkey := curve25519_donna (privkey p_keypair) BASEPOINT\<rparr>
           in ((SGX_SUCCESS, p_keypair), s))"

section \<open>Node initialisation\<close>

definition sgxsd_enclave_node_init_locked ::
  "'w env \<Rightarrow> sgxsd_node_init_args option \<Rightarrow> 'w sgxsd_state \<Rightarrow> sgx_status \<times> 'w sgxsd_state" where
  "sgxsd_enclave_node_init_locked e p_args s =
     (if g_node_initialized s then (SGX_ERROR_INVALID_STATE, s)
      else if env_is_outside_enclave e 0 0 \<noteq> 1 then (SGX_ERROR_UNEXPECTED, s)
      else if env_is_outside_enclave e (- 1) 0 \<noteq> 1 then (SGX_ERROR_UNEXPECTED, s)
      else case p_args of
        None \<Rightarrow> (SGX_ERROR_INVALID_PARAMETER, s)
      | Some args \<Rightarrow>
          if 63 < pending_requests_table_order args then (SGX_ERROR_INVALID_PARAMETER, s)
          else
            let ((dh_keypair_rand_res, kp), s) = sgxsd_enclave_generate_curve25519_keypair e (g_dh_keypair s) s;
                s = s\<lparr>g_dh_keypair := kp\<rparr>
            in if dh_keypair_rand_res \<noteq> SGX_SUCCESS then (dh_keypair_rand_res, s)
               else
                 let ((new_dh_keypair_rand_res, kp), s) = sgxsd_enclave_generate_curve25519_keypair e (g_new_dh_keypair s) s;
                     s = s\<lparr>g_new_dh_keypair := kp\<rparr>
                 in if new_dh_keypair_rand_res \<noteq> SGX_SUCCESS then (new_dh_keypair_rand_res, s)
                    else
                      let ((pending_request_id_key_res, key), s) = sgx_read_rand e 32 s;
                          s = s\<lparr>g_pending_request_id_key := key\<rparr>
                      in if pending_request_id_key_res \<noteq> SGX_SUCCESS then (pending_request_id_key_res, s)
                         else
                           let s = s\<lparr>g_pending_requests_table_order := pending_requests_table_order args\<rparr>;
                               count = push_bit (unat (g_pending_requests_table_order s)) 1;
                               (granted, w) = env_calloc e count 40 (world s);
                               s = s\<lparr>world := w,
                                     g_pending_requests :=
                                       (if granted then Some (replicate (unat count) zero_pending_request) else None)\<rparr>
                           in if g_pending_requests s = None then (SGX_ERROR_OUT_OF_MEMORY, s)
                              else (SGX_SUCCESS, s\<lparr>g_node_initialized := True\<rparr>))"

text \<open>The spin locks only matter between threads; \<open>Sgxsd_Locks\<close> models them.\<close>

definition sgxsd_enclave_node_init ::
  "'w env \<Rightarrow> sgxsd_node_init_args option \<Rightarrow> 'w sgxsd_state \<Rightarrow> sgx_status \<times> 'w sgxsd_state" where
  "sgxsd_enclave_node_init e p_args s = sgxsd_enclave_node_init_locked e p_args s"

section \<open>Reports\<close>

definition sgxsd_enclave_get_next_report ::
  "'w env \<Rightarrow> bytes \<Rightarrow> bytes option \<Rightarrow> 'w sgxsd_state \<Rightarrow> (sgx_status \<times> bytes option) \<times> 'w sgxsd_state" where
  "sgxsd_enclave_get_next_report e qe_target_info p_report s =
     (if \<not> g_node_initialized s then ((SGX_ERROR_INVALID_STATE, p_report), s)
      else if p_report = None then ((SGX_ERROR_INVALID_PARAMETER, p_report), s)
      else
        let ((generate_keypair_res, new_dh_keypair), s) = sgxsd_enclave_generate_curve25519_keypair e zero_key_pair s
        in if generate_keypair_res \<noteq> SGX_SUCCESS then ((generate_keypair_res, p_report), s)
           else
             let report_data = memcpy_at 0 (pubkey new_dh_keypair) (replicate 64 0);
                 ((create_report_res, report), w) = env_create_report e qe_target_info report_data (world s);
                 s = s\<lparr>world := w\<rparr>
             in if create_report_res \<noteq> SGX_SUCCESS then ((create_report_res, Some report), s)
                else ((SGX_SUCCESS, Some report), s\<lparr>g_new_dh_keypair := new_dh_keypair\<rparr>))"

definition sgxsd_enclave_set_current_quote :: "'w sgxsd_state \<Rightarrow> sgx_status \<times> 'w sgxsd_state" where
  "sgxsd_enclave_set_current_quote s =
     (if \<not> g_node_initialized s then (SGX_ERROR_INVALID_STATE, s)
      else (SGX_SUCCESS, s\<lparr>g_dh_keypair := g_new_dh_keypair s\<rparr>))"

section \<open>Well-formed states\<close>

definition wf_key_pair :: "sgxsd_curve25519_key_pair \<Rightarrow> bool" where
  "wf_key_pair kp \<longleftrightarrow> length (privkey kp) = 32 \<and> length (pubkey kp) = 32"

definition wf_table :: "nat \<Rightarrow> sgxsd_pending_request list \<Rightarrow> bool" where
  "wf_table order t \<longleftrightarrow> length t = 2 ^ order \<and> (\<forall>r \<in> set t. length (hkdf_prk r) = 32)"

definition wf_state :: "'w sgxsd_state \<Rightarrow> bool" where
  "wf_state s \<longleftrightarrow> length (g_read_rand_state s) = 32 \<and> wf_key_pair (g_dh_keypair s) \<and> wf_key_pair (g_new_dh_keypair s)
     \<and> length (g_pending_request_id_key s) = 32 \<and> length (g_server_states s) = SGXSD_ENCLAVE_MAX_SERVERS
     \<and> (case g_pending_requests s of None \<Rightarrow> \<not> g_node_initialized s
        | Some t \<Rightarrow> g_node_initialized s \<and> unat (g_pending_requests_table_order s) < 64
            \<and> wf_table (unat (g_pending_requests_table_order s)) t)"

lemma wf_initial: "wf_state (initial_state w)"
  by (simp add: wf_state_def initial_state_def wf_key_pair_def zero_key_pair_def)

text \<open>Steps that change only the random generator and the world.\<close>

definition rand_frame :: "'w sgxsd_state \<Rightarrow> 'w sgxsd_state \<Rightarrow> bool" where
  "rand_frame s s' \<longleftrightarrow> g_node_initialized s' = g_node_initialized s \<and> g_dh_keypair s' = g_dh_keypair s
     \<and> g_new_dh_keypair s' = g_new_dh_keypair s \<and> g_pending_requests s' = g_pending_requests s
     \<and> g_pending_requests_table_order s' = g_pending_requests_table_order s
     \<and> g_last_pending_request_id_val s' = g_last_pending_request_id_val s
     \<and> g_pending_request_id_key s' = g_pending_request_id_key s \<and> g_server_states s' = g_server_states s
     \<and> (length (g_read_rand_state s) = 32 \<longrightarrow> length (g_read_rand_state s') = 32)"

lemma rand_frame_refl [simp]: "rand_frame s s"
  by (simp add: rand_frame_def)

lemma rand_frame_world [simp]: "rand_frame s (s'\<lparr>world := w\<rparr>) = rand_frame s s'"
  by (simp add: rand_frame_def)

lemma rand_frame_rand: "rand_frame s s' \<Longrightarrow> length r = 32 \<Longrightarrow> rand_frame s (s'\<lparr>g_read_rand_state := r\<rparr>)"
  by (simp add: rand_frame_def)

lemma rand_frame_trans: "rand_frame s s' \<Longrightarrow> rand_frame s' s'' \<Longrightarrow> rand_frame s s''"
  by (simp add: rand_frame_def)

lemma rand_frame_wf: "rand_frame s s' \<Longrightarrow> wf_state s \<Longrightarrow> wf_state s'"
  unfolding rand_frame_def wf_state_def by presburger

lemma sgx_read_rand_frame:
  "sgx_read_rand e n s = ((res, b), s') \<Longrightarrow> rand_frame s s' \<and> length b = n"
  by (auto simp: sgx_read_rand_def split: prod.splits)

lemma read_rand_frame:
  assumes "sgxsd_enclave_read_rand e s = ((res, x), s')"
  shows "rand_frame s s' \<and> length x = 32"
proof -
  obtain res0 x0 s0 where r: "sgx_read_rand e 32 s = ((res0, x0), s0)" by (metis prod.collapse)
  note f = sgx_read_rand_frame [OF r]
  have l: "length (rfc5869_T prk 1) = 32" "length (rfc5869_T prk 2) = 32" for prk by (rule length_rfc5869_T, simp)+
  show ?thesis
    using assms f unfolding sgxsd_enclave_read_rand_def r Let_def prod.case hkdf_two_rounds sgxsd_ra_hkdf_buf.simps
    by (auto simp: l rand_frame_rand simp del: rfc5869_T.simps split: if_splits)
qed

lemma length_donna: "length k = 32 \<Longrightarrow> length b = 32 \<Longrightarrow> length (curve25519_donna k b) = 32"
  using donna_X25519 by blast

lemma generate_keypair_eq:
  assumes "sgxsd_enclave_read_rand e s = ((res, x), s')"
    and "k = x[0 := x ! 0 AND 248, 31 := (x ! 31 AND 127) OR 64]"
  shows "sgxsd_enclave_generate_curve25519_keypair e kp s
    = (if res \<noteq> SGX_SUCCESS then ((res, kp\<lparr>privkey := x\<rparr>), s')
       else ((SGX_SUCCESS, kp\<lparr>privkey := k, pubkey := curve25519_donna k BASEPOINT\<rparr>), s'))"
proof -
  have "length x = 32" using read_rand_frame [OF assms(1)] by blast
  then show ?thesis
    unfolding sgxsd_enclave_generate_curve25519_keypair_def assms Let_def prod.case by simp
qed

lemma generate_keypair_frame:
  assumes "sgxsd_enclave_generate_curve25519_keypair e kp s = ((res, kp'), s')" "wf_key_pair kp"
  shows "rand_frame s s' \<and> wf_key_pair kp'"
proof -
  obtain res0 x s0 where r: "sgxsd_enclave_read_rand e s = ((res0, x), s0)" by (metis prod.collapse)
  note f = read_rand_frame [OF r]
  define k where "k = x[0 := x ! 0 AND 248, 31 := (x ! 31 AND 127) OR 64]"
  have "length k = 32" "length (curve25519_donna k BASEPOINT) = 32"
    using f length_donna [of k BASEPOINT] by (simp_all add: k_def BASEPOINT_def)
  then show ?thesis
    using assms f unfolding generate_keypair_eq [OF r k_def] wf_key_pair_def by (auto split: if_splits)
qed

lemma generate_keypair_success:
  assumes "sgxsd_enclave_generate_curve25519_keypair e kp s = ((SGX_SUCCESS, kp'), s')"
  shows "pubkey kp' = curve25519_donna (privkey kp') BASEPOINT"
proof -
  obtain res0 x s0 where r: "sgxsd_enclave_read_rand e s = ((res0, x), s0)" by (metis prod.collapse)
  show ?thesis using assms unfolding generate_keypair_eq [OF r refl] by (auto split: if_splits)
qed

lemma generate_keypair_rand:
  assumes "sgxsd_enclave_generate_curve25519_keypair e kp s = ((SGX_SUCCESS, kp'), s')"
  obtains x where "sgxsd_enclave_read_rand e s = ((SGX_SUCCESS, x), s')" "length x = 32"
    "privkey kp' = x[0 := x ! 0 AND 248, 31 := (x ! 31 AND 127) OR 64]"
proof -
  obtain res0 x s0 where r: "sgxsd_enclave_read_rand e s = ((res0, x), s0)" by (metis prod.collapse)
  have "length x = 32" using read_rand_frame [OF r] by blast
  then show thesis using assms r unfolding generate_keypair_eq [OF r refl] by (intro that [of x]) (auto split: if_splits)
qed

lemma wf_zero_key_pair: "wf_key_pair zero_key_pair"
  by (simp add: wf_key_pair_def zero_key_pair_def)

lemma wf_state_updates [simp]:
  "wf_key_pair kp \<Longrightarrow> wf_state s \<Longrightarrow> wf_state (s\<lparr>g_dh_keypair := kp\<rparr>)"
  "wf_key_pair kp \<Longrightarrow> wf_state s \<Longrightarrow> wf_state (s\<lparr>g_new_dh_keypair := kp\<rparr>)"
  "length key = 32 \<Longrightarrow> wf_state s \<Longrightarrow> wf_state (s\<lparr>g_pending_request_id_key := key\<rparr>)"
  "wf_state (s\<lparr>world := w\<rparr>) = wf_state s"
  by (simp_all add: wf_state_def split: option.splits)

lemma wf_key_pairs: "wf_state s \<Longrightarrow> wf_key_pair (g_dh_keypair s) \<and> wf_key_pair (g_new_dh_keypair s)"
  by (simp add: wf_state_def)

text \<open>What \<open>sgxsd_enclave_node_init\<close> computes once its checks pass, in terms of the calls it makes.\<close>

lemma node_init_eq:
  assumes "\<not> g_node_initialized s" "env_is_outside_enclave e 0 0 = 1" "env_is_outside_enclave e (- 1) 0 = 1"
    and "pending_requests_table_order args \<le> 63"
    and 1: "sgxsd_enclave_generate_curve25519_keypair e (g_dh_keypair s) s = ((r1, kp1), s1)"
    and 2: "sgxsd_enclave_generate_curve25519_keypair e (g_new_dh_keypair s1) (s1\<lparr>g_dh_keypair := kp1\<rparr>) = ((r2, kp2), s2)"
    and 3: "sgx_read_rand e 32 (s2\<lparr>g_new_dh_keypair := kp2\<rparr>) = ((r3, k), s3)"
    and 4: "env_calloc e (push_bit (unat (pending_requests_table_order args)) 1) 40 (world s3) = (granted, w)"
  shows "sgxsd_enclave_node_init e (Some args) s =
     (if r1 \<noteq> SGX_SUCCESS then (r1, s1\<lparr>g_dh_keypair := kp1\<rparr>)
      else if r2 \<noteq> SGX_SUCCESS then (r2, s2\<lparr>g_new_dh_keypair := kp2\<rparr>)
      else if r3 \<noteq> SGX_SUCCESS then (r3, s3\<lparr>g_pending_request_id_key := k\<rparr>)
      else if granted then (SGX_SUCCESS, s3\<lparr>g_pending_request_id_key := k, world := w,
          g_pending_requests_table_order := pending_requests_table_order args,
          g_pending_requests := Some (replicate (unat (push_bit (unat (pending_requests_table_order args)) 1 :: u64))
            zero_pending_request), g_node_initialized := True\<rparr>)
      else (SGX_ERROR_OUT_OF_MEMORY, s3\<lparr>g_pending_request_id_key := k, world := w,
          g_pending_requests_table_order := pending_requests_table_order args, g_pending_requests := None\<rparr>))"
proof -
  have "\<not> 63 < pending_requests_table_order args" using assms(4) by simp
  then show ?thesis
    using assms(1-3) 4
    unfolding sgxsd_enclave_node_init_def sgxsd_enclave_node_init_locked_def option.case Let_def 1 prod.case
    by (simp add: 2 3 del: push_bit_of_1)
qed

lemma unat_shift_count: "o' \<le> (63 :: u8) \<Longrightarrow> unat (push_bit (unat o') 1 :: u64) = 2 ^ unat o'"
  by (simp add: unsigned_push_bit_eq word_le_nat_alt push_bit_of_1 take_bit_nat_eq_self power_strict_increasing)

lemma wf_state_no_table:
  "wf_state s \<Longrightarrow> \<not> g_node_initialized s \<Longrightarrow> g_pending_requests s = None"
  by (auto simp: wf_state_def split: option.splits)

lemma wf_table_empty: "wf_table n (replicate (2 ^ n) zero_pending_request)"
  by (simp add: wf_table_def zero_pending_request_def)

text \<open>What initialisation leaves alone until it succeeds.\<close>

definition node_frame :: "'w sgxsd_state \<Rightarrow> 'w sgxsd_state \<Rightarrow> bool" where
  "node_frame s s' \<longleftrightarrow> wf_state s' \<and> g_node_initialized s' = g_node_initialized s
     \<and> g_server_states s' = g_server_states s \<and> g_last_pending_request_id_val s' = g_last_pending_request_id_val s"

lemma rand_node_frame:
  assumes "rand_frame s s'" "wf_state s"
  shows "node_frame s s'"
  using assms rand_frame_wf [OF assms] unfolding node_frame_def rand_frame_def by blast

lemma node_frame_trans: "node_frame s s' \<Longrightarrow> node_frame s' s'' \<Longrightarrow> node_frame s s''"
  by (simp add: node_frame_def)

lemma node_frame_updates [simp]:
  "node_frame s s' \<Longrightarrow> wf_key_pair kp \<Longrightarrow> node_frame s (s'\<lparr>g_dh_keypair := kp\<rparr>)"
  "node_frame s s' \<Longrightarrow> wf_key_pair kp \<Longrightarrow> node_frame s (s'\<lparr>g_new_dh_keypair := kp\<rparr>)"
  "node_frame s s' \<Longrightarrow> length key = 32 \<Longrightarrow> node_frame s (s'\<lparr>g_pending_request_id_key := key\<rparr>)"
  "node_frame s (s'\<lparr>world := w\<rparr>) = node_frame s s'"
  by (simp_all add: node_frame_def)

lemma node_frame_order:
  "node_frame s s' \<Longrightarrow> \<not> g_node_initialized s \<Longrightarrow>
     node_frame s (s'\<lparr>g_pending_requests_table_order := n, g_pending_requests := None\<rparr>)"
  by (auto simp: node_frame_def wf_state_def split: option.splits)

text \<open>
  How \<open>sgxsd_enclave_node_init\<close> ends: refused without effect, failed on the way with the node still not
  initialised, or done with an empty table of \<open>2 ^ order\<close> entries.
\<close>

lemma node_init_cases:
  assumes wf: "wf_state s" and run: "sgxsd_enclave_node_init e p_args s = (res, s')"
  obtains (refused) "s' = s" "res \<noteq> SGX_SUCCESS"
  | (failed) "\<not> g_node_initialized s" "node_frame s s'" "res \<noteq> SGX_SUCCESS"
  | (ok) args s0 where "\<not> g_node_initialized s" "p_args = Some args" "pending_requests_table_order args \<le> 63"
      "node_frame s s0" "res = SGX_SUCCESS"
      "s' = s0\<lparr>g_pending_requests_table_order := pending_requests_table_order args,
        g_pending_requests := Some (replicate (2 ^ unat (pending_requests_table_order args)) zero_pending_request),
        g_node_initialized := True\<rparr>"
proof (cases "g_node_initialized s \<or> env_is_outside_enclave e 0 0 \<noteq> 1 \<or> env_is_outside_enclave e (- 1) 0 \<noteq> 1
    \<or> p_args = None \<or> 63 < pending_requests_table_order (the p_args)")
  case True
  then have "s' = s \<and> res \<noteq> SGX_SUCCESS"
    using run unfolding sgxsd_enclave_node_init_def sgxsd_enclave_node_init_locked_def
    by (auto split: option.splits if_splits)
  then show thesis using refused by blast
next
  case False
  then obtain args where a: "p_args = Some args" "pending_requests_table_order args \<le> 63" by auto
  have ni: "\<not> g_node_initialized s" using False by blast
  obtain r1 kp1 s1 where 1: "sgxsd_enclave_generate_curve25519_keypair e (g_dh_keypair s) s = ((r1, kp1), s1)"
    by (metis prod.collapse)
  define s1' where "s1' = s1\<lparr>g_dh_keypair := kp1\<rparr>"
  obtain r2 kp2 s2 where 2: "sgxsd_enclave_generate_curve25519_keypair e (g_new_dh_keypair s1) s1' = ((r2, kp2), s2)"
    by (metis prod.collapse)
  define s2' where "s2' = s2\<lparr>g_new_dh_keypair := kp2\<rparr>"
  obtain r3 k s3 where 3: "sgx_read_rand e 32 s2' = ((r3, k), s3)" by (metis prod.collapse)
  define s3' where "s3' = s3\<lparr>g_pending_request_id_key := k\<rparr>"
  obtain granted w where 4: "env_calloc e (push_bit (unat (pending_requests_table_order args)) 1) 40 (world s3)
      = (granted, w)" by fastforce
  have f1: "rand_frame s s1" "wf_key_pair kp1" using generate_keypair_frame [OF 1] wf_key_pairs [OF wf] by blast+
  have n1: "node_frame s s1'" using rand_node_frame [OF f1(1) wf] f1(2) by (simp add: s1'_def)
  have w1: "wf_state s1'" using n1 by (simp add: node_frame_def)
  have "wf_key_pair (g_new_dh_keypair s1)" using wf_key_pairs [OF w1] by (simp add: s1'_def)
  then have f2: "rand_frame s1' s2" "wf_key_pair kp2" using generate_keypair_frame [OF 2] by blast+
  have "node_frame s1' s2'" using rand_node_frame [OF f2(1) w1] f2(2) by (simp add: s2'_def)
  then have n2: "node_frame s s2'" using n1 node_frame_trans by blast
  have w2: "wf_state s2'" using n2 by (simp add: node_frame_def)
  have f3: "rand_frame s2' s3" "length k = 32" using sgx_read_rand_frame [OF 3] by blast+
  have "node_frame s2' s3'" using rand_node_frame [OF f3(1) w2] f3(2) by (simp add: s3'_def)
  then have n3: "node_frame s s3'" using n2 node_frame_trans by blast
  have outside: "env_is_outside_enclave e 0 0 = 1" "env_is_outside_enclave e (- 1) 0 = 1" using False by blast+
  note eq = node_init_eq [OF ni outside a(2) 1 2 [unfolded s1'_def] 3 [unfolded s2'_def] 4,
      folded s1'_def s2'_def s3'_def, unfolded unat_shift_count [OF a(2)]]
  have run': "(res, s') = sgxsd_enclave_node_init e (Some args) s" using run a(1) by simp
  have n4: "node_frame s (s3'\<lparr>world := w\<rparr>)" using n3 by simp
  let ?n = "pending_requests_table_order args"
  consider "\<not> g_node_initialized s \<and> node_frame s s' \<and> res \<noteq> SGX_SUCCESS"
    | "res = SGX_SUCCESS" "s' = s3'\<lparr>world := w, g_pending_requests_table_order := ?n,
        g_pending_requests := Some (replicate (2 ^ unat ?n) zero_pending_request), g_node_initialized := True\<rparr>"
    using run' [unfolded eq] n1 n2 n3 node_frame_order [OF n4 ni] ni by (auto split: if_splits)
  then show thesis using failed ok [OF ni a n4] by cases blast+
qed

lemma node_init_wf:
  assumes "wf_state s" "sgxsd_enclave_node_init e p_args s = (res, s')"
  shows "wf_state s'"
  using assms(1)
proof (cases rule: node_init_cases [OF assms])
  case (3 args s0)
  then have w: "wf_state s0" by (simp add: node_frame_def)
  show ?thesis
    using 3(3,6) w wf_table_empty [of "unat (pending_requests_table_order args)"]
    by (simp add: wf_state_def word_le_nat_alt)
qed (simp_all add: node_frame_def)

lemma get_next_report_eq:
  assumes "sgxsd_enclave_generate_curve25519_keypair e zero_key_pair s = ((res, kp), s1)"
    and "env_create_report e qe (memcpy_at 0 (pubkey kp) (replicate 64 0)) (world s1) = ((rres, report), w)"
  shows "sgxsd_enclave_get_next_report e qe p_report s =
     (if \<not> g_node_initialized s then ((SGX_ERROR_INVALID_STATE, p_report), s)
      else if p_report = None then ((SGX_ERROR_INVALID_PARAMETER, p_report), s)
      else if res \<noteq> SGX_SUCCESS then ((res, p_report), s1)
      else if rres \<noteq> SGX_SUCCESS then ((rres, Some report), s1\<lparr>world := w\<rparr>)
      else ((SGX_SUCCESS, Some report), s1\<lparr>world := w, g_new_dh_keypair := kp\<rparr>))"
  unfolding sgxsd_enclave_get_next_report_def assms Let_def prod.case by (simp add: assms)

text \<open>A report changes at most the generator, the world and, when it succeeds, the new key pair.\<close>

lemma get_next_report_cases:
  assumes wf: "wf_state s" and run: "sgxsd_enclave_get_next_report e qe p_report s = ((res, r), s')"
  obtains (fail) "res \<noteq> SGX_SUCCESS \<or> \<not> g_node_initialized s" "rand_frame s s'"
  | (ok) s1 kp report where "g_node_initialized s" "res = SGX_SUCCESS" "r = Some report" "rand_frame s s1" "wf_key_pair kp"
      "pubkey kp = curve25519_donna (privkey kp) BASEPOINT" "s' = s1\<lparr>g_new_dh_keypair := kp\<rparr>"
proof -
  obtain res1 kp s1 where 1: "sgxsd_enclave_generate_curve25519_keypair e zero_key_pair s = ((res1, kp), s1)"
    by (metis prod.collapse)
  obtain rres report w where 2:
    "env_create_report e qe (memcpy_at 0 (pubkey kp) (replicate 64 0)) (world s1) = ((rres, report), w)"
    by (metis prod.collapse)
  note f = generate_keypair_frame [OF 1 wf_zero_key_pair]
  have kp: "pubkey kp = curve25519_donna (privkey kp) BASEPOINT" if "res1 = SGX_SUCCESS"
    using generate_keypair_success 1 that by blast
  show thesis
    using run unfolding get_next_report_eq [OF 1 2]
    by (cases "g_node_initialized s \<and> res = SGX_SUCCESS")
      (use f kp fail ok [of report "s1\<lparr>world := w\<rparr>" kp] in \<open>auto split: if_splits\<close>)
qed

lemma get_next_report_wf:
  assumes "wf_state s" "sgxsd_enclave_get_next_report e qe p_report s = ((res, r), s')"
  shows "wf_state s'"
  using assms by (cases rule: get_next_report_cases [OF assms]) (auto dest: rand_frame_wf)

lemma set_current_quote_wf: "wf_state s \<Longrightarrow> wf_state (snd (sgxsd_enclave_set_current_quote s))"
  by (simp add: sgxsd_enclave_set_current_quote_def wf_key_pairs)

section \<open>A concrete environment\<close>

text \<open>
  An environment for the examples: the generator answers with zeros, addresses lie outside the
  enclave, memory is granted, outgoing calls succeed, and the server keeps the state \<open>1\<close>. The world
  counts the calls to the outside.
\<close>

definition demo_env :: "nat env" where
  "demo_env = \<lparr>
     env_read_rand = (\<lambda>n w. ((SGX_SUCCESS, replicate n 0), w + 1)),
     env_is_outside_enclave = (\<lambda>a n. 1),
     env_create_report = (\<lambda>qe d w. ((SGX_SUCCESS, d), w + 1)),
     env_calloc = (\<lambda>n m w. (True, w + 1)),
     env_ocall_reply = (\<lambda>h d n t w. ((SGX_SUCCESS, SGX_SUCCESS), w + 1)),
     env_server_init = (\<lambda>a p (r, w). ((SGX_SUCCESS, 1), (r, w + 1))),
     env_server_handle_call = (\<lambda>a m f p (r, w). ((SGX_SUCCESS, p), (r, w + 1))),
     env_server_terminate = (\<lambda>a p (r, w). (SGX_SUCCESS, (r, w + 1))),
     env_create_ratelimit_fingerprint = (\<lambda>k a m f fp n (r, w). ((SGX_SUCCESS, fp), (r, w + 1))),
     env_stack_prid = (\<lambda>w. \<lparr>prid_data = replicate 8 1, prid_iv = replicate 12 1, prid_mac = replicate 16 1\<rparr>)\<rparr>"

definition demo_state :: "nat sgxsd_state" where
  "demo_state = (initial_state 0)\<lparr>g_node_initialized := True, g_pending_requests_table_order := 1,
     g_pending_requests := Some (replicate 2 zero_pending_request)\<rparr>"

lemma demo_wf: "wf_state demo_state" "g_node_initialized demo_state"
  using wf_table_empty [of 1]
  by (simp_all add: demo_state_def wf_state_def initial_state_def wf_zero_key_pair numeral_2_eq_2)

lemma demo_read_rand: "sgx_read_rand demo_env n s = ((SGX_SUCCESS, replicate n 0), s\<lparr>world := world s + 1\<rparr>)"
  by (simp add: sgx_read_rand_def demo_env_def fixed_id)

end
