(* ===== verification/Sgxsd_Pending.thy ===== *)
theory Sgxsd_Pending imports Sgxsd_State begin

text \<open>
  Pending requests of \<open>c_src/sgxsd-enclave.c\<close>: the table indexed by the low bits of a counter, the sealed
  identifiers handed to clients, and the keys derived from a request. The interface \<open>request_store\<close>
  states what the rest of the enclave relies on; the table implements it. The table pointer is
  dereferenced without a check: the callers make sure that the node is initialised, and then
  \<open>wf_state\<close> says that it is there.
\<close>

section \<open>Operations\<close>

definition pending_request_count_mask :: "u8 \<Rightarrow> u64" where
  "pending_request_count_mask order = push_bit (unat order) 1 - 1"

definition pending_entry :: "u8 \<Rightarrow> u64 \<Rightarrow> nat" where
  "pending_entry order i = unat (i AND pending_request_count_mask order)"

definition sgxsd_enclave_add_pending_request ::
  "'w env \<Rightarrow> sgxsd_pending_request_id \<Rightarrow> sgxsd_pending_request \<Rightarrow> 'w sgxsd_state
    \<Rightarrow> (sgx_status \<times> sgxsd_pending_request_id) \<times> 'w sgxsd_state" where
  "sgxsd_enclave_add_pending_request e p_pending_request_id p_pending_request s =
     (let s = s\<lparr>g_last_pending_request_id_val := g_last_pending_request_id_val s + 1\<rparr>;
          pending_request_id_val = g_last_pending_request_id_val s;
          table = the (g_pending_requests s);
          i = pending_entry (g_pending_requests_table_order s) pending_request_id_val;
          entry = (table ! i)\<lparr>id_val := pending_request_id_val\<rparr>;
          entry = entry\<lparr>hkdf_prk := hkdf_prk p_pending_request\<rparr>;
          s = s\<lparr>g_pending_requests := Some (table[i := entry])\<rparr>;
          ((iv_rand_res, iv), s) = sgx_read_rand e SGXSD_AES_GCM_IV_SIZE s;
          p_pending_request_id = p_pending_request_id\<lparr>prid_iv := iv\<rparr>
      in if iv_rand_res \<noteq> SGX_SUCCESS then ((iv_rand_res, p_pending_request_id), s)
         else
           let (encrypt_res, data, mac) =
                 sgxsd_aes_gcm_encrypt (Some (g_pending_request_id_key s)) (Some (le_bytes 8 pending_request_id_val)) 8
                   (Some (prid_data p_pending_request_id)) (Some (prid_iv p_pending_request_id)) None 0
                   (Some (prid_mac p_pending_request_id));
               p_pending_request_id = p_pending_request_id\<lparr>prid_data := the data, prid_mac := the mac\<rparr>
           in if encrypt_res \<noteq> SGX_SUCCESS then ((SGX_ERROR_UNEXPECTED, p_pending_request_id), s)
              else ((SGX_SUCCESS, p_pending_request_id), s))"

definition sgxsd_enclave_get_pending_request ::
  "sgxsd_pending_request_id \<Rightarrow> sgxsd_pending_request \<Rightarrow> 'w sgxsd_state \<Rightarrow> sgx_status \<times> sgxsd_pending_request" where
  "sgxsd_enclave_get_pending_request p_pending_request_id p_pending_request s =
     (let pending_request_id_val = 0 :: u64;
          (decrypt_res, dst) =
            sgxsd_aes_gcm_decrypt (Some (g_pending_request_id_key s)) (Some (prid_data p_pending_request_id)) 8
              (Some (le_bytes 8 pending_request_id_val)) (Some (prid_iv p_pending_request_id)) None 0
              (Some (prid_mac p_pending_request_id));
          pending_request_id_val = le_word (the dst)
      in if decrypt_res \<noteq> SGX_SUCCESS then (decrypt_res, p_pending_request)
         else
           let i = pending_entry (g_pending_requests_table_order s) pending_request_id_val;
               found = the (g_pending_requests s) ! i
           in if id_val found = pending_request_id_val then (SGX_SUCCESS, found)
              else (SGXSD_ERROR_PENDING_REQUEST_NOT_FOUND, p_pending_request))"

definition sgxsd_enclave_remove_pending_request ::
  "sgxsd_pending_request_id \<Rightarrow> sgxsd_pending_request \<Rightarrow> 'w sgxsd_state
    \<Rightarrow> (sgx_status \<times> sgxsd_pending_request) \<times> 'w sgxsd_state" where
  "sgxsd_enclave_remove_pending_request p_pending_request_id p_pending_request s =
     (let pending_request_id_val = 0 :: u64;
          (decrypt_res, dst) =
            sgxsd_aes_gcm_decrypt (Some (g_pending_request_id_key s)) (Some (prid_data p_pending_request_id)) 8
              (Some (le_bytes 8 pending_request_id_val)) (Some (prid_iv p_pending_request_id)) None 0
              (Some (prid_mac p_pending_request_id));
          pending_request_id_val = le_word (the dst)
      in if decrypt_res \<noteq> SGX_SUCCESS then ((decrypt_res, p_pending_request), s)
         else
           let i = pending_entry (g_pending_requests_table_order s) pending_request_id_val;
               table = the (g_pending_requests s);
               found = table ! i
           in if id_val found = pending_request_id_val
              then ((SGX_SUCCESS, found), s\<lparr>g_pending_requests := Some (table[i := zero_pending_request])\<rparr>)
              else ((SGXSD_ERROR_PENDING_REQUEST_NOT_FOUND, p_pending_request), s))"

definition sgxsd_enclave_derive_request_keys ::
  "sgxsd_pending_request \<Rightarrow> bytes option \<Rightarrow> bytes option \<Rightarrow> bytes option \<times> bytes option" where
  "sgxsd_enclave_derive_request_keys p_pending_request p_client_key p_server_key =
     (let hkdf_buf = sgxsd_enclave_ra_hkdf_round (hkdf_prk p_pending_request) zero_hkdf_buf;
          p_client_key = map_option (memcpy_at 0 (take SGXSD_AES_GCM_KEY_SIZE (t_n hkdf_buf))) p_client_key;
          hkdf_buf = sgxsd_enclave_ra_hkdf_round (hkdf_prk p_pending_request) hkdf_buf;
          p_server_key = map_option (memcpy_at 0 (take SGXSD_AES_GCM_KEY_SIZE (t_n hkdf_buf))) p_server_key
      in (p_client_key, p_server_key))"

section \<open>A bounded store of requests\<close>

text \<open>
  What the callers rely on. Keys that share a slot displace each other; a stored value stays until
  its slot is written again or the value is taken out. The key \<open>0\<close> marks an empty slot.
\<close>

locale request_store =
  fixes inv :: "'t \<Rightarrow> bool"
    and slot :: "u64 \<Rightarrow> nat"
    and put :: "u64 \<Rightarrow> bytes \<Rightarrow> 't \<Rightarrow> 't"
    and get :: "u64 \<Rightarrow> 't \<Rightarrow> bytes option"
    and del :: "u64 \<Rightarrow> 't \<Rightarrow> 't"
  assumes inv_put: "inv t \<Longrightarrow> length v = 32 \<Longrightarrow> inv (put k v t)"
    and inv_del: "inv t \<Longrightarrow> inv (del k t)"
    and get_put: "inv t \<Longrightarrow> get k' (put k v t) = (if k' = k then Some v else if slot k' = slot k then None else get k' t)"
    and get_del: "inv t \<Longrightarrow> k' \<noteq> 0 \<Longrightarrow> get k t \<noteq> None \<Longrightarrow> get k' (del k t) = (if k' = k then None else get k' t)"
begin

text \<open>A sequence of insertions, oldest first.\<close>

definition puts :: "(u64 \<times> bytes) list \<Rightarrow> 't \<Rightarrow> 't" where
  "puts kvs t = foldl (\<lambda>t (k, v). put k v t) t kvs"

lemma inv_puts: "inv t \<Longrightarrow> \<forall>(k, v) \<in> set kvs. length v = 32 \<Longrightarrow> inv (puts kvs t)"
  by (induction kvs arbitrary: t) (auto simp: puts_def inv_put)

lemma get_puts_other:
  assumes "inv t" "\<forall>(k', v) \<in> set kvs. length v = 32 \<and> slot k' \<noteq> slot k"
  shows "get k (puts kvs t) = get k t"
  using assms
proof (induction kvs arbitrary: t)
  case (Cons kv kvs)
  obtain k' v where [simp]: "kv = (k', v)" by fastforce
  have "k \<noteq> k'" using Cons.prems(2) by auto
  then show ?case using Cons inv_put [of t v k'] by (simp add: puts_def get_put)
qed (simp add: puts_def)

text \<open>Retention: a value survives the insertions into other slots and is lost to one into its own.\<close>

lemma retained:
  assumes "inv t" "length v = 32" "\<forall>(k', v) \<in> set kvs. length v = 32 \<and> slot k' \<noteq> slot k"
  shows "get k (puts kvs (put k v t)) = Some v"
  using get_puts_other [OF inv_put [OF assms(1,2)] assms(3)] get_put [OF assms(1)] by simp

lemma displaced:
  assumes "inv t" "slot k' = slot k" "k' \<noteq> k"
  shows "get k (put k' v t) = None"
  using get_put [OF assms(1)] assms by simp

text \<open>At most once: what has been taken out is gone until the key is inserted again.\<close>

lemma taken_once:
  assumes "inv t" "k \<noteq> 0" "get k t \<noteq> None" "\<forall>(k', v) \<in> set kvs. length v = 32 \<and> k' \<noteq> k"
  shows "get k (puts kvs (del k t)) = None"
proof -
  have "get k (puts kvs t') = None" if "inv t'" "get k t' = None" for t'
    using that assms(4)
  proof (induction kvs arbitrary: t')
    case (Cons kv kvs)
    obtain k' v where [simp]: "kv = (k', v)" by fastforce
    have "k \<noteq> k'" using Cons.prems(3) by auto
    then show ?case using Cons inv_put [of t' v k'] by (simp add: puts_def get_put)
  qed (simp add: puts_def)
  then show ?thesis using inv_del get_del assms by simp
qed

end

section \<open>The table is such a store\<close>

definition pending_inv :: "u8 \<Rightarrow> sgxsd_pending_request list \<Rightarrow> bool" where
  "pending_inv order t \<longleftrightarrow> unat order < 64 \<and> wf_table (unat order) t"

definition pending_put :: "u8 \<Rightarrow> u64 \<Rightarrow> bytes \<Rightarrow> sgxsd_pending_request list \<Rightarrow> sgxsd_pending_request list" where
  "pending_put order k v t = t[pending_entry order k := \<lparr>id_val = k, hkdf_prk = v\<rparr>]"

definition pending_get :: "u8 \<Rightarrow> u64 \<Rightarrow> sgxsd_pending_request list \<Rightarrow> bytes option" where
  "pending_get order k t = (let r = t ! pending_entry order k in if id_val r = k then Some (hkdf_prk r) else None)"

definition pending_del :: "u8 \<Rightarrow> u64 \<Rightarrow> sgxsd_pending_request list \<Rightarrow> sgxsd_pending_request list" where
  "pending_del order k t = t[pending_entry order k := zero_pending_request]"

lemma pending_entry_mod: "unat order < 64 \<Longrightarrow> pending_entry order k = unat k mod 2 ^ unat order"
  unfolding pending_entry_def pending_request_count_mask_def push_bit_of_1 mask_eq_exp_minus_1 [symmetric]
    take_bit_eq_mask [symmetric]
  by (simp add: unsigned_take_bit_eq) (simp add: take_bit_nat_def)

lemma pending_entry_less: "pending_inv order t \<Longrightarrow> pending_entry order k < length t"
  by (simp add: pending_inv_def wf_table_def pending_entry_mod)

lemma wf_table_update: "wf_table n t \<Longrightarrow> length (hkdf_prk r) = 32 \<Longrightarrow> wf_table n (t[i := r])"
  unfolding wf_table_def using set_update_subset_insert [of t i r] by auto

interpretation pr: request_store "pending_inv order" "pending_entry order" "pending_put order" "pending_get order" "pending_del order"
  for order
proof
  fix t k k' and v :: bytes
  assume t: "pending_inv order t"
  note i = pending_entry_less [OF t]
  show "length v = 32 \<Longrightarrow> pending_inv order (pending_put order k v t)"
    using t by (simp add: pending_inv_def pending_put_def wf_table_update)
  show "pending_inv order (pending_del order k t)"
    using t by (simp add: pending_inv_def pending_del_def wf_table_update zero_pending_request_def)
  show "pending_get order k' (pending_put order k v t)
      = (if k' = k then Some v else if pending_entry order k' = pending_entry order k then None else pending_get order k' t)"
    using i by (auto simp: pending_get_def pending_put_def)
  show "k' \<noteq> 0 \<Longrightarrow> pending_get order k t \<noteq> None \<Longrightarrow> pending_get order k' (pending_del order k t)
      = (if k' = k then None else pending_get order k' t)"
    using i by (cases "pending_entry order k' = pending_entry order k")
      (auto simp: pending_get_def pending_del_def zero_pending_request_def Let_def split: if_splits)
qed

section \<open>Sealed identifiers\<close>

definition wf_prid :: "sgxsd_pending_request_id \<Rightarrow> bool" where
  "wf_prid p \<longleftrightarrow> length (prid_data p) = 8 \<and> length (prid_iv p) = 12 \<and> length (prid_mac p) = 16"

text \<open>The identifier a client holds: the counter value under AES-GCM with the key of this node.\<close>

definition seal_id :: "bytes \<Rightarrow> u64 \<Rightarrow> bytes \<Rightarrow> sgxsd_pending_request_id" where
  "seal_id key k iv = (let c = gcm_crypt (aes_encrypt key) iv (le_bytes 8 k)
     in \<lparr>prid_data = c, prid_iv = iv, prid_mac = gcm_tag (aes_encrypt key) iv [] c\<rparr>)"

definition open_id :: "bytes \<Rightarrow> sgxsd_pending_request_id \<Rightarrow> u64 option" where
  "open_id key p = (if prid_mac p = gcm_tag (aes_encrypt key) (prid_iv p) [] (prid_data p)
     then Some (le_word (gcm_crypt (aes_encrypt key) (prid_iv p) (prid_data p))) else None)"

lemma open_seal_id: "open_id key (seal_id key k iv) = Some k"
  by (simp add: open_id_def seal_id_def Let_def decrypt_encrypt le_word_le_bytes)

lemma wf_seal_id: "length iv = 12 \<Longrightarrow> wf_prid (seal_id key k iv)"
  by (simp add: wf_prid_def seal_id_def Let_def)

lemma decrypt_id:
  assumes "length key = 32" "wf_prid p"
  shows "sgxsd_aes_gcm_decrypt (Some key) (Some (prid_data p)) 8 (Some (le_bytes 8 (0 :: u64))) (Some (prid_iv p)) None 0
      (Some (prid_mac p))
    = (case open_id key p of None \<Rightarrow> (SGX_ERROR_MAC_MISMATCH, Some (replicate 8 0)) | Some k \<Rightarrow> (SGX_SUCCESS, Some (le_bytes 8 k)))"
proof -
  have l: "length (prid_data p) = 8" "length (prid_mac p) = 16" using assms(2) by (simp_all add: wf_prid_def)
  show ?thesis
    using decrypt_whole [OF assms(1), of "prid_data p" "le_bytes 8 (0 :: u64)" "prid_mac p" None 0 "prid_iv p", unfolded l]
    by (simp add: l open_id_def readable_def region_def le_bytes_le_word)
qed

lemma encrypt_id:
  assumes "length key = 32" "length d = 8" "length m = 16"
  shows "sgxsd_aes_gcm_encrypt (Some key) (Some (le_bytes 8 (k :: u64))) 8 (Some d) (Some iv) None 0 (Some m)
    = (SGX_SUCCESS, Some (prid_data (seal_id key k iv)), Some (prid_mac (seal_id key k iv)))"
  using encrypt_whole [OF assms(1), of "le_bytes 8 k" d m iv, unfolded length_le_bytes] assms(2,3)
  by (simp add: seal_id_def Let_def)

section \<open>The operations in terms of the store\<close>

abbreviation table_of :: "'w sgxsd_state \<Rightarrow> sgxsd_pending_request list" where
  "table_of s \<equiv> the (g_pending_requests s)"

abbreviation order_of :: "'w sgxsd_state \<Rightarrow> u8" where
  "order_of s \<equiv> g_pending_requests_table_order s"

lemma wf_state_table:
  assumes "wf_state s" "g_node_initialized s"
  shows "pending_inv (order_of s) (table_of s)" "g_pending_requests s = Some (table_of s)"
    "length (g_pending_request_id_key s) = 32"
  using assms by (auto simp: wf_state_def pending_inv_def split: option.splits)

lemma wf_state_set_table:
  "wf_state s \<Longrightarrow> g_node_initialized s \<Longrightarrow> pending_inv (order_of s) t \<Longrightarrow> wf_state (s\<lparr>g_pending_requests := Some t\<rparr>)"
  by (auto simp: wf_state_def pending_inv_def split: option.splits)

text \<open>The state after the part of \<open>sgxsd_enclave_add_pending_request\<close> that holds the lock.\<close>

definition pending_added :: "bytes \<Rightarrow> 'w sgxsd_state \<Rightarrow> 'w sgxsd_state" where
  "pending_added prk s =
     (let k = g_last_pending_request_id_val s + 1
      in s\<lparr>g_last_pending_request_id_val := k,
           g_pending_requests := Some (pending_put (order_of s) k prk (table_of s))\<rparr>)"

lemma add_pending_eq:
  assumes wf: "wf_state s" "g_node_initialized s" and p: "wf_prid p_id"
    and r: "sgx_read_rand e 12 (pending_added (hkdf_prk p_req) s) = ((res, iv), s')"
  shows "sgxsd_enclave_add_pending_request e p_id p_req s =
    (if res \<noteq> SGX_SUCCESS then ((res, p_id\<lparr>prid_iv := iv\<rparr>), s')
     else ((SGX_SUCCESS, seal_id (g_pending_request_id_key s) (g_last_pending_request_id_val s + 1) iv), s'))"
proof -
  let ?k = "g_last_pending_request_id_val s + 1"
  let ?i = "pending_entry (order_of s) ?k"
  have entry: "(table_of s ! ?i)\<lparr>id_val := ?k, hkdf_prk := hkdf_prk p_req\<rparr> = \<lparr>id_val = ?k, hkdf_prk = hkdf_prk p_req\<rparr>" by simp
  have "rand_frame (pending_added (hkdf_prk p_req) s) s'" using sgx_read_rand_frame [OF r] by blast
  then have k: "g_pending_request_id_key s' = g_pending_request_id_key s"
    by (simp add: rand_frame_def pending_added_def Let_def)
  have e: "sgxsd_aes_gcm_encrypt (Some (g_pending_request_id_key s)) (Some (le_bytes 8 ?k)) 8 (Some (prid_data p_id))
      (Some iv) None 0 (Some (prid_mac p_id))
    = (SGX_SUCCESS, Some (prid_data (seal_id (g_pending_request_id_key s) ?k iv)),
        Some (prid_mac (seal_id (g_pending_request_id_key s) ?k iv)))"
    using encrypt_id wf_state_table(3) [OF wf] p by (simp add: wf_prid_def)
  show ?thesis
    using r unfolding sgxsd_enclave_add_pending_request_def pending_added_def pending_put_def Let_def SGXSD_AES_GCM_IV_SIZE_def
    by (simp add: k e entry) (simp add: seal_id_def Let_def)
qed

lemma pending_added_wf:
  assumes "wf_state s" "g_node_initialized s" "length prk = 32"
  shows "wf_state (pending_added prk s)"
proof -
  have "pending_inv (order_of s) (pending_put (order_of s) (g_last_pending_request_id_val s + 1) prk (table_of s))"
    using pr.inv_put wf_state_table(1) assms by blast
  from wf_state_set_table [OF assms(1,2) this] show ?thesis
    by (simp add: pending_added_def Let_def wf_state_def)
qed

definition pending_removed :: "u64 \<Rightarrow> 'w sgxsd_state \<Rightarrow> 'w sgxsd_state" where
  "pending_removed k s = s\<lparr>g_pending_requests := Some (pending_del (order_of s) k (table_of s))\<rparr>"

lemma get_pending_eq:
  assumes "length (g_pending_request_id_key s) = 32" "wf_prid p_id"
  shows "sgxsd_enclave_get_pending_request p_id p_req s =
    (case open_id (g_pending_request_id_key s) p_id of
       None \<Rightarrow> (SGX_ERROR_MAC_MISMATCH, p_req)
     | Some k \<Rightarrow> (case pending_get (order_of s) k (table_of s) of
         None \<Rightarrow> (SGXSD_ERROR_PENDING_REQUEST_NOT_FOUND, p_req)
       | Some prk \<Rightarrow> (SGX_SUCCESS, \<lparr>id_val = k, hkdf_prk = prk\<rparr>)))"
  unfolding sgxsd_enclave_get_pending_request_def Let_def decrypt_id [OF assms]
  by (auto simp: pending_get_def Let_def le_word_le_bytes split: option.splits)

lemma remove_pending_eq:
  assumes "length (g_pending_request_id_key s) = 32" "wf_prid p_id"
  shows "sgxsd_enclave_remove_pending_request p_id p_req s =
    (case open_id (g_pending_request_id_key s) p_id of
       None \<Rightarrow> ((SGX_ERROR_MAC_MISMATCH, p_req), s)
     | Some k \<Rightarrow> (case pending_get (order_of s) k (table_of s) of
         None \<Rightarrow> ((SGXSD_ERROR_PENDING_REQUEST_NOT_FOUND, p_req), s)
       | Some prk \<Rightarrow> ((SGX_SUCCESS, \<lparr>id_val = k, hkdf_prk = prk\<rparr>), pending_removed k s)))"
  unfolding sgxsd_enclave_remove_pending_request_def Let_def decrypt_id [OF assms]
  by (auto simp: pending_get_def pending_removed_def pending_del_def Let_def le_word_le_bytes split: option.splits)

lemma pending_removed_wf:
  "wf_state s \<Longrightarrow> g_node_initialized s \<Longrightarrow> wf_state (pending_removed k s)"
  unfolding pending_removed_def by (intro wf_state_set_table pr.inv_del wf_state_table(1))

lemma derive_keys_eq:
  "length a = 32 \<Longrightarrow> length b = 32 \<Longrightarrow>
     sgxsd_enclave_derive_request_keys r (Some a) (Some b) = (Some (rfc5869_T (hkdf_prk r) 1), Some (rfc5869_T (hkdf_prk r) 2))"
  "length b = 32 \<Longrightarrow> sgxsd_enclave_derive_request_keys r None (Some b) = (None, Some (rfc5869_T (hkdf_prk r) 2))"
proof -
  have l: "length (rfc5869_T p 1) = 32" "length (rfc5869_T p 2) = 32" for p by (rule length_rfc5869_T, simp)+
  show "sgxsd_enclave_derive_request_keys r (Some a) (Some b) = (Some (rfc5869_T (hkdf_prk r) 1), Some (rfc5869_T (hkdf_prk r) 2))"
    if "length a = 32" "length b = 32"
    using that unfolding sgxsd_enclave_derive_request_keys_def Let_def hkdf_two_rounds sgxsd_ra_hkdf_buf.simps SGXSD_AES_GCM_KEY_SIZE_def
    by (simp add: l memcpy_at_whole del: rfc5869_T.simps One_nat_def)
  show "sgxsd_enclave_derive_request_keys r None (Some b) = (None, Some (rfc5869_T (hkdf_prk r) 2))" if "length b = 32"
    using that unfolding sgxsd_enclave_derive_request_keys_def Let_def hkdf_two_rounds sgxsd_ra_hkdf_buf.simps SGXSD_AES_GCM_KEY_SIZE_def
    by (simp add: l memcpy_at_whole del: rfc5869_T.simps One_nat_def)
qed

text \<open>Whatever the generator answers, the table and the counter have already moved.\<close>

lemma add_pending_frame:
  assumes "wf_state s" "g_node_initialized s" "wf_prid p_id"
    and "sgxsd_enclave_add_pending_request e p_id p_req s = ((res, p'), s')"
  shows "rand_frame (pending_added (hkdf_prk p_req) s) s'
    \<and> (res = SGX_SUCCESS \<longrightarrow> (\<exists>iv. length iv = 12
        \<and> p' = seal_id (g_pending_request_id_key s) (g_last_pending_request_id_val s + 1) iv))"
proof -
  obtain r iv s1 where r: "sgx_read_rand e 12 (pending_added (hkdf_prk p_req) s) = ((r, iv), s1)" by (metis prod.collapse)
  show ?thesis
    using assms(4) sgx_read_rand_frame [OF r] unfolding add_pending_eq [OF assms(1-3) r] by (auto split: if_splits)
qed

definition add_all :: "'w env \<Rightarrow> (sgxsd_pending_request_id \<times> sgxsd_pending_request) list \<Rightarrow> 'w sgxsd_state \<Rightarrow> 'w sgxsd_state" where
  "add_all e reqs s = foldl (\<lambda>s (p, r). snd (sgxsd_enclave_add_pending_request e p r s)) s reqs"

definition wf_request :: "sgxsd_pending_request_id \<times> sgxsd_pending_request \<Rightarrow> bool" where
  "wf_request pr \<longleftrightarrow> wf_prid (fst pr) \<and> length (hkdf_prk (snd pr)) = 32"

text \<open>The keys and values that a list of requests puts into the table when the counter is at \<open>k\<close>.\<close>

fun put_list :: "u64 \<Rightarrow> (sgxsd_pending_request_id \<times> sgxsd_pending_request) list \<Rightarrow> (u64 \<times> bytes) list" where
  "put_list k [] = []"
| "put_list k (pr # reqs) = (k + 1, hkdf_prk (snd pr)) # put_list (k + 1) reqs"

lemma add_all_table:
  assumes "wf_state s" "g_node_initialized s" "\<forall>pr \<in> set reqs. wf_request pr"
  shows "wf_state (add_all e reqs s) \<and> g_node_initialized (add_all e reqs s) \<and> order_of (add_all e reqs s) = order_of s
    \<and> g_pending_request_id_key (add_all e reqs s) = g_pending_request_id_key s
    \<and> g_last_pending_request_id_val (add_all e reqs s) = g_last_pending_request_id_val s + of_nat (length reqs)
    \<and> table_of (add_all e reqs s) = pr.puts (order_of s) (put_list (g_last_pending_request_id_val s) reqs) (table_of s)"
  using assms
proof (induction reqs arbitrary: s)
  case Nil
  then show ?case by (simp add: add_all_def pr.puts_def)
next
  case (Cons pr reqs)
  obtain p r where [simp]: "pr = (p, r)" by fastforce
  have wf: "wf_prid p" "length (hkdf_prk r) = 32" using Cons.prems(3) by (auto simp: wf_request_def)
  obtain res p' s' where a: "sgxsd_enclave_add_pending_request e p r s = ((res, p'), s')" by (metis prod.collapse)
  have f: "rand_frame (pending_added (hkdf_prk r) s) s'" using add_pending_frame [OF Cons.prems(1,2) wf(1) a] by blast
  have w: "wf_state s'" using rand_frame_wf [OF f] pending_added_wf [OF Cons.prems(1,2) wf(2)] by blast
  have i: "g_node_initialized s'" using f Cons.prems(2) by (simp add: rand_frame_def pending_added_def Let_def)
  have e: "order_of s' = order_of s" "g_last_pending_request_id_val s' = g_last_pending_request_id_val s + 1"
    "g_pending_request_id_key s' = g_pending_request_id_key s"
    "table_of s' = pending_put (order_of s) (g_last_pending_request_id_val s + 1) (hkdf_prk r) (table_of s)"
    using f by (simp_all add: rand_frame_def pending_added_def Let_def)
  have "add_all e (pr # reqs) s = add_all e reqs s'" by (simp add: add_all_def a)
  then show ?case using Cons.IH [OF w i] Cons.prems(3) by (simp add: e pr.puts_def)
qed

lemma put_list_slots:
  assumes "kv \<in> set (put_list k reqs)" "\<forall>pr \<in> set reqs. wf_request pr"
  shows "\<exists>j. 0 < j \<and> j \<le> length reqs \<and> fst kv = k + of_nat j \<and> length (snd kv) = 32"
  using assms
proof (induction reqs arbitrary: k)
  case (Cons pr reqs)
  then consider "kv = (k + 1, hkdf_prk (snd pr))" | "kv \<in> set (put_list (k + 1) reqs)" by auto
  then show ?case
  proof cases
    case 1
    then show ?thesis using Cons.prems by (intro exI [of _ 1]) (auto simp: wf_request_def)
  next
    case 2
    then obtain j where "0 < j" "j \<le> length reqs" "fst kv = k + 1 + of_nat j" "length (snd kv) = 32"
      using Cons.IH [OF 2] Cons.prems(2) by auto
    then show ?thesis by (intro exI [of _ "Suc j"]) (simp add: ac_simps)
  qed
qed simp

lemma put_list_append:
  "put_list k (xs @ [x]) = put_list k xs @ [(k + of_nat (length (xs @ [x])), hkdf_prk (snd x))]"
  by (induction xs arbitrary: k) (simp_all add: ac_simps)

lemma of_nat_power_nonzero: "n < 64 \<Longrightarrow> of_nat (2 ^ n) \<noteq> (0 :: u64)"
  by (simp add: exp_eq_zero_iff)

text \<open>The next \<open>2 ^ order - 1\<close> identifiers use other entries, the one after them the same.\<close>

lemma entries_differ:
  assumes "unat order < 64" "0 < j" "j < 2 ^ unat order"
  shows "pending_entry order (k + of_nat j) \<noteq> pending_entry order k"
proof
  assume "pending_entry order (k + of_nat j) = pending_entry order k"
  then have "(unat k + unat (of_nat j :: u64)) mod 2 ^ 64 mod 2 ^ unat order = unat k mod 2 ^ unat order"
    using assms(1) by (simp add: pending_entry_mod unat_word_ariths)
  moreover have "(2 :: nat) ^ unat order dvd 2 ^ 64" using assms(1) by (intro le_imp_power_dvd) simp
  moreover have "(2 :: nat) ^ unat order < 2 ^ 64" using assms(1) by (intro power_strict_increasing) simp_all
  then have "unat (of_nat j :: u64) = j" using assms(3) by (intro unat_word_of_nat) simp
  ultimately have "(unat k + j) mod 2 ^ unat order = unat k mod 2 ^ unat order" by (simp only: mod_mod_cancel)
  then have "2 ^ unat order dvd j" by (simp add: mod_eq_dvd_iff_nat)
  then show False using assms(2,3) nat_dvd_not_less by blast
qed

lemma entries_repeat:
  assumes "unat order < 64"
  shows "pending_entry order (k + of_nat (2 ^ unat order)) = pending_entry order k"
proof -
  have p: "(2 :: nat) ^ unat order < 2 ^ 64" using assms by (intro power_strict_increasing) simp_all
  have d: "(2 :: nat) ^ unat order dvd 2 ^ 64" using assms by (intro le_imp_power_dvd) simp
  have "unat (of_nat (2 ^ unat order) :: u64) = 2 ^ unat order" using p by (intro unat_word_of_nat) simp
  then show ?thesis using assms d by (simp add: pending_entry_mod unat_word_ariths mod_mod_cancel)
qed

section \<open>Properties\<close>

definition demo_prid :: sgxsd_pending_request_id where
  "demo_prid = seal_id (replicate 32 0) 1 (replicate 12 0)"

definition demo_request :: sgxsd_pending_request where
  "demo_request = \<lparr>id_val = 0, hkdf_prk = replicate 32 7\<rparr>"

lemma demo_pending:
  "wf_prid demo_prid" "length (hkdf_prk demo_request) = 32" "g_last_pending_request_id_val demo_state = 0"
  "g_pending_request_id_key demo_state = replicate 32 0" "order_of demo_state = 1"
  "open_id (g_pending_request_id_key demo_state) demo_prid = Some 1"
  by (simp_all add: demo_prid_def wf_seal_id demo_request_def demo_state_def initial_state_def open_seal_id)

text \<open>The abstract view of the table: the requests that can still be looked up.\<close>

definition live_requests :: "'w sgxsd_state \<Rightarrow> u64 \<Rightarrow> bytes option" where
  "live_requests s k = (if k = 0 \<or> g_pending_requests s = None then None else pending_get (order_of s) k (table_of s))"

lemma live_frame: "rand_frame s s' \<Longrightarrow> live_requests s' = live_requests s"
  by (simp add: rand_frame_def live_requests_def fun_eq_iff)

lemma live_added:
  assumes "wf_state s" "g_node_initialized s" "k = g_last_pending_request_id_val s + 1" "k \<noteq> 0"
  shows "live_requests (pending_added prk s)
    = (\<lambda>k'. if pending_entry (order_of s) k' = pending_entry (order_of s) k then None else live_requests s k')(k \<mapsto> prk)"
  using pr.get_put [OF wf_state_table(1) [OF assms(1,2)]] wf_state_table(2) [OF assms(1,2)] assms(3,4)
  by (auto simp: live_requests_def pending_added_def Let_def fun_eq_iff)

lemma live_removed:
  assumes "wf_state s" "g_node_initialized s" "pending_get (order_of s) k (table_of s) \<noteq> None"
  shows "live_requests (pending_removed k s) = (live_requests s)(k := None)"
  using pr.get_del [OF wf_state_table(1) [OF assms(1,2)] _ assms(3)] wf_state_table(2) [OF assms(1,2)]
  by (auto simp: live_requests_def pending_removed_def fun_eq_iff)

text \<open>C14. The pending-request table refines a finite map from identifiers to keys. In every well-formed
  state of an initialised node, adding a request whose counter value does not wrap to \<open>0\<close> makes exactly
  that request live and displaces only the one in the same entry; looking up an identifier that
  opens under the node's key returns the live request or \<open>SGXSD_ERROR_PENDING_REQUEST_NOT_FOUND\<close>;
  removing it returns the same answer and makes the request no longer live. All three keep the
  state well-formed.\<close>

theorem pending_requests_refinement:
  assumes "wf_state s" "g_node_initialized s" "wf_prid p" "length (hkdf_prk r) = 32"
    and "k = g_last_pending_request_id_val s + 1" "k \<noteq> 0"
    and "wf_prid q" "open_id (g_pending_request_id_key s) q = Some k'" "k' \<noteq> 0"
    and "sgxsd_enclave_add_pending_request e p r s = ((res, p'), s')"
    and "sgxsd_enclave_remove_pending_request q old s = ((res'', r''), s'')"
  shows "wf_state s' \<and> live_requests s'
      = (\<lambda>j. if pending_entry (order_of s) j = pending_entry (order_of s) k then None else live_requests s j)(k \<mapsto> hkdf_prk r)
    \<and> sgxsd_enclave_get_pending_request q old s
      = (case live_requests s k' of None \<Rightarrow> (SGXSD_ERROR_PENDING_REQUEST_NOT_FOUND, old)
         | Some prk \<Rightarrow> (SGX_SUCCESS, \<lparr>id_val = k', hkdf_prk = prk\<rparr>))
    \<and> (res'', r'') = sgxsd_enclave_get_pending_request q old s
    \<and> wf_state s'' \<and> live_requests s'' = (live_requests s)(k' := None)"
proof -
  note t = wf_state_table [OF assms(1,2)]
  have f: "rand_frame (pending_added (hkdf_prk r) s) s'" using add_pending_frame [OF assms(1-3) assms(10)] by blast
  have "wf_state s'" using rand_frame_wf [OF f pending_added_wf [OF assms(1,2,4)]] .
  moreover note live_frame [OF f, unfolded live_added [OF assms(1,2,5,6)]]
  moreover have l: "live_requests s k' = pending_get (order_of s) k' (table_of s)" using assms(9) t(2) by (auto simp: live_requests_def)
  moreover have "sgxsd_enclave_get_pending_request q old s
      = (case live_requests s k' of None \<Rightarrow> (SGXSD_ERROR_PENDING_REQUEST_NOT_FOUND, old)
         | Some prk \<Rightarrow> (SGX_SUCCESS, \<lparr>id_val = k', hkdf_prk = prk\<rparr>))"
    unfolding get_pending_eq [OF t(3) assms(7)] assms(8) l by simp
  moreover have "(res'', r'') = sgxsd_enclave_get_pending_request q old s \<and> wf_state s''
      \<and> live_requests s'' = (live_requests s)(k' := None)"
    using assms(11) pending_removed_wf [OF assms(1,2)] live_removed [OF assms(1,2), of k'] assms(1) l
    unfolding get_pending_eq [OF t(3) assms(7)] remove_pending_eq [OF t(3) assms(7)] assms(8)
    by (auto split: option.splits)
  ultimately show ?thesis by blast
qed

theorem pending_requests_refinement_witness:
  "live_requests (snd (sgxsd_enclave_add_pending_request demo_env demo_prid demo_request demo_state)) 1 = Some (replicate 32 7)
    \<and> sgxsd_enclave_get_pending_request demo_prid demo_request demo_state = (SGXSD_ERROR_PENDING_REQUEST_NOT_FOUND, demo_request)"
proof -
  obtain res p' s' where a: "sgxsd_enclave_add_pending_request demo_env demo_prid demo_request demo_state = ((res, p'), s')"
    by (metis prod.collapse)
  obtain res2 r2 s2 where b: "sgxsd_enclave_remove_pending_request demo_prid demo_request demo_state = ((res2, r2), s2)"
    by (metis prod.collapse)
  have "live_requests demo_state 1 = None"
    by (simp add: live_requests_def pending_get_def demo_state_def zero_pending_request_def nth_replicate
      pending_entry_def pending_request_count_mask_def)
  then show ?thesis
    using pending_requests_refinement [OF demo_wf demo_pending(1,2) _ _ demo_pending(1,6) _ a b, of 1]
    by (simp add: demo_pending a) (simp add: demo_request_def)
qed

text \<open>Taking an identifier out after \<open>n\<close> further requests.\<close>

lemma remove_after:
  assumes wf: "wf_state s" "g_node_initialized s" "wf_prid p" "length (hkdf_prk r) = 32"
    and add: "sgxsd_enclave_add_pending_request e p r s = ((SGX_SUCCESS, p'), s1)"
    and k: "k = g_last_pending_request_id_val s + 1"
    and reqs: "\<forall>pr \<in> set reqs. wf_request pr"
  shows "wf_state (add_all e reqs s1)" "g_node_initialized (add_all e reqs s1)" "wf_prid p'"
    "open_id (g_pending_request_id_key (add_all e reqs s1)) p' = Some k" "order_of (add_all e reqs s1) = order_of s"
    "table_of (add_all e reqs s1) = pr.puts (order_of s) (put_list k reqs) (pending_put (order_of s) k (hkdf_prk r) (table_of s))"
proof -
  note f = add_pending_frame [OF wf(1-3) add]
  then obtain iv where iv: "length iv = 12" "p' = seal_id (g_pending_request_id_key s) k iv" unfolding k by blast
  have 1: "wf_state s1" using f rand_frame_wf pending_added_wf [OF wf(1,2,4)] by blast
  have 2: "g_node_initialized s1" "order_of s1 = order_of s" "g_pending_request_id_key s1 = g_pending_request_id_key s"
    "g_last_pending_request_id_val s1 = k" "table_of s1 = pending_put (order_of s) k (hkdf_prk r) (table_of s)"
    using f wf(2) by (simp_all add: rand_frame_def pending_added_def Let_def k)
  from add_all_table [OF 1 2(1) reqs, of e] iv
  show "wf_state (add_all e reqs s1)" "g_node_initialized (add_all e reqs s1)" "wf_prid p'"
    "open_id (g_pending_request_id_key (add_all e reqs s1)) p' = Some k" "order_of (add_all e reqs s1) = order_of s"
    "table_of (add_all e reqs s1) = pr.puts (order_of s) (put_list k reqs) (pending_put (order_of s) k (hkdf_prk r) (table_of s))"
    by (simp_all add: 2 open_seal_id wf_seal_id)
qed

text \<open>C33. A request that was added with success stays available while fewer than \<open>2 ^ order\<close> others are
  added, whatever the random generator answers to those: removing it by the identifier it was
  given then returns its key, and a second removal finds nothing.\<close>

theorem pending_request_lifecycle:
  assumes "wf_state s" "g_node_initialized s" "wf_prid p" "length (hkdf_prk r) = 32"
    and "sgxsd_enclave_add_pending_request e p r s = ((SGX_SUCCESS, p'), s1)"
    and "k = g_last_pending_request_id_val s + 1" "k \<noteq> 0"
    and "\<forall>pr \<in> set reqs. wf_request pr" "length reqs < 2 ^ unat (order_of s)"
    and "sgxsd_enclave_remove_pending_request p' old (add_all e reqs s1) = ((res, r'), s2)"
  shows "res = SGX_SUCCESS \<and> r' = \<lparr>id_val = k, hkdf_prk = hkdf_prk r\<rparr>
    \<and> sgxsd_enclave_remove_pending_request p' old s2 = ((SGXSD_ERROR_PENDING_REQUEST_NOT_FOUND, old), s2)"
proof -
  let ?s = "add_all e reqs s1"
  note a = remove_after [OF assms(1-6,8)]
  note t = wf_state_table(1) [OF assms(1,2)] wf_state_table [OF a(1,2)]
  have "\<forall>(k', v) \<in> set (put_list k reqs). length v = 32 \<and> pending_entry (order_of s) k' \<noteq> pending_entry (order_of s) k"
  proof clarify
    fix k' v assume "(k', v) \<in> set (put_list k reqs)"
    from put_list_slots [OF this assms(8)] obtain j where "0 < j" "j \<le> length reqs" "k' = k + of_nat j" "length v = 32" by auto
    then show "length v = 32 \<and> pending_entry (order_of s) k' \<noteq> pending_entry (order_of s) k"
      using entries_differ t(1) assms(9) by (simp add: pending_inv_def)
  qed
  from pr.retained [OF t(1) assms(4) this]
  have g: "pending_get (order_of ?s) k (table_of ?s) = Some (hkdf_prk r)" unfolding a(5,6) .
  then have 1: "res = SGX_SUCCESS" "r' = \<lparr>id_val = k, hkdf_prk = hkdf_prk r\<rparr>" "s2 = pending_removed k ?s"
    using assms(10) unfolding remove_pending_eq [OF t(4) a(3)] a(4) by simp_all
  have "g_pending_request_id_key s2 = g_pending_request_id_key ?s" by (simp add: 1(3) pending_removed_def)
  moreover have "pending_get (order_of s2) k (table_of s2) = None"
    using fun_cong [OF live_removed [OF a(1,2), of k], of k] g assms(7) by (simp add: 1(3) live_requests_def pending_removed_def)
  ultimately show ?thesis using 1(1,2) t(4) a(4) by (simp add: remove_pending_eq [OF _ a(3)])
qed

theorem pending_request_lifecycle_witness:
  "\<exists>p' s1 s2. sgxsd_enclave_add_pending_request demo_env demo_prid demo_request demo_state = ((SGX_SUCCESS, p'), s1)
    \<and> sgxsd_enclave_remove_pending_request p' demo_request (add_all demo_env [(demo_prid, demo_request)] s1)
      = ((SGX_SUCCESS, \<lparr>id_val = 1, hkdf_prk = replicate 32 7\<rparr>), s2)
    \<and> sgxsd_enclave_remove_pending_request p' demo_request s2 = ((SGXSD_ERROR_PENDING_REQUEST_NOT_FOUND, demo_request), s2)"
proof -
  obtain p' s1 where a: "sgxsd_enclave_add_pending_request demo_env demo_prid demo_request demo_state = ((SGX_SUCCESS, p'), s1)"
    using add_pending_eq [OF demo_wf demo_pending(1) demo_read_rand] by auto
  obtain res r' s2 where b: "sgxsd_enclave_remove_pending_request p' demo_request
      (add_all demo_env [(demo_prid, demo_request)] s1) = ((res, r'), s2)" by (metis prod.collapse)
  show ?thesis
    using pending_request_lifecycle [OF demo_wf demo_pending(1,2) a refl _ _ _ b] a b
    by (simp add: demo_pending wf_request_def) (simp add: demo_request_def)
qed

text \<open>The table is a ring: when exactly \<open>2 ^ order\<close> further requests have been added, the request has been
  displaced and its identifier, though authentic, is answered with \<open>SGXSD_ERROR_PENDING_REQUEST_NOT_FOUND\<close>.\<close>

theorem pending_request_displaced:
  assumes "wf_state s" "g_node_initialized s" "wf_prid p" "length (hkdf_prk r) = 32"
    and "sgxsd_enclave_add_pending_request e p r s = ((SGX_SUCCESS, p'), s1)"
    and "\<forall>pr \<in> set reqs. wf_request pr" "length reqs = 2 ^ unat (order_of s)"
  shows "sgxsd_enclave_get_pending_request p' old (add_all e reqs s1) = (SGXSD_ERROR_PENDING_REQUEST_NOT_FOUND, old)"
proof -
  let ?s = "add_all e reqs s1" and ?k = "g_last_pending_request_id_val s + 1"
  note a = remove_after [OF assms(1-5) refl assms(6)]
  note t = wf_state_table(1) [OF assms(1,2)] wf_state_table [OF a(1,2)]
  have "reqs \<noteq> []" using assms(7) by auto
  then obtain xs x where x: "reqs = xs @ [x]" by (metis rev_exhaust)
  define tb where "tb = pr.puts (order_of s) (put_list ?k xs) (pending_put (order_of s) ?k (hkdf_prk r) (table_of s))"
  define k' where "k' = ?k + of_nat (2 ^ unat (order_of s))"
  have o: "unat (order_of s) < 64" using t(1) by (simp add: pending_inv_def)
  have tb: "pending_inv (order_of s) tb"
    unfolding tb_def using put_list_slots [of _ ?k xs] assms(6)
    by (intro pr.inv_puts pr.inv_put t(1) assms(4)) (fastforce simp: x)
  have "table_of ?s = pending_put (order_of s) k' (hkdf_prk (snd x)) tb"
    unfolding a(6) unfolding x put_list_append tb_def k'_def assms(7) [symmetric] by (simp add: pr.puts_def)
  moreover have "k' \<noteq> ?k" using of_nat_power_nonzero [OF o] by (simp add: k'_def)
  moreover have "pending_entry (order_of s) k' = pending_entry (order_of s) ?k" unfolding k'_def by (rule entries_repeat [OF o])
  ultimately have "pending_get (order_of ?s) ?k (table_of ?s) = None" unfolding a(5) by (simp add: pr.displaced [OF tb])
  then show ?thesis using a(4) by (simp add: get_pending_eq [OF t(4) a(3)])
qed

theorem pending_request_displaced_witness:
  "\<exists>p' s1. sgxsd_enclave_add_pending_request demo_env demo_prid demo_request demo_state = ((SGX_SUCCESS, p'), s1)
    \<and> sgxsd_enclave_get_pending_request p' demo_request
        (add_all demo_env [(demo_prid, demo_request), (demo_prid, demo_request)] s1)
      = (SGXSD_ERROR_PENDING_REQUEST_NOT_FOUND, demo_request)"
proof -
  obtain p' s1 where a: "sgxsd_enclave_add_pending_request demo_env demo_prid demo_request demo_state = ((SGX_SUCCESS, p'), s1)"
    using add_pending_eq [OF demo_wf demo_pending(1) demo_read_rand] by auto
  show ?thesis
    using pending_request_displaced [OF demo_wf demo_pending(1,2) a] a by (simp add: demo_pending wf_request_def)
qed

text \<open>C34. An identifier whose MAC is not the AES-GCM tag of its other fields under the key of the node is
  refused by lookup and removal with \<open>SGX_ERROR_MAC_MISMATCH\<close>; neither returns a request and removal leaves the state as
  it was.\<close>

theorem pending_request_forgery_refused:
  assumes "wf_state s" "wf_prid q"
    and "prid_mac q \<noteq> gcm_tag (aes_encrypt (g_pending_request_id_key s)) (prid_iv q) [] (prid_data q)"
  shows "sgxsd_enclave_get_pending_request q old s = (SGX_ERROR_MAC_MISMATCH, old)
    \<and> sgxsd_enclave_remove_pending_request q old s = ((SGX_ERROR_MAC_MISMATCH, old), s)"
proof -
  have "length (g_pending_request_id_key s) = 32" using assms(1) by (simp add: wf_state_def)
  from get_pending_eq [OF this assms(2)] remove_pending_eq [OF this assms(2)] assms(3)
  show ?thesis by (simp add: open_id_def)
qed

theorem pending_request_forgery_refused_witness:
  "\<exists>m. sgxsd_enclave_get_pending_request (demo_prid\<lparr>prid_mac := m\<rparr>) demo_request demo_state = (SGX_ERROR_MAC_MISMATCH, demo_request)
    \<and> sgxsd_enclave_remove_pending_request (demo_prid\<lparr>prid_mac := m\<rparr>) demo_request demo_state
      = ((SGX_ERROR_MAC_MISMATCH, demo_request), demo_state)"
proof -
  let ?T = "gcm_tag (aes_encrypt (g_pending_request_id_key demo_state)) (prid_iv demo_prid) [] (prid_data demo_prid)"
  obtain m where m: "length m = 16" "m \<noteq> ?T"
    by (metis length_replicate nth_replicate zero_neq_one zero_less_numeral)
  have w: "wf_prid (demo_prid\<lparr>prid_mac := m\<rparr>)" using demo_pending(1) m(1) by (simp add: wf_prid_def)
  show ?thesis
    using pending_request_forgery_refused [OF demo_wf(1) w] m(2) by auto
qed

end
