(* ===== verification/Sgxsd_Server.thy ===== *)
theory Sgxsd_Server imports Sgxsd_Pending begin

text \<open>
  Request negotiation, replies and the server entry points of \<open>c_src/sgxsd-enclave.c\<close>. A pointer to a
  descriptor of \<open>g_sgxsd_enclave_server_states\<close> is its index. An entry point is modelled from the
  moment it has the lock of the descriptor; \<open>Sgxsd_Locks\<close> has the interleavings. The sizes that the
  code converts from \<open>size_t\<close> to \<open>uint32_t\<close> are converted here as well.
\<close>

section \<open>Negotiation\<close>

definition zero_prid :: sgxsd_pending_request_id where
  "zero_prid = \<lparr>prid_data = replicate 8 0, prid_iv = replicate 12 0, prid_mac = replicate 16 0\<rparr>"

definition sgxsd_enclave_negotiate_request ::
  "'w env \<Rightarrow> sgxsd_request_negotiation_request option \<Rightarrow> sgxsd_request_negotiation_response option \<Rightarrow> 'w sgxsd_state
    \<Rightarrow> (sgx_status \<times> sgxsd_request_negotiation_response option) \<times> 'w sgxsd_state" where
  "sgxsd_enclave_negotiate_request e p_request p_response s =
     (if \<not> g_node_initialized s then ((SGX_ERROR_INVALID_STATE, p_response), s)
      else if p_request = None then ((SGX_ERROR_INVALID_PARAMETER, p_response), s)
      else if p_response = None then ((SGX_ERROR_INVALID_PARAMETER, p_response), s)
      else
        let client = client_pubkey (the p_request); response = the p_response;
            ((generate_keypair_res, server_ephemeral_keypair), s) = sgxsd_enclave_generate_curve25519_keypair e zero_key_pair s
        in if generate_keypair_res \<noteq> SGX_SUCCESS then ((generate_keypair_res, p_response), s)
           else
             let server_static_keypair = g_dh_keypair s;
                 ephemeral_dh_key = curve25519_donna (privkey server_ephemeral_keypair) client;
                 static_dh_key = curve25519_donna (privkey server_static_keypair) client;
                 hkdf_salt = sgxsd_enclave_sha256 [client, pubkey server_ephemeral_keypair, pubkey server_static_keypair];
                 pending_request = zero_pending_request
                   \<lparr>hkdf_prk := sgxsd_enclave_hmac_sha256 [hkdf_salt, ephemeral_dh_key, static_dh_key]\<rparr>;
                 response = response\<lparr>enc_prid_iv := replicate SGXSD_AES_GCM_IV_SIZE 0\<rparr>;
                 (_, server_aes_gcm_key) = sgxsd_enclave_derive_request_keys pending_request None
                   (Some (replicate SGXSD_AES_GCM_KEY_SIZE 0));
                 ((add_pending_request_res, pending_request_id), s) =
                   sgxsd_enclave_add_pending_request e zero_prid pending_request s
             in if add_pending_request_res \<noteq> SGX_SUCCESS then ((add_pending_request_res, Some response), s)
                else
                  let (encrypt_pending_request_id_res, data, mac) =
                        sgxsd_aes_gcm_encrypt server_aes_gcm_key (Some (prid_bytes pending_request_id)) 36
                          (Some (enc_prid_data response)) (Some (enc_prid_iv response)) None 0 (Some (enc_prid_mac response));
                      response = response\<lparr>enc_prid_data := the data, enc_prid_mac := the mac\<rparr>
                  in if encrypt_pending_request_id_res \<noteq> SGX_SUCCESS then ((SGX_ERROR_UNEXPECTED, Some response), s)
                     else ((SGX_SUCCESS, Some (response\<lparr>server_static_pubkey := pubkey server_static_keypair,
                       server_ephemeral_pubkey := pubkey server_ephemeral_keypair\<rparr>)), s))"

section \<open>Replies\<close>

record sgxsd_msg_buf =
  buf_data :: "bytes option"
  buf_size :: u32

definition erase_buf :: "sgxsd_msg_buf \<Rightarrow> sgxsd_msg_buf" where
  "erase_buf b = b\<lparr>buf_data := map_option (memcpy_at 0 (replicate (unat (buf_size b)) 0)) (buf_data b)\<rparr>"

definition sgxsd_ocall_reply ::
  "'w env \<Rightarrow> sgxsd_msg_header option \<Rightarrow> bytes option \<Rightarrow> u64 \<Rightarrow> u64 \<Rightarrow> 'w sgxsd_state \<Rightarrow> sgx_status \<times> 'w sgxsd_state" where
  "sgxsd_ocall_reply e reply_header reply_data reply_data_size msg_tag s =
     (let ((reply_ocall_res, reply_res), w) = env_ocall_reply e reply_header reply_data reply_data_size msg_tag (world s)
      in (if reply_ocall_res = SGX_SUCCESS then reply_res else reply_ocall_res, s\<lparr>world := w\<rparr>))"

definition sgxsd_enclave_server_reply_noerase ::
  "'w env \<Rightarrow> sgxsd_msg_buf \<Rightarrow> sgxsd_msg_from option \<Rightarrow> 'w sgxsd_state \<Rightarrow> (sgx_status \<times> sgxsd_msg_buf) \<times> 'w sgxsd_state" where
  "sgxsd_enclave_server_reply_noerase e reply_buf p_from s =
     (case p_from of
        None \<Rightarrow> ((SGX_ERROR_INVALID_PARAMETER, reply_buf), s)
      | Some from \<Rightarrow>
          if \<not> from_valid from then ((SGX_ERROR_INVALID_STATE, reply_buf), s)
          else if buf_data reply_buf = None \<and> buf_size reply_buf \<noteq> 0 then ((SGX_ERROR_INVALID_PARAMETER, reply_buf), s)
          else
            let reply_header_prid = env_stack_prid e (world s);
                ((iv_rand_res, iv), s) = sgx_read_rand e SGXSD_AES_GCM_IV_SIZE s
            in if iv_rand_res \<noteq> SGX_SUCCESS then ((iv_rand_res, reply_buf), s)
               else
                 let iv = iv[0 := iv ! 0 OR 1];
                     (encrypt_res, data, mac) = sgxsd_aes_gcm_encrypt (Some (from_server_key from)) (buf_data reply_buf)
                       (buf_size reply_buf) (buf_data reply_buf) (Some iv) None 0 (Some (replicate SGXSD_AES_GCM_MAC_SIZE 0));
                     reply_buf = reply_buf\<lparr>buf_data := data\<rparr>
                 in if encrypt_res \<noteq> SGX_SUCCESS then ((SGX_ERROR_UNEXPECTED, reply_buf), s)
                    else
                      let reply_header = \<lparr>hdr_iv = iv, hdr_mac = the mac, hdr_pending_request_id = reply_header_prid\<rparr>;
                          (res, s) = sgxsd_ocall_reply e (Some reply_header) (buf_data reply_buf)
                            (ucast (buf_size reply_buf)) (from_tag from) s
                      in ((res, reply_buf), s))"

definition sgxsd_enclave_server_reply ::
  "'w env \<Rightarrow> sgxsd_msg_buf \<Rightarrow> sgxsd_msg_from option \<Rightarrow> 'w sgxsd_state
    \<Rightarrow> (sgx_status \<times> sgxsd_msg_buf \<times> sgxsd_msg_from option) \<times> 'w sgxsd_state" where
  "sgxsd_enclave_server_reply e reply_buf p_from s =
     (let ((res, reply_buf), s) = sgxsd_enclave_server_reply_noerase e reply_buf p_from s
      in ((res, erase_buf reply_buf, map_option (\<lambda>_. zero_msg_from) p_from), s))"

definition sgxsd_enclave_server_noreply ::
  "'w env \<Rightarrow> sgxsd_msg_from option \<Rightarrow> 'w sgxsd_state \<Rightarrow> (sgx_status \<times> sgxsd_msg_from option) \<times> 'w sgxsd_state" where
  "sgxsd_enclave_server_noreply e p_from s =
     (case p_from of
        None \<Rightarrow> ((SGX_ERROR_INVALID_PARAMETER, p_from), s)
      | Some from \<Rightarrow>
          if \<not> from_valid from then ((SGX_ERROR_INVALID_STATE, p_from), s)
          else let (res, s) = sgxsd_ocall_reply e None None 0 (from_tag from) s in ((res, Some zero_msg_from), s))"

section \<open>Servers\<close>

definition get_desc :: "nat \<Rightarrow> 'w sgxsd_state \<Rightarrow> sgxsd_server_state_desc" where
  "get_desc i s = g_server_states s ! i"

definition set_desc :: "nat \<Rightarrow> sgxsd_server_state_desc \<Rightarrow> 'w sgxsd_state \<Rightarrow> 'w sgxsd_state" where
  "set_desc i d s = s\<lparr>g_server_states := (g_server_states s)[i := d]\<rparr>"

definition sgxsd_spin_lock :: "nat \<Rightarrow> 'w sgxsd_state \<Rightarrow> 'w sgxsd_state" where
  "sgxsd_spin_lock i s = set_desc i ((get_desc i s)\<lparr>sd_lock := 1\<rparr>) s"

definition sgxsd_spin_unlock :: "nat \<Rightarrow> 'w sgxsd_state \<Rightarrow> 'w sgxsd_state" where
  "sgxsd_spin_unlock i s = set_desc i ((get_desc i s)\<lparr>sd_lock := 0\<rparr>) s"

text \<open>A callback runs on the state of the random generator and the world.\<close>

definition callback :: "(bytes \<times> 'w \<Rightarrow> 'r \<times> bytes \<times> 'w) \<Rightarrow> 'w sgxsd_state \<Rightarrow> 'r \<times> 'w sgxsd_state" where
  "callback f s = (let (r, rand, w) = f (g_read_rand_state s, world s)
     in (r, s\<lparr>g_read_rand_state := fixed 32 rand, world := w\<rparr>))"

definition sgxsd_enclave_server_start_locked ::
  "'w env \<Rightarrow> sgxsd_server_init_args option \<Rightarrow> nat \<Rightarrow> 'w sgxsd_state \<Rightarrow> sgx_status \<times> 'w sgxsd_state" where
  "sgxsd_enclave_server_start_locked e p_args i s =
     (if sd_valid (get_desc i s) then (SGX_ERROR_INVALID_STATE, s)
      else
        let ((init_res, p_state), s) = callback (env_server_init e p_args (sd_state (get_desc i s))) s;
            s = set_desc i ((get_desc i s)\<lparr>sd_state := p_state\<rparr>) s
        in if init_res = SGX_SUCCESS then (SGX_SUCCESS, set_desc i ((get_desc i s)\<lparr>sd_valid := True\<rparr>) s)
           else (init_res, s))"

definition sgxsd_enclave_server_start ::
  "'w env \<Rightarrow> sgxsd_server_init_args option \<Rightarrow> u64 \<Rightarrow> 'w sgxsd_state \<Rightarrow> sgx_status \<times> 'w sgxsd_state" where
  "sgxsd_enclave_server_start e p_args state_handle s =
     (if \<not> g_node_initialized s then (SGX_ERROR_INVALID_STATE, s)
      else if SGXSD_ENCLAVE_MAX_SERVERS \<le> unat state_handle then (SGX_ERROR_INVALID_PARAMETER, s)
      else
        let i = unat state_handle; s = sgxsd_spin_lock i s;
            (res, s) = sgxsd_enclave_server_start_locked e p_args i s
        in (res, sgxsd_spin_unlock i s))"

definition sgxsd_enclave_server_call_locked ::
  "'w env \<Rightarrow> sgxsd_server_handle_call_args option \<Rightarrow> sgxsd_msg_header option \<Rightarrow> bytes option \<Rightarrow> u64 \<Rightarrow> u64 \<Rightarrow> nat
    \<Rightarrow> 'w sgxsd_state \<Rightarrow> (sgx_status \<times> bytes option) \<times> 'w sgxsd_state" where
  "sgxsd_enclave_server_call_locked e p_args p_msg_header msg_data msg_data_size msg_tag i s =
     (if \<not> sd_valid (get_desc i s) then ((SGX_ERROR_INVALID_STATE, msg_data), s)
      else if p_msg_header = None then ((SGX_ERROR_INVALID_PARAMETER, msg_data), s)
      else if msg_data = None \<or> msg_data_size = 0 then ((SGX_ERROR_INVALID_PARAMETER, msg_data), s)
      else
        let hdr = the p_msg_header;
            ((remove_pending_request_res, pending_request), s) =
              sgxsd_enclave_remove_pending_request (hdr_pending_request_id hdr) zero_pending_request s
        in if remove_pending_request_res \<noteq> SGX_SUCCESS then ((remove_pending_request_res, msg_data), s)
           else
             let (client_key, server_key) = sgxsd_enclave_derive_request_keys pending_request
                   (Some (replicate SGXSD_AES_GCM_KEY_SIZE 0)) (Some (replicate SGXSD_AES_GCM_KEY_SIZE 0));
                 msg_from = \<lparr>from_valid = True, from_tag = msg_tag, from_server_key = the server_key\<rparr>;
                 size = ucast msg_data_size :: u32;
                 (decrypt_msg_res, msg_data) = sgxsd_aes_gcm_decrypt client_key msg_data (ucast msg_data_size) msg_data
                   (Some (hdr_iv hdr)) (Some (prid_bytes (hdr_pending_request_id hdr))) 36 (Some (hdr_mac hdr))
             in if decrypt_msg_res \<noteq> SGX_SUCCESS
                then ((if decrypt_msg_res = SGX_ERROR_INVALID_PARAMETER then SGX_ERROR_UNEXPECTED else decrypt_msg_res, msg_data), s)
                else
                  let ((server_call_res, p_state), s) = callback (env_server_handle_call e p_args
                        (take (unat size) (the msg_data)) msg_from (sd_state (get_desc i s))) s;
                      s = set_desc i ((get_desc i s)\<lparr>sd_state := p_state\<rparr>) s;
                      msg_data = map_option (memcpy_at 0 (replicate (unat size) 0)) msg_data
                  in ((server_call_res, msg_data), s))"

definition sgxsd_enclave_server_call ::
  "'w env \<Rightarrow> sgxsd_server_handle_call_args option \<Rightarrow> sgxsd_msg_header option \<Rightarrow> bytes option \<Rightarrow> u64 \<Rightarrow> u64 \<Rightarrow> u64
    \<Rightarrow> 'w sgxsd_state \<Rightarrow> (sgx_status \<times> bytes option) \<times> 'w sgxsd_state" where
  "sgxsd_enclave_server_call e p_args p_msg_header msg_data msg_data_size msg_tag state_handle s =
     (if \<not> g_node_initialized s then ((SGX_ERROR_INVALID_STATE, msg_data), s)
      else if SGXSD_ENCLAVE_MAX_SERVERS \<le> unat state_handle then ((SGX_ERROR_INVALID_PARAMETER, msg_data), s)
      else
        let i = unat state_handle; s = sgxsd_spin_lock i s;
            (res, s) = sgxsd_enclave_server_call_locked e p_args p_msg_header msg_data msg_data_size msg_tag i s
        in (res, sgxsd_spin_unlock i s))"

definition sgxsd_enclave_server_stop_locked ::
  "'w env \<Rightarrow> sgxsd_server_terminate_args option \<Rightarrow> nat \<Rightarrow> 'w sgxsd_state \<Rightarrow> sgx_status \<times> 'w sgxsd_state" where
  "sgxsd_enclave_server_stop_locked e p_args i s =
     (if \<not> sd_valid (get_desc i s) then (SGX_ERROR_INVALID_STATE, s)
      else
        let p_state = sd_state (get_desc i s);
            s = set_desc i zero_server_desc s
        in callback (env_server_terminate e p_args p_state) s)"

definition sgxsd_enclave_server_stop ::
  "'w env \<Rightarrow> sgxsd_server_terminate_args option \<Rightarrow> u64 \<Rightarrow> 'w sgxsd_state \<Rightarrow> sgx_status \<times> 'w sgxsd_state" where
  "sgxsd_enclave_server_stop e p_args state_handle s =
     (if \<not> g_node_initialized s then (SGX_ERROR_INVALID_STATE, s)
      else if SGXSD_ENCLAVE_MAX_SERVERS \<le> unat state_handle then (SGX_ERROR_INVALID_PARAMETER, s)
      else
        let i = unat state_handle; s = sgxsd_spin_lock i s;
            (res, s) = sgxsd_enclave_server_stop_locked e p_args i s
        in (res, sgxsd_spin_unlock i s))"

definition sgxsd_enclave_ratelimit_fingerprint_locked ::
  "'w env \<Rightarrow> bytes \<Rightarrow> sgxsd_server_handle_call_args option \<Rightarrow> sgxsd_msg_header option \<Rightarrow> bytes option \<Rightarrow> u64 \<Rightarrow> u64 \<Rightarrow> nat
    \<Rightarrow> bytes option \<Rightarrow> u64 \<Rightarrow> 'w sgxsd_state \<Rightarrow> (sgx_status \<times> bytes option \<times> bytes option) \<times> 'w sgxsd_state" where
  "sgxsd_enclave_ratelimit_fingerprint_locked e fingerprint_key call_args p_msg_header msg_data msg_data_size msg_tag i
      fingerprint fingerprint_size s =
     (if \<not> sd_valid (get_desc i s) then ((SGX_ERROR_INVALID_STATE, msg_data, fingerprint), s)
      else if p_msg_header = None then ((SGX_ERROR_INVALID_PARAMETER, msg_data, fingerprint), s)
      else if msg_data = None \<or> msg_data_size = 0 then ((SGX_ERROR_INVALID_PARAMETER, msg_data, fingerprint), s)
      else
        let hdr = the p_msg_header;
            (get_pending_request_res, pending_request) =
              sgxsd_enclave_get_pending_request (hdr_pending_request_id hdr) zero_pending_request s
        in if get_pending_request_res \<noteq> SGX_SUCCESS then ((get_pending_request_res, msg_data, fingerprint), s)
           else
             let (client_key, server_key) = sgxsd_enclave_derive_request_keys pending_request
                   (Some (replicate SGXSD_AES_GCM_KEY_SIZE 0)) (Some (replicate SGXSD_AES_GCM_KEY_SIZE 0));
                 msg_from = \<lparr>from_valid = True, from_tag = msg_tag, from_server_key = the server_key\<rparr>;
                 size = ucast msg_data_size :: u32;
                 (decrypt_msg_res, msg_data) = sgxsd_aes_gcm_decrypt client_key msg_data (ucast msg_data_size) msg_data
                   (Some (hdr_iv hdr)) (Some (prid_bytes (hdr_pending_request_id hdr))) 36 (Some (hdr_mac hdr))
             in if decrypt_msg_res \<noteq> SGX_SUCCESS
                then ((if decrypt_msg_res = SGX_ERROR_INVALID_PARAMETER then SGX_ERROR_UNEXPECTED else decrypt_msg_res,
                       msg_data, fingerprint), s)
                else
                  let ((res, fingerprint), s) = callback (env_create_ratelimit_fingerprint e fingerprint_key call_args
                        (take (unat size) (the msg_data)) msg_from fingerprint fingerprint_size) s;
                      msg_data = map_option (memcpy_at 0 (replicate (unat size) 0)) msg_data
                  in ((res, msg_data, fingerprint), s))"

definition sgxsd_enclave_ratelimit_fingerprint ::
  "'w env \<Rightarrow> bytes \<Rightarrow> sgxsd_server_handle_call_args option \<Rightarrow> sgxsd_msg_header option \<Rightarrow> bytes option \<Rightarrow> u64 \<Rightarrow> u64 \<Rightarrow> u64
    \<Rightarrow> bytes option \<Rightarrow> u64 \<Rightarrow> 'w sgxsd_state \<Rightarrow> (sgx_status \<times> bytes option \<times> bytes option) \<times> 'w sgxsd_state" where
  "sgxsd_enclave_ratelimit_fingerprint e fingerprint_key call_args msg_header msg_data msg_data_size msg_tag state_handle
      fingerprint fingerprint_size s =
     (if \<not> g_node_initialized s then ((SGX_ERROR_INVALID_STATE, msg_data, fingerprint), s)
      else if SGXSD_ENCLAVE_MAX_SERVERS \<le> unat state_handle then ((SGX_ERROR_INVALID_PARAMETER, msg_data, fingerprint), s)
      else
        let i = unat state_handle; s = sgxsd_spin_lock i s;
            (res, s) = sgxsd_enclave_ratelimit_fingerprint_locked e fingerprint_key call_args msg_header msg_data
              msg_data_size msg_tag i fingerprint fingerprint_size s
        in (res, sgxsd_spin_unlock i s))"

section \<open>Descriptors, locks and callbacks\<close>

lemma desc_simps [simp]:
  "i < length (g_server_states s) \<Longrightarrow> get_desc i (set_desc i d s) = d"
  "j \<noteq> i \<Longrightarrow> get_desc j (set_desc i d s) = get_desc j s"
  "set_desc i d (set_desc i d' s) = set_desc i d s"
  "i < length (g_server_states s) \<Longrightarrow> set_desc i (get_desc i s) s = s"
  "length (g_server_states (set_desc i d s)) = length (g_server_states s)"
  by (simp_all add: get_desc_def set_desc_def)

text \<open>No descriptor lock is held between calls.\<close>

definition locks_free :: "'w sgxsd_state \<Rightarrow> bool" where
  "locks_free s \<longleftrightarrow> (\<forall>i < length (g_server_states s). sd_lock (get_desc i s) = 0)"

lemma lock_unlock [simp]:
  assumes "i < length (g_server_states s)" "locks_free s"
  shows "sgxsd_spin_unlock i (sgxsd_spin_lock i s) = s"
proof -
  have "(get_desc i s)\<lparr>sd_lock := 0\<rparr> = get_desc i s"
    using assms by (simp add: locks_free_def sgxsd_server_state_desc.equality)
  then show ?thesis using assms(1) by (simp add: sgxsd_spin_unlock_def sgxsd_spin_lock_def)
qed

lemma locks_free_set_desc:
  "locks_free s \<Longrightarrow> sd_lock d = 0 \<Longrightarrow> locks_free (set_desc i d s)"
  unfolding locks_free_def get_desc_def set_desc_def
  by (cases "i < length (g_server_states s)") (simp_all add: nth_list_update not_less)

lemma locks_free_unlock:
  "\<forall>j < length (g_server_states s). j \<noteq> i \<longrightarrow> sd_lock (get_desc j s) = 0 \<Longrightarrow> locks_free (sgxsd_spin_unlock i s)"
  unfolding locks_free_def sgxsd_spin_unlock_def get_desc_def set_desc_def
  by (cases "i < length (g_server_states s)") (auto simp: nth_list_update not_less)

text \<open>Steps that leave the requests and the node alone: everything but descriptors, key pairs, generator and world.\<close>

definition req_frame :: "'w sgxsd_state \<Rightarrow> 'w sgxsd_state \<Rightarrow> bool" where
  "req_frame s s' \<longleftrightarrow> wf_state s' \<and> g_node_initialized s' = g_node_initialized s \<and> g_pending_requests s' = g_pending_requests s
     \<and> g_pending_requests_table_order s' = g_pending_requests_table_order s
     \<and> g_last_pending_request_id_val s' = g_last_pending_request_id_val s
     \<and> g_pending_request_id_key s' = g_pending_request_id_key s"

lemma req_frame_refl [simp]: "req_frame s s = wf_state s"
  by (simp add: req_frame_def)

lemma req_frame_trans: "req_frame s s' \<Longrightarrow> req_frame s' s'' \<Longrightarrow> req_frame s s''"
  by (simp add: req_frame_def)

lemma req_frame_rand: "rand_frame s s' \<Longrightarrow> wf_state s \<Longrightarrow> req_frame s s'"
  using rand_frame_wf [of s s'] unfolding req_frame_def rand_frame_def by blast

lemma req_frame_set_desc [simp]: "req_frame s (set_desc i d s') = req_frame s s'"
  by (simp add: req_frame_def set_desc_def wf_state_def split: option.splits)

lemma req_frame_locks [simp]:
  "req_frame s (sgxsd_spin_lock i s') = req_frame s s'" "req_frame s (sgxsd_spin_unlock i s') = req_frame s s'"
  by (simp_all add: sgxsd_spin_lock_def sgxsd_spin_unlock_def)

lemma req_frame_live: "req_frame s s' \<Longrightarrow> live_requests s' = live_requests s"
  by (simp add: req_frame_def live_requests_def fun_eq_iff)

lemma callback_frame:
  assumes "callback f s = (r, s')"
  shows "rand_frame s s'"
  using assms by (auto simp: callback_def Let_def rand_frame_rand split: prod.splits)

lemma callback_desc: "callback f s = (r, s') \<Longrightarrow> g_server_states s' = g_server_states s"
  using callback_frame [of f s r s'] by (simp add: rand_frame_def)

lemma wf_states_length: "wf_state s \<Longrightarrow> length (g_server_states s) = SGXSD_ENCLAVE_MAX_SERVERS"
  by (simp add: wf_state_def)

section \<open>What a call delivers\<close>

definition wf_hdr :: "sgxsd_msg_header \<Rightarrow> bool" where
  "wf_hdr hdr \<longleftrightarrow> wf_prid (hdr_pending_request_id hdr) \<and> length (hdr_iv hdr) = 12 \<and> length (hdr_mac hdr) = 16"

lemma length_prid_bytes: "wf_prid p \<Longrightarrow> length (prid_bytes p) = 36"
  by (simp add: wf_prid_def prid_bytes_def)

text \<open>The message keys of a request (HKDF-Expand of its pseudo-random key).\<close>

abbreviation client_key_of :: "bytes \<Rightarrow> bytes" where "client_key_of prk \<equiv> rfc5869_T prk 1"
abbreviation server_key_of :: "bytes \<Rightarrow> bytes" where "server_key_of prk \<equiv> rfc5869_T prk 2"

text \<open>Opening a message: the tag covers the identifier, and failure leaves zeros.\<close>

definition open_msg :: "bytes \<Rightarrow> sgxsd_msg_header \<Rightarrow> bytes \<Rightarrow> bytes option" where
  "open_msg prk hdr data =
     (if hdr_mac hdr = gcm_tag (aes_encrypt (client_key_of prk)) (hdr_iv hdr) (prid_bytes (hdr_pending_request_id hdr)) data
      then Some (gcm_crypt (aes_encrypt (client_key_of prk)) (hdr_iv hdr) data) else None)"

lemma length_keys: "length (client_key_of prk) = 32" "length (server_key_of prk) = 32"
  by (rule length_rfc5869_T, simp)+

lemma open_msg_length: "open_msg prk hdr data = Some m \<Longrightarrow> length m = length data"
  by (auto simp: open_msg_def split: if_splits)

lemma decrypt_msg:
  assumes "wf_hdr hdr" "length data < 2 ^ 32"
  shows "sgxsd_aes_gcm_decrypt (Some (client_key_of prk)) (Some data) (of_nat (length data)) (Some data) (Some (hdr_iv hdr))
      (Some (prid_bytes (hdr_pending_request_id hdr))) 36 (Some (hdr_mac hdr))
    = (case open_msg prk hdr data of None \<Rightarrow> (SGX_ERROR_MAC_MISMATCH, Some (replicate (length data) 0))
       | Some m \<Rightarrow> (SGX_SUCCESS, Some m))"
proof -
  have l: "length (prid_bytes (hdr_pending_request_id hdr)) = 36" "length (hdr_mac hdr) = 16"
    using assms(1) by (simp_all add: wf_hdr_def length_prid_bytes)
  then have r: "readable (Some (prid_bytes (hdr_pending_request_id hdr))) 36"
    "region (Some (prid_bytes (hdr_pending_request_id hdr))) 36 = prid_bytes (hdr_pending_request_id hdr)"
    by (simp_all add: readable_def region_def)
  show ?thesis
    using decrypt_whole [OF length_keys(1) assms(2) refl l(2) r(1), of prk "hdr_iv hdr"]
    by (simp only: r(2) open_msg_def if_distrib [of "case_option _ _"] option.case)
qed

lemma call_locked_eq:
  assumes key: "length (g_pending_request_id_key s) = 32" and valid: "sd_valid (get_desc i s)" and hdr: "wf_hdr hdr"
    and data: "length data = unat n" "0 < length data" "length data < 2 ^ 32"
  shows "sgxsd_enclave_server_call_locked e p_args (Some hdr) (Some data) n tag i s =
    (case open_id (g_pending_request_id_key s) (hdr_pending_request_id hdr) of
       None \<Rightarrow> ((SGX_ERROR_MAC_MISMATCH, Some data), s)
     | Some k \<Rightarrow> (case pending_get (order_of s) k (table_of s) of
         None \<Rightarrow> ((SGXSD_ERROR_PENDING_REQUEST_NOT_FOUND, Some data), s)
       | Some prk \<Rightarrow> (case open_msg prk hdr data of
           None \<Rightarrow> ((SGX_ERROR_MAC_MISMATCH, Some (replicate (length data) 0)), pending_removed k s)
         | Some m \<Rightarrow>
             let ((res, p_state), s2) = callback (env_server_handle_call e p_args m
                   \<lparr>from_valid = True, from_tag = tag, from_server_key = server_key_of prk\<rparr> (sd_state (get_desc i s)))
                   (pending_removed k s)
             in ((res, Some (replicate (length data) 0)), set_desc i ((get_desc i s2)\<lparr>sd_state := p_state\<rparr>) s2))))"
proof -
  have p: "wf_prid (hdr_pending_request_id hdr)" using hdr by (simp add: wf_hdr_def)
  have un: "(ucast n :: u32) = of_nat (length data)" unfolding data(1) by (simp add: of_nat_unat)
  have u: "unat (of_nat (length data) :: u32) = length data" using data(3) by (simp add: unat_word_of_nat)
  have z: "n \<noteq> 0" using data by auto
  have d: "get_desc i (pending_removed k s) = get_desc i s" for k by (simp add: get_desc_def pending_removed_def)
  show ?thesis
    unfolding sgxsd_enclave_server_call_locked_def remove_pending_eq [OF key p] Let_def option.sel un u SGXSD_AES_GCM_KEY_SIZE_def
    using valid z
    by (simp add: derive_keys_eq decrypt_msg [OF hdr data(3)] memcpy_at_whole open_msg_length d
        del: rfc5869_T.simps One_nat_def split: option.splits prod.splits)
qed

section \<open>What negotiation answers\<close>

definition wf_request_msg :: "sgxsd_request_negotiation_request \<Rightarrow> bool" where
  "wf_request_msg r \<longleftrightarrow> length (client_pubkey r) = 32"

definition wf_response :: "sgxsd_request_negotiation_response \<Rightarrow> bool" where
  "wf_response r \<longleftrightarrow> length (enc_prid_data r) = 36 \<and> length (enc_prid_mac r) = 16"

text \<open>The pseudo-random key of a session: HKDF-Extract of both Diffie-Hellman secrets, salted with the public keys.\<close>

definition session_prk :: "bytes \<Rightarrow> sgxsd_curve25519_key_pair \<Rightarrow> sgxsd_curve25519_key_pair \<Rightarrow> bytes" where
  "session_prk client eph static = rfc2104_hmac fips_sha256 (fips_sha256 (client @ pubkey eph @ pubkey static))
     (curve25519_donna (privkey eph) client @ curve25519_donna (privkey static) client)"

definition seal_response :: "bytes \<Rightarrow> bytes \<Rightarrow> bytes \<Rightarrow> sgxsd_pending_request_id \<Rightarrow> sgxsd_request_negotiation_response" where
  "seal_response prk static eph prid =
     (let c = gcm_crypt (aes_encrypt (server_key_of prk)) (replicate 12 0) (prid_bytes prid)
      in \<lparr>server_static_pubkey = static, server_ephemeral_pubkey = eph, enc_prid_data = c, enc_prid_iv = replicate 12 0,
          enc_prid_mac = gcm_tag (aes_encrypt (server_key_of prk)) (replicate 12 0) [] c\<rparr>)"

lemma length_session_prk [simp]: "length (session_prk client eph static) = 32"
  by (simp add: session_prk_def)

lemma wf_zero_prid: "wf_prid zero_prid"
  by (simp add: wf_prid_def zero_prid_def)

lemma encrypt_response:
  assumes "wf_prid prid" "wf_response resp"
  shows "sgxsd_aes_gcm_encrypt (Some (server_key_of prk)) (Some (prid_bytes prid)) 36 (Some (enc_prid_data resp))
      (Some (replicate 12 0)) None 0 (Some (enc_prid_mac resp))
    = (SGX_SUCCESS, Some (enc_prid_data (seal_response prk a b prid)), Some (enc_prid_mac (seal_response prk a b prid)))"
  using encrypt_whole [OF length_keys(2), of "prid_bytes prid" "enc_prid_data resp" "enc_prid_mac resp" prk "replicate 12 0"]
    assms length_prid_bytes [OF assms(1)]
  by (simp add: wf_response_def seal_response_def Let_def del: rfc5869_T.simps)

lemma negotiate_eq:
  assumes wf: "wf_state s" "g_node_initialized s" "wf_response resp"
    and g: "sgxsd_enclave_generate_curve25519_keypair e zero_key_pair s = ((g, eph), s1)"
    and prk: "prk = session_prk (client_pubkey req) eph (g_dh_keypair s)"
    and a: "sgxsd_enclave_add_pending_request e zero_prid (zero_pending_request\<lparr>hkdf_prk := prk\<rparr>) s1 = ((a, prid), s2)"
  shows "sgxsd_enclave_negotiate_request e (Some req) (Some resp) s =
    (if g \<noteq> SGX_SUCCESS then ((g, Some resp), s1)
     else if a \<noteq> SGX_SUCCESS then ((a, Some (resp\<lparr>enc_prid_iv := replicate 12 0\<rparr>)), s2)
     else ((SGX_SUCCESS, Some (seal_response prk (pubkey (g_dh_keypair s)) (pubkey eph) prid)), s2))"
proof -
  have f: "rand_frame s s1" using generate_keypair_frame [OF g wf_zero_key_pair] by blast
  then have k: "g_dh_keypair s1 = g_dh_keypair s" "wf_state s1" "g_node_initialized s1"
    using wf rand_frame_wf [OF f] by (simp_all add: rand_frame_def)
  have prk': "sgxsd_enclave_hmac_sha256 [sgxsd_enclave_sha256 [client_pubkey req, pubkey eph, pubkey (g_dh_keypair s)],
      curve25519_donna (privkey eph) (client_pubkey req), curve25519_donna (privkey (g_dh_keypair s)) (client_pubkey req)] = prk"
    by (simp add: hmac_sha256_correct sha256_correct prk session_prk_def)
  have prid: "wf_prid prid" if "a = SGX_SUCCESS"
    using add_pending_frame [OF k(2,3) wf_zero_prid a] that wf_seal_id by auto
  show ?thesis
    using wf(2) a encrypt_response [OF prid wf(3), of prk "pubkey (g_dh_keypair s)" "pubkey eph"]
    unfolding sgxsd_enclave_negotiate_request_def Let_def option.sel g prod.case k(1) prk'
    by (simp add: sgxsd_sizes derive_keys_eq prk' k(1) del: rfc5869_T.simps) (simp add: seal_response_def Let_def)
qed

text \<open>The effect on the state: nothing but randomness, or one more pending request.\<close>

lemma negotiate_frame:
  assumes wf: "wf_state s" "\<forall>r. p_resp = Some r \<longrightarrow> wf_response r"
    and run: "sgxsd_enclave_negotiate_request e p_req p_resp s = (out, s')"
  shows "rand_frame s s' \<or> g_node_initialized s \<and> (\<exists>prk s1. length prk = 32 \<and> rand_frame s s1 \<and> rand_frame (pending_added prk s1) s')"
proof (cases "g_node_initialized s \<and> p_req \<noteq> None \<and> p_resp \<noteq> None")
  case False
  then have "s' = s" using run unfolding sgxsd_enclave_negotiate_request_def by (auto split: if_splits)
  then show ?thesis by simp
next
  case True
  then obtain req resp where p: "p_req = Some req" "p_resp = Some resp" "wf_response resp" using wf(2) by auto
  obtain g eph s1 where g: "sgxsd_enclave_generate_curve25519_keypair e zero_key_pair s = ((g, eph), s1)" by (metis prod.collapse)
  define prk where "prk = session_prk (client_pubkey req) eph (g_dh_keypair s)"
  obtain a prid s2 where a: "sgxsd_enclave_add_pending_request e zero_prid (zero_pending_request\<lparr>hkdf_prk := prk\<rparr>) s1
      = ((a, prid), s2)" by (metis prod.collapse)
  have f: "rand_frame s s1" using generate_keypair_frame [OF g wf_zero_key_pair] by blast
  then have "wf_state s1" "g_node_initialized s1" using wf True rand_frame_wf [OF f] by (simp_all add: rand_frame_def)
  from add_pending_frame [OF this wf_zero_prid a] have "rand_frame (pending_added prk s1) s2" by simp
  moreover have "length prk = 32" by (simp add: prk_def)
  moreover have "s' = s1 \<or> s' = s2"
    using run unfolding p negotiate_eq [OF wf(1) conjunct1 [OF True] p(3) g prk_def a] by (auto split: if_splits)
  ultimately show ?thesis using f True by blast
qed

section \<open>What the other entry points change\<close>

text \<open>All but the descriptor \<open>i\<close>.\<close>

definition desc_frame :: "nat \<Rightarrow> 'w sgxsd_state \<Rightarrow> 'w sgxsd_state \<Rightarrow> bool" where
  "desc_frame i s s' \<longleftrightarrow> length (g_server_states s') = length (g_server_states s) \<and> (\<forall>j. j \<noteq> i \<longrightarrow> get_desc j s' = get_desc j s)"

lemma desc_frame_refl [simp]: "desc_frame i s s"
  by (simp add: desc_frame_def)

lemma desc_frame_set [simp]: "desc_frame i s (set_desc i d s') = desc_frame i s s'"
  by (auto simp: desc_frame_def get_desc_def set_desc_def)

lemma desc_frame_set_left [simp]: "desc_frame i (set_desc i d s) s' = desc_frame i s s'"
  by (auto simp: desc_frame_def get_desc_def set_desc_def)

lemma desc_frame_same: "g_server_states s' = g_server_states s \<Longrightarrow> desc_frame i s s'"
  by (simp add: desc_frame_def get_desc_def)

lemma desc_frame_trans: "desc_frame i s s' \<Longrightarrow> desc_frame i s' s'' \<Longrightarrow> desc_frame i s s''"
  by (simp add: desc_frame_def)

lemma locked_unlock:
  assumes "locks_free s" "desc_frame i (sgxsd_spin_lock i s) s'"
  shows "locks_free (sgxsd_spin_unlock i s')"
  using assms by (intro locks_free_unlock) (auto simp: locks_free_def sgxsd_spin_lock_def desc_frame_def)

lemma start_locked_frame:
  assumes "wf_state s" "sgxsd_enclave_server_start_locked e p_args i s = (res, s')"
  shows "req_frame s s' \<and> desc_frame i s s'"
proof -
  obtain r p s1 where c: "callback (env_server_init e p_args (sd_state (get_desc i s))) s = ((r, p), s1)" by (metis prod.collapse)
  note req_frame_rand [OF callback_frame [OF c] assms(1)] desc_frame_same [OF callback_desc [OF c], of i]
  then show ?thesis using assms unfolding sgxsd_enclave_server_start_locked_def c Let_def by (auto split: if_splits)
qed

lemma stop_locked_frame:
  assumes "wf_state s" "sgxsd_enclave_server_stop_locked e p_args i s = (res, s')"
  shows "req_frame s s' \<and> desc_frame i s s'"
proof -
  let ?s = "set_desc i zero_server_desc s"
  obtain r s1 where c: "callback (env_server_terminate e p_args (sd_state (get_desc i s))) ?s = (r, s1)" by (metis prod.collapse)
  have q: "req_frame s ?s" using assms(1) by simp
  then have "wf_state ?s" by (simp add: req_frame_def)
  from req_frame_trans [OF q req_frame_rand [OF callback_frame [OF c] this]] desc_frame_same [OF callback_desc [OF c], of i]
  show ?thesis using assms unfolding sgxsd_enclave_server_stop_locked_def Let_def c by (auto split: if_splits)
qed

lemma ratelimit_locked_frame:
  assumes "sgxsd_enclave_ratelimit_fingerprint_locked e key a hdr d n t i fp m s = (res, s')"
  shows "rand_frame s s'"
  using assms unfolding sgxsd_enclave_ratelimit_fingerprint_locked_def Let_def
  by (auto split: if_splits prod.splits dest!: callback_frame)

lemma call_locked_cases:
  assumes wf: "wf_state s" "g_node_initialized s" and hdr: "\<forall>h. p_hdr = Some h \<longrightarrow> wf_hdr h"
    and run: "sgxsd_enclave_server_call_locked e a p_hdr d n t i s = (out, s')"
  obtains (same) "s' = s"
  | (taken) k where "pending_get (order_of s) k (table_of s) \<noteq> None" "req_frame (pending_removed k s) s'" "desc_frame i s s'"
proof (cases p_hdr)
  case None
  then show thesis using run same by (auto simp: sgxsd_enclave_server_call_locked_def split: if_splits)
next
  case (Some h)
  then have p: "wf_prid (hdr_pending_request_id h)" using hdr by (simp add: wf_hdr_def)
  have key: "length (g_pending_request_id_key s) = 32" using wf_state_table(3) [OF wf] .
  have r: "req_frame (pending_removed k s) (pending_removed k s)" for k using pending_removed_wf [OF wf] by simp
  have c: "req_frame (pending_removed k s) s1 \<and> desc_frame i s s1" if "callback f (pending_removed k s) = (x, s1)" for f x s1 k
    using req_frame_rand [OF callback_frame [OF that]] pending_removed_wf [OF wf] desc_frame_same [of s1 s]
      callback_desc [OF that] by (simp add: pending_removed_def)
  have d: "desc_frame i s (pending_removed k s)" for k by (rule desc_frame_same) (simp add: pending_removed_def)
  have "s' = s \<or> (\<exists>k. pending_get (order_of s) k (table_of s) \<noteq> None \<and> req_frame (pending_removed k s) s' \<and> desc_frame i s s')"
    using run r d
    unfolding sgxsd_enclave_server_call_locked_def Some option.sel remove_pending_eq [OF key p] Let_def
    by (auto split: if_splits option.splits prod.splits simp del: req_frame_refl dest!: c intro: exI)
  then show thesis using same taken by blast
qed

end
