(* ===== verification/Sgxsd_Ecalls.thy ===== *)
theory Sgxsd_Ecalls imports Sgxsd_Server begin

text \<open>
  The enclave as a state machine: the entry points of \<open>c_src/sgxsd-enclave.c\<close> in any order, between them an
  untrusted host that changes the world as it likes. Invariants by rule induction, what an
  identifier is good for over a whole run, and the delivery of messages and replies.
\<close>

section \<open>Steps\<close>

datatype ecall =
    Node_init "sgxsd_node_init_args option"
  | Get_next_report bytes "bytes option"
  | Set_current_quote
  | Negotiate_request "sgxsd_request_negotiation_request option" "sgxsd_request_negotiation_response option"
  | Server_start "sgxsd_server_init_args option" u64
  | Server_call "sgxsd_server_handle_call_args option" "sgxsd_msg_header option" "bytes option" u64 u64 u64
  | Server_stop "sgxsd_server_terminate_args option" u64
  | Ratelimit_fingerprint bytes "sgxsd_server_handle_call_args option" "sgxsd_msg_header option" "bytes option" u64 u64 u64
      "bytes option" u64

fun run_ecall :: "'w env \<Rightarrow> ecall \<Rightarrow> 'w sgxsd_state \<Rightarrow> sgx_status \<times> 'w sgxsd_state" where
  "run_ecall e (Node_init a) s = sgxsd_enclave_node_init e a s"
| "run_ecall e (Get_next_report qe r) s = (let ((res, _), s) = sgxsd_enclave_get_next_report e qe r s in (res, s))"
| "run_ecall e Set_current_quote s = sgxsd_enclave_set_current_quote s"
| "run_ecall e (Negotiate_request req resp) s =
     (let ((res, _), s) = sgxsd_enclave_negotiate_request e req resp s in (res, s))"
| "run_ecall e (Server_start a h) s = sgxsd_enclave_server_start e a h s"
| "run_ecall e (Server_call a hdr d n t h) s = (let ((res, _), s) = sgxsd_enclave_server_call e a hdr d n t h s in (res, s))"
| "run_ecall e (Server_stop a h) s = sgxsd_enclave_server_stop e a h s"
| "run_ecall e (Ratelimit_fingerprint key a hdr d n t h fp m) s =
     (let ((res, _), s) = sgxsd_enclave_ratelimit_fingerprint e key a hdr d n t h fp m s in (res, s))"

text \<open>Structures have the sizes their C types give them.\<close>

fun wf_ecall :: "ecall \<Rightarrow> bool" where
  "wf_ecall (Negotiate_request req resp) \<longleftrightarrow> pred_option wf_request_msg req \<and> pred_option wf_response resp"
| "wf_ecall (Server_call a hdr d n t h) \<longleftrightarrow> pred_option wf_hdr hdr"
| "wf_ecall (Ratelimit_fingerprint key a hdr d n t h fp m) \<longleftrightarrow> pred_option wf_hdr hdr"
| "wf_ecall _ \<longleftrightarrow> True"

text \<open>
  Runs. The last rule is the host; the second one asks that the 64-bit counter of requests has not
  been used up.
\<close>

inductive steps :: "'w env \<Rightarrow> 'w sgxsd_state \<Rightarrow> 'w sgxsd_state \<Rightarrow> bool" for e where
  start: "steps e s s"
| call: "steps e s s' \<Longrightarrow> wf_ecall c \<Longrightarrow> g_last_pending_request_id_val s' \<noteq> - 1 \<Longrightarrow> run_ecall e c s' = (res, s'') \<Longrightarrow> steps e s s''"
| host: "steps e s s' \<Longrightarrow> steps e s (s'\<lparr>world := w\<rparr>)"

definition reachable :: "'w env \<Rightarrow> 'w sgxsd_state \<Rightarrow> bool" where
  "reachable e s \<longleftrightarrow> (\<exists>w. steps e (initial_state w) s)"

inductive_cases steps_callE: "steps e s s'"

section \<open>Invariants\<close>

definition enclave_inv :: "'w sgxsd_state \<Rightarrow> bool" where
  "enclave_inv s \<longleftrightarrow> wf_state s \<and> locks_free s \<and> (\<forall>k. live_requests s k \<noteq> None \<longrightarrow> k \<le> g_last_pending_request_id_val s)"

text \<open>
  What never goes back: initialisation, the key of the identifiers, the table order, the counter,
  and a request that is no longer live.
\<close>

definition later :: "'w sgxsd_state \<Rightarrow> 'w sgxsd_state \<Rightarrow> bool" where
  "later s s' \<longleftrightarrow> (g_node_initialized s \<longrightarrow> g_node_initialized s' \<and> g_pending_request_id_key s' = g_pending_request_id_key s
       \<and> order_of s' = order_of s)
     \<and> g_last_pending_request_id_val s \<le> g_last_pending_request_id_val s'
     \<and> (\<forall>k \<le> g_last_pending_request_id_val s. live_requests s k = None \<longrightarrow> live_requests s' k = None)"

definition advance :: "'w sgxsd_state \<Rightarrow> 'w sgxsd_state \<Rightarrow> bool" where
  "advance s s' \<longleftrightarrow> enclave_inv s' \<and> later s s'"

lemma later_refl [simp]: "later s s"
  by (simp add: later_def)

lemma later_trans: "later s s' \<Longrightarrow> later s' s'' \<Longrightarrow> later s s''"
  by (auto simp: later_def)

lemma advance_trans: "advance s s' \<Longrightarrow> advance s' s'' \<Longrightarrow> advance s s''"
  unfolding advance_def using later_trans by blast

lemma advance_frame:
  assumes "req_frame s s'" "locks_free s'" "enclave_inv s"
  shows "advance s s'"
  using assms req_frame_live [OF assms(1)] by (auto simp: advance_def enclave_inv_def later_def req_frame_def)

lemma rand_frame_locks: "rand_frame s s' \<Longrightarrow> locks_free s' = locks_free s"
  by (simp add: rand_frame_def locks_free_def get_desc_def)

lemma advance_rand:
  assumes "rand_frame s s'" "enclave_inv s"
  shows "advance s s'"
  using assms req_frame_rand [OF assms(1)] rand_frame_locks [OF assms(1)]
  by (intro advance_frame) (simp_all add: enclave_inv_def)

lemma inv_no_table: "wf_state s \<Longrightarrow> \<not> g_node_initialized s \<Longrightarrow> live_requests s = (\<lambda>_. None)"
  using wf_state_no_table [of s] by (simp add: live_requests_def fun_eq_iff)

lemma empty_table_live:
  "live_requests (s\<lparr>g_pending_requests_table_order := n, g_pending_requests := Some (replicate (2 ^ unat n) zero_pending_request),
     g_node_initialized := True\<rparr>) = (\<lambda>_. None)" if "unat n < 64"
  using that by (auto simp: live_requests_def pending_get_def pending_entry_mod zero_pending_request_def fun_eq_iff)

lemma node_init_advance:
  assumes inv: "enclave_inv s" and run: "sgxsd_enclave_node_init e a s = (res, s')"
  shows "advance s s'"
proof -
  have wf: "wf_state s" "locks_free s" using inv by (simp_all add: enclave_inv_def)
  have l: "locks_free s'" if "g_server_states s' = g_server_states s" using that wf(2) by (simp add: locks_free_def get_desc_def)
  show ?thesis
  proof (cases rule: node_init_cases [OF wf(1) run])
    case 1
    then show ?thesis using inv by (simp add: advance_def)
  next
    case 2
    then show ?thesis using inv_no_table [of s'] inv_no_table [of s] wf l
      by (simp add: advance_def enclave_inv_def later_def node_frame_def)
  next
    case (3 args s0)
    then have "live_requests s' = (\<lambda>_. None)" using empty_table_live [of "pending_requests_table_order args" s0]
      by (simp add: word_le_nat_alt)
    then show ?thesis using 3 node_init_wf [OF wf(1) run] inv_no_table [OF wf(1)] l
      by (simp add: advance_def enclave_inv_def later_def node_frame_def)
  qed
qed

lemma keypair_advance:
  assumes "enclave_inv s" "wf_key_pair kp"
  shows "advance s (s\<lparr>g_dh_keypair := kp\<rparr>)" "advance s (s\<lparr>g_new_dh_keypair := kp\<rparr>)"
  using assms by (intro advance_frame, simp_all add: enclave_inv_def req_frame_def locks_free_def get_desc_def)+

lemma pending_added_advance:
  assumes inv: "enclave_inv s" and "g_node_initialized s" "g_last_pending_request_id_val s \<noteq> - 1" "length prk = 32"
  shows "advance s (pending_added prk s)"
proof -
  let ?l = "g_last_pending_request_id_val s"
  have wf: "wf_state s" using inv by (simp add: enclave_inv_def)
  have k: "?l + 1 \<noteq> 0" using assms(3) by (simp add: eq_neg_iff_add_eq_0)
  then have k2: "?l < ?l + 1" by (simp add: word_less_nat_alt unatSuc add.commute [of ?l])
  note live = live_added [OF wf assms(2) refl k, of prk]
  have [simp]: "g_last_pending_request_id_val (pending_added prk s) = ?l + 1" "g_node_initialized (pending_added prk s)"
    "g_pending_request_id_key (pending_added prk s) = g_pending_request_id_key s" "order_of (pending_added prk s) = order_of s"
    "locks_free (pending_added prk s) = locks_free s"
    using assms(2) by (simp_all add: pending_added_def Let_def locks_free_def get_desc_def)
  show ?thesis
    using inv k k2 pending_added_wf [OF wf assms(2,4)]
    unfolding advance_def enclave_inv_def later_def live by (auto split: if_splits)
qed

lemma pending_removed_advance:
  assumes "enclave_inv s" "g_node_initialized s" "pending_get (order_of s) k (table_of s) \<noteq> None"
  shows "advance s (pending_removed k s)"
proof -
  have wf: "wf_state s" using assms(1) by (simp add: enclave_inv_def)
  have [simp]: "g_last_pending_request_id_val (pending_removed k s) = g_last_pending_request_id_val s"
    "g_node_initialized (pending_removed k s)" "g_pending_request_id_key (pending_removed k s) = g_pending_request_id_key s"
    "order_of (pending_removed k s) = order_of s" "locks_free (pending_removed k s) = locks_free s"
    using assms(2) by (simp_all add: pending_removed_def locks_free_def get_desc_def)
  show ?thesis
    using assms(1) pending_removed_wf [OF wf assms(2)] live_removed [OF wf assms(2,3)]
    by (auto simp: advance_def enclave_inv_def later_def split: if_splits)
qed

text \<open>An entry point that takes the lock of a descriptor, runs a locked body and releases the lock.\<close>

lemma lock_facts:
  assumes "enclave_inv s"
  shows "wf_state (sgxsd_spin_lock i s)" "req_frame s (sgxsd_spin_lock i s)"
    "order_of (sgxsd_spin_lock i s) = order_of s" "table_of (sgxsd_spin_lock i s) = table_of s"
    "g_node_initialized (sgxsd_spin_lock i s) = g_node_initialized s"
    "g_pending_request_id_key (sgxsd_spin_lock i s) = g_pending_request_id_key s"
proof -
  have "req_frame s (sgxsd_spin_lock i s)" using assms by (simp add: enclave_inv_def)
  then show "wf_state (sgxsd_spin_lock i s)" "req_frame s (sgxsd_spin_lock i s)"
    "order_of (sgxsd_spin_lock i s) = order_of s" "table_of (sgxsd_spin_lock i s) = table_of s"
    "g_node_initialized (sgxsd_spin_lock i s) = g_node_initialized s"
    "g_pending_request_id_key (sgxsd_spin_lock i s) = g_pending_request_id_key s"
    by (simp_all add: req_frame_def)
qed

lemma locked_advance:
  assumes "enclave_inv s" "req_frame (sgxsd_spin_lock i s) s'" "desc_frame i (sgxsd_spin_lock i s) s'"
  shows "advance s (sgxsd_spin_unlock i s')"
  using assms lock_facts [OF assms(1), of i] locked_unlock [OF _ assms(3)] req_frame_trans [of s "sgxsd_spin_lock i s" s']
  by (intro advance_frame) (simp_all add: enclave_inv_def)

lemma pending_removed_lock:
  "pending_removed k (sgxsd_spin_lock i s) = sgxsd_spin_lock i (pending_removed k s)"
  by (simp add: pending_removed_def sgxsd_spin_lock_def set_desc_def get_desc_def)

lemma server_call_advance:
  assumes inv: "enclave_inv s" and hdr: "pred_option wf_hdr p_hdr" and i: "g_node_initialized s" "unat h < SGXSD_ENCLAVE_MAX_SERVERS"
    and run: "sgxsd_enclave_server_call_locked e a p_hdr d n t (unat h) (sgxsd_spin_lock (unat h) s) = (out, s')"
  shows "advance s (sgxsd_spin_unlock (unat h) s')"
proof -
  let ?i = "unat h"
  note l = lock_facts [OF inv, of ?i]
  have hdr': "\<forall>x. p_hdr = Some x \<longrightarrow> wf_hdr x" using hdr by auto
  have ini: "g_node_initialized (sgxsd_spin_lock ?i s)" using i(1) l(5) by simp
  show ?thesis
  proof (cases rule: call_locked_cases [OF l(1) ini hdr' run])
    case 1
    then show ?thesis using locked_advance [OF inv, of ?i s'] l(1) by simp
  next
    case (2 k)
    have a: "advance s (pending_removed k s)" using pending_removed_advance [OF inv i(1)] 2(1) by (simp add: l)
    then have inv': "enclave_inv (pending_removed k s)" by (simp add: advance_def)
    have "desc_frame ?i (sgxsd_spin_lock ?i (pending_removed k s)) s'"
      using 2(3) by (simp add: desc_frame_def pending_removed_def get_desc_def sgxsd_spin_lock_def set_desc_def)
    from locked_advance [OF inv' 2(2) [unfolded pending_removed_lock] this] a show ?thesis using advance_trans by blast
  qed
qed

lemma negotiate_advance:
  assumes inv: "enclave_inv s" and resp: "pred_option wf_response p_resp" and k: "g_last_pending_request_id_val s \<noteq> - 1"
    and run: "sgxsd_enclave_negotiate_request e p_req p_resp s = (out, s')"
  shows "advance s s'"
proof -
  have "wf_state s" using inv by (simp add: enclave_inv_def)
  moreover have "\<forall>r. p_resp = Some r \<longrightarrow> wf_response r" using resp by auto
  ultimately consider "rand_frame s s'" | prk s1 where "g_node_initialized s" "length prk = 32" "rand_frame s s1" "rand_frame (pending_added prk s1) s'"
    using negotiate_frame run by blast
  then show ?thesis
  proof cases
    case 1
    then show ?thesis using advance_rand inv by blast
  next
    case (2 prk s1)
    have a1: "advance s s1" using advance_rand [OF 2(3) inv] .
    moreover have "g_node_initialized s1" "g_last_pending_request_id_val s1 \<noteq> - 1" using 2(1,3) k by (simp_all add: rand_frame_def)
    ultimately have "advance s1 (pending_added prk s1)" using pending_added_advance 2(2) unfolding advance_def by blast
    then show ?thesis using a1 advance_rand [OF 2(4)] advance_trans by (meson advance_def)
  qed
qed

lemma run_ecall_advance:
  assumes inv: "enclave_inv s" and c: "wf_ecall c" and k: "g_last_pending_request_id_val s \<noteq> - 1" and run: "run_ecall e c s = (res, s')"
  shows "advance s s'"
proof -
  have wf: "wf_state s" using inv by (simp add: enclave_inv_def)
  have same: "advance s s" using inv by (simp add: advance_def)
  note lf = lock_facts(1) [OF inv]
  show ?thesis
  proof (cases c)
    case (Node_init a)
    then show ?thesis using node_init_advance [OF inv] run by simp
  next
    case (Get_next_report qe r)
    then obtain r' where g: "sgxsd_enclave_get_next_report e qe r s = ((res, r'), s')" using run by (auto split: prod.splits)
    show ?thesis
      by (cases rule: get_next_report_cases [OF wf g])
        (use inv advance_rand keypair_advance(2) advance_trans advance_def in metis)+
  next
    case Set_current_quote
    then show ?thesis using run same keypair_advance(1) [OF inv] wf_key_pairs [OF wf]
      by (auto simp: sgxsd_enclave_set_current_quote_def split: if_splits)
  next
    case (Negotiate_request req resp)
    then show ?thesis using run c negotiate_advance [OF inv _ k] by (auto split: prod.splits)
  next
    case (Server_start a h)
    then show ?thesis using run same start_locked_frame [OF lf] locked_advance [OF inv]
      by (auto simp: sgxsd_enclave_server_start_def Let_def split: if_splits prod.splits)
  next
    case (Server_call a hdr d n t h)
    then show ?thesis using run c same server_call_advance [OF inv, of hdr h e a d n t]
      by (auto simp: sgxsd_enclave_server_call_def Let_def split: if_splits prod.splits)
  next
    case (Server_stop a h)
    then show ?thesis using run same stop_locked_frame [OF lf] locked_advance [OF inv]
      by (auto simp: sgxsd_enclave_server_stop_def Let_def split: if_splits prod.splits)
  next
    case (Ratelimit_fingerprint key a hdr d n t h fp m)
    have "advance s (sgxsd_spin_unlock i s')" if "rand_frame (sgxsd_spin_lock i s) s'" for s' i
      using locked_advance [OF inv req_frame_rand [OF that lf] desc_frame_same] that by (simp add: rand_frame_def)
    then show ?thesis using Ratelimit_fingerprint run same
      by (auto simp: sgxsd_enclave_ratelimit_fingerprint_def Let_def split: if_splits prod.splits dest!: ratelimit_locked_frame)
  qed
qed

lemma steps_advance:
  assumes "steps e s s'" "enclave_inv s"
  shows "advance s s'"
  using assms
proof (induction rule: steps.induct)
  case (start s)
  then show ?case by (simp add: advance_def)
next
  case (call s s' c res s'')
  then show ?case using run_ecall_advance advance_trans by (meson advance_def)
next
  case (host s s' w)
  then have "advance s s'" by simp
  moreover have "advance s' (s'\<lparr>world := w\<rparr>)" using calculation advance_rand [of s' "s'\<lparr>world := w\<rparr>"] by (simp add: advance_def)
  ultimately show ?case using advance_trans by blast
qed

lemma initial_inv: "enclave_inv (initial_state w)"
  using wf_initial [of w]
  by (simp add: enclave_inv_def inv_no_table locks_free_def get_desc_def initial_state_def zero_server_desc_def)

lemma reachable_inv: "reachable e s \<Longrightarrow> enclave_inv s"
  unfolding reachable_def using advance_def steps_advance [OF _ initial_inv] by metis

section \<open>Whole calls\<close>

text \<open>A call to a started server, in terms of the identifier, the live requests and the message.\<close>

lemma lock_commutes:
  "sgxsd_spin_unlock i (sgxsd_spin_lock i s) = s" if "enclave_inv s" "i < SGXSD_ENCLAVE_MAX_SERVERS"
  using that by (simp add: enclave_inv_def wf_states_length)

lemma server_call_eq:
  assumes inv: "enclave_inv s" and i: "g_node_initialized s" "unat h < SGXSD_ENCLAVE_MAX_SERVERS" "sd_valid (get_desc (unat h) s)"
    and hdr: "wf_hdr hdr" and data: "length data = unat n" "0 < length data" "length data < 2 ^ 32"
    and k: "open_id (g_pending_request_id_key s) (hdr_pending_request_id hdr) = Some k" "k \<noteq> 0"
  shows "sgxsd_enclave_server_call e a (Some hdr) (Some data) n t h s =
    (case live_requests s k of
       None \<Rightarrow> ((SGXSD_ERROR_PENDING_REQUEST_NOT_FOUND, Some data), s)
     | Some prk \<Rightarrow> (case open_msg prk hdr data of
         None \<Rightarrow> ((SGX_ERROR_MAC_MISMATCH, Some (replicate (length data) 0)), pending_removed k s)
       | Some m \<Rightarrow>
           let ((res, p_state), s2) = callback (env_server_handle_call e a m
                 \<lparr>from_valid = True, from_tag = t, from_server_key = server_key_of prk\<rparr> (sd_state (get_desc (unat h) s)))
                 (sgxsd_spin_lock (unat h) (pending_removed k s))
           in ((res, Some (replicate (length data) 0)),
               sgxsd_spin_unlock (unat h) (set_desc (unat h) ((get_desc (unat h) s2)\<lparr>sd_state := p_state\<rparr>) s2))))"
proof -
  let ?i = "unat h"
  note l = lock_facts [OF inv, of ?i]
  have wf: "wf_state s" using inv by (simp add: enclave_inv_def)
  have len: "?i < length (g_server_states s)" using wf_states_length [OF wf] i(2) by simp
  have d: "get_desc ?i (sgxsd_spin_lock ?i s) = (get_desc ?i s)\<lparr>sd_lock := 1\<rparr>" using len by (simp add: sgxsd_spin_lock_def)
  have key: "length (g_pending_request_id_key (sgxsd_spin_lock ?i s)) = 32" using wf_state_table(3) [OF wf i(1)] by (simp add: l)
  have live: "pending_get (order_of s) k (table_of s) = live_requests s k"
    using k(2) option.distinct(1) [of "table_of s"] unfolding wf_state_table(2) [OF wf i(1), symmetric] by (simp add: live_requests_def)
  have rm: "sgxsd_spin_unlock ?i (sgxsd_spin_lock ?i (pending_removed k s)) = pending_removed k s" if "live_requests s k \<noteq> None"
    using pending_removed_advance [OF inv i(1), of k] that lock_commutes [OF _ i(2)] unfolding live advance_def by blast
  have v: "sd_valid (get_desc ?i (sgxsd_spin_lock ?i s))" using i(3) d by simp
  show ?thesis
    unfolding sgxsd_enclave_server_call_def Let_def call_locked_eq [OF key v hdr data]
    using i(1,2) rm lock_commutes [OF inv i(2)]
    by (simp add: l k d live pending_removed_lock split: option.splits prod.splits)
qed

lemma live_desc [simp]:
  "live_requests (set_desc i d s) = live_requests s" "live_requests (sgxsd_spin_lock i s) = live_requests s"
  "live_requests (sgxsd_spin_unlock i s) = live_requests s"
  by (simp_all add: live_requests_def set_desc_def sgxsd_spin_lock_def sgxsd_spin_unlock_def fun_eq_iff)

lemma call_uses_up:
  assumes inv: "enclave_inv s" and i: "g_node_initialized s" "unat h < SGXSD_ENCLAVE_MAX_SERVERS" "sd_valid (get_desc (unat h) s)"
    and hdr: "wf_hdr hdr" and data: "length data = unat n" "0 < length data" "length data < 2 ^ 32"
    and k: "open_id (g_pending_request_id_key s) (hdr_pending_request_id hdr) = Some k" "live_requests s k \<noteq> None"
    and run: "sgxsd_enclave_server_call e a (Some hdr) (Some data) n t h s = (out, s1)"
  shows "live_requests s1 = (live_requests s)(k := None)"
proof -
  have wf: "wf_state s" using inv by (simp add: enclave_inv_def)
  have k0: "k \<noteq> 0" "pending_get (order_of s) k (table_of s) \<noteq> None" using k(2) by (auto simp: live_requests_def split: if_splits)
  have cb: "live_requests s2 = live_requests (pending_removed k s)"
    if "callback f (sgxsd_spin_lock j (pending_removed k s)) = (x, s2)" for f x j s2
    using live_frame [OF callback_frame [OF that]] by simp
  show ?thesis
    using run k(2) unfolding server_call_eq [OF inv i hdr data k(1) k0(1)] Let_def live_removed [OF wf i(1) k0(2), symmetric]
    by (auto split: option.splits prod.splits dest: cb)
qed

lemma call_keeps_valid:
  assumes inv: "enclave_inv s" and i: "g_node_initialized s" "unat h < SGXSD_ENCLAVE_MAX_SERVERS" "sd_valid (get_desc (unat h) s)"
    and hdr: "wf_hdr hdr" and data: "length data = unat n" "0 < length data" "length data < 2 ^ 32"
    and k: "open_id (g_pending_request_id_key s) (hdr_pending_request_id hdr) = Some k" "k \<noteq> 0"
    and run: "sgxsd_enclave_server_call e a (Some hdr) (Some data) n t h s = (out, s1)"
  shows "sd_valid (get_desc (unat h) s1)"
proof -
  have len: "unat h < length (g_server_states s)" using inv i(2) by (simp add: enclave_inv_def wf_states_length)
  have rm: "get_desc j (pending_removed k s) = get_desc j s" "g_server_states (pending_removed k s) = g_server_states s" for j
    by (simp_all add: pending_removed_def get_desc_def)
  have cb: "sd_valid (get_desc (unat h) (sgxsd_spin_unlock (unat h) (set_desc (unat h) ((get_desc (unat h) s2)\<lparr>sd_state := p\<rparr>) s2)))"
    if "callback f (sgxsd_spin_lock (unat h) (pending_removed k s)) = (x, s2)" for f x p s2
    using callback_desc [OF that] i(3) len
    by (simp add: sgxsd_spin_unlock_def sgxsd_spin_lock_def get_desc_def set_desc_def pending_removed_def)
  show ?thesis
    using run i(3) unfolding server_call_eq [OF inv i hdr data k] Let_def
    by (auto simp: rm split: option.splits prod.splits dest: cb)
qed

lemma server_call_whole_advance:
  assumes "enclave_inv s" "pred_option wf_hdr hdr" "sgxsd_enclave_server_call e a hdr d n t h s = (out, s1)"
  shows "advance s s1"
proof -
  have "advance s s" using assms(1) by (simp add: advance_def)
  then show ?thesis using assms(2,3) server_call_advance [OF assms(1), of hdr h e a d n t]
    by (auto simp: sgxsd_enclave_server_call_def Let_def split: if_splits prod.splits)
qed

lemma negotiate_success:
  assumes "enclave_inv s" "g_node_initialized s" "g_last_pending_request_id_val s \<noteq> - 1" "wf_response resp"
    and "sgxsd_enclave_negotiate_request e (Some req) (Some resp) s = ((SGX_SUCCESS, resp'), s')"
    and "k = g_last_pending_request_id_val s + 1"
  obtains eph prk prid where "pubkey eph = curve25519_donna (privkey eph) BASEPOINT"
    "prk = session_prk (client_pubkey req) eph (g_dh_keypair s)"
    "resp' = Some (seal_response prk (pubkey (g_dh_keypair s)) (pubkey eph) prid)"
    "wf_prid prid" "open_id (g_pending_request_id_key s') prid = Some k"
    "g_last_pending_request_id_val s' = k" "live_requests s' k = Some prk" "g_server_states s' = g_server_states s" "wf_key_pair eph"
proof -
  have wf: "wf_state s" using assms(1) by (simp add: enclave_inv_def)
  obtain g eph s1 where g: "sgxsd_enclave_generate_curve25519_keypair e zero_key_pair s = ((g, eph), s1)" by (metis prod.collapse)
  define prk where "prk = session_prk (client_pubkey req) eph (g_dh_keypair s)"
  let ?r = "zero_pending_request\<lparr>hkdf_prk := prk\<rparr>"
  obtain a prid s2 where a: "sgxsd_enclave_add_pending_request e zero_prid ?r s1 = ((a, prid), s2)" by (metis prod.collapse)
  have ok: "g = SGX_SUCCESS" "a = SGX_SUCCESS" "s' = s2" "resp' = Some (seal_response prk (pubkey (g_dh_keypair s)) (pubkey eph) prid)"
    using assms(5) unfolding negotiate_eq [OF wf assms(2,4) g prk_def a] by (auto split: if_splits)
  have f: "rand_frame s s1" and we: "wf_key_pair eph" using generate_keypair_frame [OF g wf_zero_key_pair] by blast+
  then have 1: "wf_state s1" "g_node_initialized s1" "k = g_last_pending_request_id_val s1 + 1" "k \<noteq> 0"
    "g_pending_request_id_key s1 = g_pending_request_id_key s" "g_server_states s1 = g_server_states s"
    using rand_frame_wf [OF f wf] assms(2,3,6) by (simp_all add: rand_frame_def eq_neg_iff_add_eq_0)
  from add_pending_frame [OF 1(1,2) wf_zero_prid a]
  obtain iv where f2: "rand_frame (pending_added prk s1) s2" and iv: "length iv = 12" "prid = seal_id (g_pending_request_id_key s) k iv"
    using ok(2) 1(3,5) by auto
  have "live_requests s2 k = Some prk" using live_frame [OF f2] live_added [OF 1(1-4), of prk] by simp
  moreover have "g_last_pending_request_id_val s2 = k" "g_pending_request_id_key s2 = g_pending_request_id_key s"
    "g_server_states s2 = g_server_states s"
    using f2 1 by (simp_all add: rand_frame_def pending_added_def Let_def)
  moreover have "pubkey eph = curve25519_donna (privkey eph) BASEPOINT" using generate_keypair_success g ok(1) by blast
  moreover have "wf_prid prid" "open_id (g_pending_request_id_key s) prid = Some k"
    using iv by (simp_all add: wf_seal_id open_seal_id)
  ultimately show thesis using that [OF _ prk_def ok(4)] we unfolding ok(3) by simp
qed

section \<open>Properties\<close>

text \<open>C13. In every state the enclave can reach, whatever calls the host makes and whatever the outside
  answers, as long as the request counter has not run through all 64-bit values: buffers, tables
  and key pairs have their sizes, the table is there exactly when the node is initialised, no
  descriptor lock is left held, and only identifiers that have been handed out are live. Once
  initialised, the node stays initialised with the same identifier key and table order, and the
  counter never goes back.\<close>

theorem enclave_reachable_invariant:
  assumes "reachable e s" "steps e s s'"
  shows "wf_state s' \<and> locks_free s' \<and> (\<forall>k. live_requests s' k \<noteq> None \<longrightarrow> k \<le> g_last_pending_request_id_val s')
    \<and> (g_node_initialized s \<longrightarrow> g_node_initialized s' \<and> g_pending_request_id_key s' = g_pending_request_id_key s
         \<and> order_of s' = order_of s)
    \<and> g_last_pending_request_id_val s \<le> g_last_pending_request_id_val s'"
  using steps_advance [OF assms(2) reachable_inv [OF assms(1)]] by (simp add: advance_def enclave_inv_def later_def)

text \<open>A run for the examples: the node is initialised with a table of two entries, and server \<open>0\<close> is started.\<close>

definition demo_run :: "nat sgxsd_state" where
  "demo_run = snd (run_ecall demo_env (Server_start None 0)
     (snd (run_ecall demo_env (Node_init (Some \<lparr>pending_requests_table_order = 1\<rparr>)) (initial_state 0))))"

lemma steps_run:
  assumes "steps e s s'" "wf_ecall c" "g_last_pending_request_id_val s' \<noteq> - 1"
  shows "steps e s (snd (run_ecall e c s'))"
  using steps.call [OF assms] by (metis prod.collapse)

lemma demo_init: "g_last_pending_request_id_val (snd (sgxsd_enclave_node_init e a (initial_state w))) = 0"
proof -
  obtain res s' where r: "sgxsd_enclave_node_init e a (initial_state w) = (res, s')" by fastforce
  have "g_last_pending_request_id_val s' = 0"
    by (cases rule: node_init_cases [OF wf_initial r]) (auto simp: node_frame_def initial_state_def)
  then show ?thesis by (simp add: r)
qed

lemma demo_steps: "steps demo_env (initial_state 0) demo_run"
  unfolding demo_run_def
  by (intro steps_run steps.start) (simp_all add: demo_init, simp add: initial_state_def)

theorem enclave_reachable_invariant_witness: "wf_state demo_run \<and> locks_free demo_run"
  using enclave_reachable_invariant [OF _ demo_steps] steps.start by (auto simp: reachable_def)

text \<open>C15. Negotiation. On an initialised node a successful \<open>sgxsd_enclave_negotiate_request\<close> answers with the current
  static public key and a fresh ephemeral one, derives the session key from the two X25519 secrets
  by HKDF, registers exactly one new live request for it, and encrypts under the server key of the
  session, with the zero IV, a sealed identifier that opens to that request.\<close>

theorem negotiate_correct:
  assumes "enclave_inv s" "g_node_initialized s" "g_last_pending_request_id_val s \<noteq> - 1"
    and "wf_request_msg req" "wf_response resp"
    and "sgxsd_enclave_negotiate_request e (Some req) (Some resp) s = ((SGX_SUCCESS, resp'), s')"
    and "k = g_last_pending_request_id_val s + 1"
  shows "\<exists>eph prk prid. pubkey eph = curve25519_donna (privkey eph) BASEPOINT
    \<and> prk = session_prk (client_pubkey req) eph (g_dh_keypair s)
    \<and> resp' = Some (seal_response prk (pubkey (g_dh_keypair s)) (pubkey eph) prid)
    \<and> gcm_crypt (aes_encrypt (server_key_of prk)) (replicate 12 0) (enc_prid_data (the resp')) = prid_bytes prid
    \<and> wf_prid prid \<and> open_id (g_pending_request_id_key s') prid = Some k
    \<and> g_last_pending_request_id_val s' = k \<and> live_requests s' k = Some prk"
proof -
  from negotiate_success [OF assms(1-3,5-7)] obtain eph prk prid
    where r: "pubkey eph = curve25519_donna (privkey eph) BASEPOINT"
      "prk = session_prk (client_pubkey req) eph (g_dh_keypair s)"
      "resp' = Some (seal_response prk (pubkey (g_dh_keypair s)) (pubkey eph) prid)"
      "wf_prid prid" "open_id (g_pending_request_id_key s') prid = Some k"
      "g_last_pending_request_id_val s' = k" "live_requests s' k = Some prk"
    by blast
  have "gcm_crypt (aes_encrypt (server_key_of prk)) (replicate 12 0) (enc_prid_data (the resp')) = prid_bytes prid"
    unfolding r(3) by (simp add: seal_response_def Let_def decrypt_encrypt)
  then show ?thesis using r by blast
qed

lemma demo_enclave_inv: "enclave_inv demo_state"
proof -
  have l: "locks_free demo_state"
    by (simp add: locks_free_def demo_state_def initial_state_def get_desc_def zero_server_desc_def)
  have "live_requests demo_state = (\<lambda>_. None)"
    using empty_table_live [of 1 "initial_state 0"] by (simp add: demo_state_def initial_state_def numeral_2_eq_2)
  then show ?thesis using l demo_wf by (simp add: enclave_inv_def)
qed

lemma demo_read_rand32: "fst (fst (sgxsd_enclave_read_rand demo_env s)) = SGX_SUCCESS"
  by (simp add: sgxsd_enclave_read_rand_def demo_read_rand Let_def)

lemma demo_keypair: "\<exists>kp s'. sgxsd_enclave_generate_curve25519_keypair demo_env kp0 s = ((SGX_SUCCESS, kp), s')"
proof -
  obtain x s' where "sgxsd_enclave_read_rand demo_env s = ((SGX_SUCCESS, x), s')"
    using demo_read_rand32 [of s] by (metis prod.collapse)
  from generate_keypair_eq [OF this refl] show ?thesis by simp
qed

definition demo_req :: sgxsd_request_negotiation_request where
  "demo_req = \<lparr>client_pubkey = BASEPOINT\<rparr>"

definition demo_resp :: sgxsd_request_negotiation_response where
  "demo_resp = \<lparr>server_static_pubkey = replicate 32 0, server_ephemeral_pubkey = replicate 32 0, enc_prid_data = replicate 36 0,
     enc_prid_iv = replicate 12 0, enc_prid_mac = replicate 16 0\<rparr>"

lemma demo_negotiate:
  assumes "wf_state s" "g_node_initialized s"
  shows "\<exists>resp' s'. sgxsd_enclave_negotiate_request demo_env (Some demo_req) (Some demo_resp) s = ((SGX_SUCCESS, resp'), s')"
proof -
  obtain eph s1 where g: "sgxsd_enclave_generate_curve25519_keypair demo_env zero_key_pair s = ((SGX_SUCCESS, eph), s1)"
    using demo_keypair by blast
  have f: "rand_frame s s1" using generate_keypair_frame [OF g wf_zero_key_pair] by blast
  then have w: "wf_state s1" "g_node_initialized s1" using rand_frame_wf [OF f] assms by (simp_all add: rand_frame_def)
  have r: "wf_response demo_resp" by (simp add: wf_response_def demo_resp_def)
  show ?thesis using negotiate_eq [OF assms r g refl add_pending_eq [OF w wf_zero_prid demo_read_rand, simplified]] by auto
qed

theorem negotiate_correct_witness:
  "\<exists>resp' s' prk. sgxsd_enclave_negotiate_request demo_env (Some demo_req) (Some demo_resp) demo_state = ((SGX_SUCCESS, resp'), s')
    \<and> live_requests s' 1 = Some prk"
proof -
  obtain resp' s' where r: "sgxsd_enclave_negotiate_request demo_env (Some demo_req) (Some demo_resp) demo_state
      = ((SGX_SUCCESS, resp'), s')" using demo_negotiate demo_wf by blast
  have "wf_request_msg demo_req" "wf_response demo_resp"
    by (simp_all add: wf_request_msg_def demo_req_def BASEPOINT_def wf_response_def demo_resp_def)
  from negotiate_correct [OF demo_enclave_inv demo_wf(2) _ this r, of 1] r demo_pending(3) show ?thesis by auto
qed

lemma server_call_delivered:
  assumes "enclave_inv s" "g_node_initialized s" "unat h < SGXSD_ENCLAVE_MAX_SERVERS" "sd_valid (get_desc (unat h) s)"
    and "wf_hdr hdr" "0 < length m" "length m < 2 ^ 32" "unat n = length m"
    and "open_id (g_pending_request_id_key s) (hdr_pending_request_id hdr) = Some k" "live_requests s k = Some prk"
    and "data = gcm_crypt (aes_encrypt (client_key_of prk)) (hdr_iv hdr) m"
    and "hdr_mac hdr = gcm_tag (aes_encrypt (client_key_of prk)) (hdr_iv hdr) (prid_bytes (hdr_pending_request_id hdr)) data"
    and "env_server_handle_call e a m \<lparr>from_valid = True, from_tag = t, from_server_key = server_key_of prk\<rparr>
      (sd_state (get_desc (unat h) s)) (g_read_rand_state s, world s) = ((res, p_state), rand, w)"
  shows "\<exists>s'. sgxsd_enclave_server_call e a (Some hdr) (Some data) n t h s = ((res, Some (replicate (length m) 0)), s')
    \<and> world s' = w \<and> get_desc (unat h) s' = \<lparr>sd_valid = True, sd_lock = 0, sd_state = p_state\<rparr>
    \<and> live_requests s' = (live_requests s)(k := None)"
proof -
  let ?i = "unat h"
  have wf: "wf_state s" using assms(1) by (simp add: enclave_inv_def)
  have k: "k \<noteq> 0" "pending_get (order_of s) k (table_of s) \<noteq> None" using assms(10) by (auto simp: live_requests_def split: if_splits)
  have len: "length data = unat n" "0 < length data" "length data < 2 ^ 32" "length data = length m"
    unfolding assms(11) using assms(6-8) by simp_all
  have m: "open_msg prk hdr data = Some m" using assms(12) by (simp add: open_msg_def assms(11) decrypt_encrypt)
  let ?s1 = "sgxsd_spin_lock ?i (pending_removed k s)"
  have st: "g_read_rand_state ?s1 = g_read_rand_state s" "world ?s1 = world s"
    by (simp_all add: sgxsd_spin_lock_def set_desc_def pending_removed_def)
  define s2 where "s2 = ?s1\<lparr>g_read_rand_state := fixed 32 rand, world := w\<rparr>"
  have c: "callback (env_server_handle_call e a m \<lparr>from_valid = True, from_tag = t, from_server_key = server_key_of prk\<rparr>
      (sd_state (get_desc ?i s))) ?s1 = ((res, p_state), s2)"
    unfolding callback_def st assms(13) by (simp add: s2_def)
  define s' where "s' = sgxsd_spin_unlock ?i (set_desc ?i ((get_desc ?i s2)\<lparr>sd_state := p_state\<rparr>) s2)"
  have "sgxsd_enclave_server_call e a (Some hdr) (Some data) n t h s = ((res, Some (replicate (length m) 0)), s')"
    unfolding server_call_eq [OF assms(1-5) len(1-3) assms(9) k(1)] assms(10) option.case m c s'_def len(4) by simp
  moreover have "live_requests s' = live_requests (pending_removed k s)" "world s' = w"
    by (simp_all add: s'_def s2_def sgxsd_spin_unlock_def sgxsd_spin_lock_def set_desc_def live_requests_def fun_eq_iff)
  moreover have "get_desc ?i s' = \<lparr>sd_valid = True, sd_lock = 0, sd_state = p_state\<rparr>"
    using assms(3,4) wf_states_length [OF wf]
    by (simp add: s'_def s2_def sgxsd_spin_unlock_def sgxsd_spin_lock_def set_desc_def get_desc_def pending_removed_def)
  ultimately show ?thesis using live_removed [OF wf assms(2) k(2)] by auto
qed

text \<open>C9. Delivery. A message that a client seals under the client key of a live request, with the
  identifier of the request as additional data, reaches the handler of the started server that it
  is sent to: the handler is run once, on exactly that message, with the tag of the call and the
  server key of the request. Its status is returned, the request is no longer live, and the
  message buffer holds only zeros afterwards.\<close>

theorem server_call_delivers:
  assumes "enclave_inv s" "g_node_initialized s" "unat h < SGXSD_ENCLAVE_MAX_SERVERS" "sd_valid (get_desc (unat h) s)"
    and "wf_hdr hdr" "0 < length m" "length m < 2 ^ 32" "unat n = length m"
    and "open_id (g_pending_request_id_key s) (hdr_pending_request_id hdr) = Some k" "live_requests s k = Some prk"
    and "data = gcm_crypt (aes_encrypt (client_key_of prk)) (hdr_iv hdr) m"
    and "hdr_mac hdr = gcm_tag (aes_encrypt (client_key_of prk)) (hdr_iv hdr) (prid_bytes (hdr_pending_request_id hdr)) data"
    and "env_server_handle_call e a m \<lparr>from_valid = True, from_tag = t, from_server_key = server_key_of prk\<rparr>
      (sd_state (get_desc (unat h) s)) (g_read_rand_state s, world s) = ((res, p_state), rand, w)"
  shows "\<exists>s'. sgxsd_enclave_server_call e a (Some hdr) (Some data) n t h s = ((res, Some (replicate (length m) 0)), s')
    \<and> world s' = w \<and> sd_state (get_desc (unat h) s') = p_state \<and> live_requests s' = (live_requests s)(k := None)"
  using server_call_delivered [OF assms] by auto

text \<open>C11. Integrity. When the tag of the message does not match under the client key of the request, no
  handler runs: the world and every descriptor are as before, the message buffer holds zeros, the answer
  is \<open>SGX_ERROR_MAC_MISMATCH\<close>, and the request is used up, so that an attacker has one attempt per request.\<close>

theorem server_call_rejects:
  assumes "enclave_inv s" "g_node_initialized s" "unat h < SGXSD_ENCLAVE_MAX_SERVERS" "sd_valid (get_desc (unat h) s)"
    and "wf_hdr hdr" "0 < length data" "length data < 2 ^ 32" "unat n = length data"
    and "open_id (g_pending_request_id_key s) (hdr_pending_request_id hdr) = Some k" "live_requests s k = Some prk"
    and "hdr_mac hdr \<noteq> gcm_tag (aes_encrypt (client_key_of prk)) (hdr_iv hdr) (prid_bytes (hdr_pending_request_id hdr)) data"
    and "sgxsd_enclave_server_call e a (Some hdr) (Some data) n t h s = ((res, d), s')"
  shows "res = SGX_ERROR_MAC_MISMATCH \<and> d = Some (replicate (length data) 0) \<and> world s' = world s
    \<and> g_server_states s' = g_server_states s \<and> live_requests s' = (live_requests s)(k := None)"
proof -
  have wf: "wf_state s" using assms(1) by (simp add: enclave_inv_def)
  have k: "k \<noteq> 0" "pending_get (order_of s) k (table_of s) \<noteq> None" using assms(10) by (auto simp: live_requests_def split: if_splits)
  have "open_msg prk hdr data = None" using assms(11) by (simp add: open_msg_def)
  then show ?thesis
    using assms(12) live_removed [OF wf assms(2) k(2)]
    unfolding server_call_eq [OF assms(1-5) assms(8) [symmetric] assms(6,7,9) k(1)] assms(10)
    by (auto simp: pending_removed_def)
qed

text \<open>C8. At most once. After a server call has used up a live request, no call in any later state of the
  enclave, to any started server and with any message, is accepted for the same identifier: it is
  answered with \<open>SGXSD_ERROR_PENDING_REQUEST_NOT_FOUND\<close> and changes nothing.\<close>

theorem request_used_at_most_once:
  assumes "reachable e s" "g_node_initialized s"
    and "unat h < SGXSD_ENCLAVE_MAX_SERVERS" "sd_valid (get_desc (unat h) s)" "wf_hdr hdr" "0 < length data" "length data < 2 ^ 32"
    and "unat n = length data" "open_id (g_pending_request_id_key s) (hdr_pending_request_id hdr) = Some k" "live_requests s k \<noteq> None"
    and "sgxsd_enclave_server_call e a (Some hdr) (Some data) n t h s = (out, s1)" "steps e s1 s2"
    and "unat h' < SGXSD_ENCLAVE_MAX_SERVERS" "sd_valid (get_desc (unat h') s2)" "wf_hdr hdr'" "0 < length data'" "length data' < 2 ^ 32"
    and "unat n' = length data'" "hdr_pending_request_id hdr' = hdr_pending_request_id hdr"
  shows "sgxsd_enclave_server_call e a' (Some hdr') (Some data') n' t' h' s2
    = ((SGXSD_ERROR_PENDING_REQUEST_NOT_FOUND, Some data'), s2)"
proof -
  have inv: "enclave_inv s" using reachable_inv [OF assms(1)] .
  then have wf: "wf_state s" by (simp add: enclave_inv_def)
  have k: "k \<noteq> 0" "pending_get (order_of s) k (table_of s) \<noteq> None" using assms(10) by (auto simp: live_requests_def split: if_splits)
  have le: "k \<le> g_last_pending_request_id_val s" using inv assms(10) by (auto simp: enclave_inv_def)
  note 1 = call_uses_up [OF inv assms(2-5) assms(8) [symmetric] assms(6,7,9,10,11)]
  have adv: "advance s s1" using server_call_whole_advance [OF inv _ assms(11)] assms(5) by simp
  then have "enclave_inv s1" by (simp add: advance_def)
  from steps_advance [OF assms(12) this] have adv2: "advance s1 s2" .
  then have 2: "enclave_inv s2" "g_node_initialized s2" "g_pending_request_id_key s2 = g_pending_request_id_key s" "live_requests s2 k = None"
    using adv le assms(2) 1 by (auto simp: advance_def later_def)
  have id: "open_id (g_pending_request_id_key s2) (hdr_pending_request_id hdr') = Some k" using 2(3) assms(9,19) by simp
  show ?thesis
    unfolding server_call_eq [OF 2(1,2) assms(13-15) assms(18) [symmetric] assms(16,17) id k(1)] 2(4) by simp
qed

text \<open>The example run reaches an initialised node with a started server, and then a live request.\<close>

lemma demo_init_ok:
  "\<exists>s'. sgxsd_enclave_node_init demo_env (Some \<lparr>pending_requests_table_order = 1\<rparr>) (initial_state 0) = (SGX_SUCCESS, s')"
proof -
  let ?a = "\<lparr>pending_requests_table_order = 1\<rparr>" and ?s = "initial_state 0 :: nat sgxsd_state"
  obtain kp1 s1 where 1: "sgxsd_enclave_generate_curve25519_keypair demo_env (g_dh_keypair ?s) ?s = ((SGX_SUCCESS, kp1), s1)"
    using demo_keypair by blast
  obtain kp2 s2 where 2: "sgxsd_enclave_generate_curve25519_keypair demo_env (g_new_dh_keypair s1) (s1\<lparr>g_dh_keypair := kp1\<rparr>)
      = ((SGX_SUCCESS, kp2), s2)" using demo_keypair by blast
  have 4: "env_calloc demo_env c 40 w = (True, w + 1)" for c w by (simp add: demo_env_def)
  have o: "env_is_outside_enclave demo_env a n = 1" for a n by (simp add: demo_env_def)
  have "\<not> g_node_initialized ?s" by (simp add: initial_state_def)
  from node_init_eq [OF this o o _ 1 2 demo_read_rand 4, of ?a] show ?thesis by simp
qed

lemma demo_run_facts:
  "g_node_initialized demo_run" "sd_valid (get_desc 0 demo_run)" "g_last_pending_request_id_val demo_run = 0" "enclave_inv demo_run"
proof -
  obtain s' where s': "sgxsd_enclave_node_init demo_env (Some \<lparr>pending_requests_table_order = 1\<rparr>) (initial_state 0)
      = (SGX_SUCCESS, s')" using demo_init_ok by blast
  have i: "g_node_initialized s'" "g_server_states s' = replicate 256 zero_server_desc" "g_last_pending_request_id_val s' = 0"
    by (cases rule: node_init_cases [OF wf_initial s'],
        auto simp: node_frame_def initial_state_def SGXSD_ENCLAVE_MAX_SERVERS_def)+
  have d: "demo_run = snd (sgxsd_enclave_server_start demo_env None 0 s')" by (simp add: demo_run_def s')
  show "g_node_initialized demo_run" "sd_valid (get_desc 0 demo_run)" "g_last_pending_request_id_val demo_run = 0"
    unfolding d sgxsd_enclave_server_start_def sgxsd_enclave_server_start_locked_def
    by (simp_all add: i Let_def SGXSD_ENCLAVE_MAX_SERVERS_def callback_def demo_env_def sgxsd_spin_lock_def sgxsd_spin_unlock_def
        set_desc_def get_desc_def zero_server_desc_def)
  show "enclave_inv demo_run" using steps_advance [OF demo_steps initial_inv] by (simp add: advance_def)
qed

text \<open>A header and a message for the live request.\<close>

definition demo_hdr :: "bytes \<Rightarrow> sgxsd_pending_request_id \<Rightarrow> bytes \<Rightarrow> sgxsd_msg_header" where
  "demo_hdr prk prid m = \<lparr>hdr_iv = replicate 12 0,
     hdr_mac = gcm_tag (aes_encrypt (client_key_of prk)) (replicate 12 0) (prid_bytes prid)
       (gcm_crypt (aes_encrypt (client_key_of prk)) (replicate 12 0) m),
     hdr_pending_request_id = prid\<rparr>"

lemma wf_demo_hdr: "wf_prid prid \<Longrightarrow> wf_hdr (demo_hdr prk prid m)"
  by (simp add: wf_hdr_def demo_hdr_def)

lemma demo_live:
  obtains s prk prid where "steps demo_env (initial_state 0) s" "g_node_initialized s" "sd_valid (get_desc 0 s)" "enclave_inv s"
    "wf_prid prid" "open_id (g_pending_request_id_key s) prid = Some 1" "live_requests s 1 = Some prk"
proof -
  have wf: "wf_state demo_run" using demo_run_facts(4) by (simp add: enclave_inv_def)
  obtain resp' s where r: "sgxsd_enclave_negotiate_request demo_env (Some demo_req) (Some demo_resp) demo_run
      = ((SGX_SUCCESS, resp'), s)" using demo_negotiate [OF wf demo_run_facts(1)] by blast
  have w: "wf_ecall (Negotiate_request (Some demo_req) (Some demo_resp))" "wf_response demo_resp"
    by (simp_all add: wf_request_msg_def demo_req_def BASEPOINT_def wf_response_def demo_resp_def)
  have st: "steps demo_env (initial_state 0) s" "steps demo_env demo_run s"
    using steps_run [OF demo_steps w(1)] steps_run [OF steps.start w(1), of demo_run demo_env] by (simp_all add: r demo_run_facts)
  have adv: "advance demo_run s" using steps_advance [OF st(2)] demo_run_facts(4) by blast
  show thesis
  proof (rule negotiate_success [OF demo_run_facts(4,1) _ w(2) r, of 1])
    fix eph prk prid assume "wf_prid prid" "open_id (g_pending_request_id_key s) prid = Some 1" "live_requests s 1 = Some prk"
      "g_server_states s = g_server_states demo_run"
    then show thesis using that [OF st(1)] adv demo_run_facts by (simp add: advance_def later_def get_desc_def)
  qed (simp_all add: demo_run_facts)
qed

theorem server_call_delivers_witness:
  "\<exists>s prk hdr data s'. live_requests s 1 = Some prk
    \<and> sgxsd_enclave_server_call demo_env None (Some hdr) (Some data) 3 7 0 s = ((SGX_SUCCESS, Some (replicate 3 0)), s')
    \<and> live_requests s' 1 = None"
proof -
  obtain s prk prid where d: "steps demo_env (initial_state 0) s" "g_node_initialized s" "sd_valid (get_desc 0 s)" "enclave_inv s"
    "wf_prid prid" "open_id (g_pending_request_id_key s) prid = Some 1" "live_requests s 1 = Some prk" by (rule demo_live)
  let ?h = "demo_hdr prk prid [1, 2, 3]" and ?f = "\<lparr>from_valid = True, from_tag = 7, from_server_key = server_key_of prk\<rparr>"
  have e: "env_server_handle_call demo_env None [1, 2, 3] ?f (sd_state (get_desc (unat (0 :: u64)) s)) (g_read_rand_state s, world s)
      = ((SGX_SUCCESS, sd_state (get_desc 0 s)), g_read_rand_state s, world s + 1)"
    by (simp add: demo_env_def)
  let ?data = "gcm_crypt (aes_encrypt (client_key_of prk)) (replicate 12 0) [1, 2, 3]"
  have "\<exists>s'. sgxsd_enclave_server_call demo_env None (Some ?h) (Some ?data) 3 7 0 s
      = ((SGX_SUCCESS, Some (replicate (length [1 :: u8, 2, 3]) 0)), s')
    \<and> world s' = world s + 1 \<and> sd_state (get_desc (unat (0 :: u64)) s') = sd_state (get_desc 0 s)
    \<and> live_requests s' = (live_requests s)(1 := None)"
    by (rule server_call_delivers [where prk = prk, OF d(4,2) _ _ wf_demo_hdr [OF d(5)] _ _ _ _ d(7) _ _ e])
      (use d in \<open>simp_all add: demo_hdr_def SGXSD_ENCLAVE_MAX_SERVERS_def del: rfc5869_T.simps\<close>)
  then obtain s' where "sgxsd_enclave_server_call demo_env None (Some ?h) (Some ?data) 3 7 0 s
      = ((SGX_SUCCESS, Some (replicate (length [1 :: u8, 2, 3]) 0)), s')" "live_requests s' 1 = None" by auto
  then show ?thesis using d(7) 
    by - (rule exI [of _ s], rule exI [of _ prk], rule exI [of _ ?h], rule exI [of _ ?data], simp add: numeral_3_eq_3)
qed

theorem server_call_rejects_witness:
  "\<exists>s prk hdr. live_requests s 1 = Some prk \<and> (\<exists>s'. sgxsd_enclave_server_call demo_env None (Some hdr) (Some [9]) 1 7 0 s
      = ((SGX_ERROR_MAC_MISMATCH, Some [0]), s') \<and> world s' = world s \<and> live_requests s' 1 = None)"
proof -
  obtain s prk prid where d: "steps demo_env (initial_state 0) s" "g_node_initialized s" "sd_valid (get_desc 0 s)" "enclave_inv s"
    "wf_prid prid" "open_id (g_pending_request_id_key s) prid = Some 1" "live_requests s 1 = Some prk" by (rule demo_live)
  let ?T = "gcm_tag (aes_encrypt (client_key_of prk)) (replicate 12 0) (prid_bytes prid) [9]"
  obtain m where m: "length m = 16" "m \<noteq> ?T"
    by (metis length_replicate nth_replicate zero_neq_one zero_less_numeral)
  let ?h = "\<lparr>hdr_iv = replicate 12 0, hdr_mac = m, hdr_pending_request_id = prid\<rparr>"
  have h: "wf_hdr ?h" using d(5) m(1) by (simp add: wf_hdr_def)
  obtain res dt s' where r: "sgxsd_enclave_server_call demo_env None (Some ?h) (Some [9]) 1 7 0 s = ((res, dt), s')"
    by (metis prod.collapse)
  have "res = SGX_ERROR_MAC_MISMATCH \<and> dt = Some (replicate (length [9 :: u8]) 0) \<and> world s' = world s
      \<and> g_server_states s' = g_server_states s \<and> live_requests s' = (live_requests s)(1 := None)"
    by (rule server_call_rejects [OF d(4,2) _ _ h _ _ _ _ d(7) _ r])
      (use d m(2) in \<open>simp_all add: SGXSD_ENCLAVE_MAX_SERVERS_def del: rfc5869_T.simps\<close>)
  then show ?thesis using r d(7) by (intro exI [of _ s] exI [of _ prk] exI [of _ ?h]) simp
qed

theorem request_used_at_most_once_witness:
  "\<exists>s hdr out s1. reachable demo_env s \<and> live_requests s 1 \<noteq> None
    \<and> sgxsd_enclave_server_call demo_env None (Some hdr) (Some [9]) 1 7 0 s = (out, s1)
    \<and> sgxsd_enclave_server_call demo_env None (Some hdr) (Some [8]) 1 7 0 s1
        = ((SGXSD_ERROR_PENDING_REQUEST_NOT_FOUND, Some [8]), s1)"
proof -
  obtain s prk prid where d: "steps demo_env (initial_state 0) s" "g_node_initialized s" "sd_valid (get_desc 0 s)" "enclave_inv s"
    "wf_prid prid" "open_id (g_pending_request_id_key s) prid = Some 1" "live_requests s 1 = Some prk" by (rule demo_live)
  let ?h = "demo_hdr prk prid [9]"
  have r: "reachable demo_env s" using d(1) by (auto simp: reachable_def)
  obtain out s1 where c: "sgxsd_enclave_server_call demo_env None (Some ?h) (Some [9]) 1 7 0 s = (out, s1)" by fastforce
  have id: "open_id (g_pending_request_id_key s) (hdr_pending_request_id ?h) = Some 1" using d(6) by (simp add: demo_hdr_def)
  have v: "sd_valid (get_desc (unat (0 :: u64)) s1)"
    by (rule call_keeps_valid [OF d(4,2) _ _ wf_demo_hdr [OF d(5)] _ _ _ id _ c])
      (use d in \<open>simp_all add: SGXSD_ENCLAVE_MAX_SERVERS_def\<close>)
  have "sgxsd_enclave_server_call demo_env None (Some ?h) (Some [8]) 1 7 0 s1
      = ((SGXSD_ERROR_PENDING_REQUEST_NOT_FOUND, Some [8]), s1)"
    by (rule request_used_at_most_once [OF r d(2) _ _ wf_demo_hdr [OF d(5)] _ _ _ id _ c steps.start _ v wf_demo_hdr [OF d(5)]])
      (use d in \<open>simp_all add: SGXSD_ENCLAVE_MAX_SERVERS_def\<close>)
  then show ?thesis using r c d(7) by (intro exI [of _ s] exI [of _ ?h]) auto
qed

text \<open>C37. Before initialisation every other entry point answers \<open>SGX_ERROR_INVALID_STATE\<close> and changes nothing, and after
  it a second initialisation does. On an initialised node a server handle outside the descriptor
  array is refused with \<open>SGX_ERROR_INVALID_PARAMETER\<close> before any descriptor is touched.\<close>

theorem ecall_state_errors:
  assumes "256 \<le> unat h"
  shows "(if g_node_initialized s
     then run_ecall e (Node_init a) s = (SGX_ERROR_INVALID_STATE, s)
       \<and> run_ecall e (Server_start b h) s = (SGX_ERROR_INVALID_PARAMETER, s)
       \<and> run_ecall e (Server_call c hdr d n t h) s = (SGX_ERROR_INVALID_PARAMETER, s)
       \<and> run_ecall e (Server_stop f h) s = (SGX_ERROR_INVALID_PARAMETER, s)
       \<and> run_ecall e (Ratelimit_fingerprint key c hdr d n t h fp m) s = (SGX_ERROR_INVALID_PARAMETER, s)
     else (\<forall>g. (\<exists>x. g = Node_init x) \<or> run_ecall e g s = (SGX_ERROR_INVALID_STATE, s)))"
proof (cases "g_node_initialized s")
  case True
  then show ?thesis
    using assms by (simp add: sgxsd_enclave_node_init_def sgxsd_enclave_node_init_locked_def sgxsd_enclave_server_start_def
      sgxsd_enclave_server_call_def sgxsd_enclave_server_stop_def sgxsd_enclave_ratelimit_fingerprint_def SGXSD_ENCLAVE_MAX_SERVERS_def)
next
  case False
  have "(\<exists>x. g = Node_init x) \<or> run_ecall e g s = (SGX_ERROR_INVALID_STATE, s)" for g
    using False
    by (cases g) (simp_all add: sgxsd_enclave_get_next_report_def sgxsd_enclave_set_current_quote_def
      sgxsd_enclave_negotiate_request_def sgxsd_enclave_server_start_def sgxsd_enclave_server_call_def
      sgxsd_enclave_server_stop_def sgxsd_enclave_ratelimit_fingerprint_def)
  then show ?thesis using False by simp
qed

theorem ecall_state_errors_witness:
  "run_ecall demo_env (Server_stop None 256) demo_state = (SGX_ERROR_INVALID_PARAMETER, demo_state)
    \<and> run_ecall demo_env Set_current_quote (initial_state 0) = (SGX_ERROR_INVALID_STATE, initial_state 0)"
  using ecall_state_errors [of 256 demo_state demo_env] ecall_state_errors [of 256 "initial_state 0" demo_env] demo_wf(2)
  by (auto simp: initial_state_def dest: spec [of _ Set_current_quote])

section \<open>Life of a server\<close>

lemma start_stop_desc:
  assumes "enclave_inv s" "g_node_initialized s" "unat h < SGXSD_ENCLAVE_MAX_SERVERS"
  shows "get_desc (unat h) (sgxsd_spin_lock (unat h) s) = (get_desc (unat h) s)\<lparr>sd_lock := 1\<rparr>"
    "unat h < length (g_server_states s)" "sd_lock (get_desc (unat h) s) = 0"
  using assms by (simp_all add: enclave_inv_def wf_states_length sgxsd_spin_lock_def locks_free_def)

lemma start_eq:
  assumes "enclave_inv s" "g_node_initialized s" "unat h < SGXSD_ENCLAVE_MAX_SERVERS" "\<not> sd_valid (get_desc (unat h) s)"
    and c: "env_server_init e a (sd_state (get_desc (unat h) s)) (g_read_rand_state s, world s) = ((SGX_SUCCESS, st), rand, w)"
  shows "sgxsd_enclave_server_start e a h s = (SGX_SUCCESS, set_desc (unat h) \<lparr>sd_valid = True, sd_lock = 0, sd_state = st\<rparr>
    (s\<lparr>g_read_rand_state := fixed 32 rand, world := w\<rparr>))"
proof -
  note l = start_stop_desc [OF assms(1-3)]
  have "callback (env_server_init e a (sd_state (get_desc (unat h) s))) (sgxsd_spin_lock (unat h) s)
    = ((SGX_SUCCESS, st), (sgxsd_spin_lock (unat h) s)\<lparr>g_read_rand_state := fixed 32 rand, world := w\<rparr>)"
    using c by (simp add: callback_def sgxsd_spin_lock_def set_desc_def)
  moreover obtain v k p where "g_server_states s ! unat h = \<lparr>sd_valid = v, sd_lock = k, sd_state = p\<rparr>"
    by (cases "g_server_states s ! unat h")
  ultimately show ?thesis
    using assms(2-4) l
    unfolding sgxsd_enclave_server_start_def sgxsd_enclave_server_start_locked_def
    by (simp add: sgxsd_spin_unlock_def sgxsd_spin_lock_def set_desc_def get_desc_def Let_def)
qed

lemma stop_eq:
  assumes "g_node_initialized s" "unat h < length (g_server_states s)" "unat h < SGXSD_ENCLAVE_MAX_SERVERS"
    and d: "get_desc (unat h) s = \<lparr>sd_valid = True, sd_lock = 0, sd_state = st\<rparr>"
    and c: "env_server_terminate e b st (g_read_rand_state s, world s) = (res, rand, w)"
  shows "sgxsd_enclave_server_stop e b h s
    = (res, set_desc (unat h) zero_server_desc (s\<lparr>g_read_rand_state := fixed 32 rand, world := w\<rparr>))"
  using assms unfolding sgxsd_enclave_server_stop_def sgxsd_enclave_server_stop_locked_def
  by (simp add: sgxsd_spin_unlock_def sgxsd_spin_lock_def set_desc_def get_desc_def callback_def zero_server_desc_def)

text \<open>C35. A server is started once and terminated once. Starting a stopped descriptor runs the initialiser and,
  when it succeeds, keeps the state it returned; starting a started one is refused unchanged.
  Stopping a started server hands its state to the terminator exactly once and leaves the
  descriptor cleared, whatever the terminator answers, so that a second stop and any further call
  are refused.\<close>

theorem server_lifecycle:
  assumes "enclave_inv s" "g_node_initialized s" "unat h < SGXSD_ENCLAVE_MAX_SERVERS"
    and "\<not> sd_valid (get_desc (unat h) s)"
    and "env_server_init e a (sd_state (get_desc (unat h) s)) (g_read_rand_state s, world s) = ((SGX_SUCCESS, st), rand, w)"
    and "sgxsd_enclave_server_start e a h s = (res, s1)"
    and "env_server_terminate e b st (g_read_rand_state s1, world s1) = (res2, rand2, w2)"
    and "sgxsd_enclave_server_stop e b h s1 = (res', s2)"
  shows "res = SGX_SUCCESS \<and> world s1 = w \<and> sgxsd_enclave_server_start e a' h s1 = (SGX_ERROR_INVALID_STATE, s1)
    \<and> res' = res2 \<and> world s2 = w2 \<and> get_desc (unat h) s2 = zero_server_desc
    \<and> sgxsd_enclave_server_stop e b' h s2 = (SGX_ERROR_INVALID_STATE, s2)
    \<and> sgxsd_enclave_server_call e c hdr d n t h s2 = ((SGX_ERROR_INVALID_STATE, d), s2)"
proof -
  let ?i = "unat h"
  let ?s1 = "set_desc ?i \<lparr>sd_valid = True, sd_lock = 0, sd_state = st\<rparr> (s\<lparr>g_read_rand_state := fixed 32 rand, world := w\<rparr>)"
  have len: "?i < length (g_server_states s)" using start_stop_desc [OF assms(1-3)] by simp
  have 1: "res = SGX_SUCCESS" "s1 = ?s1" using assms(6) unfolding start_eq [OF assms(1-5)] by simp_all
  have d: "get_desc ?i s1 = \<lparr>sd_valid = True, sd_lock = 0, sd_state = st\<rparr>" "g_node_initialized s1"
    "?i < length (g_server_states s1)"
    using len assms(2) by (simp_all add: 1(2) set_desc_def get_desc_def)
  have 2: "res' = res2" "s2 = set_desc ?i zero_server_desc (s1\<lparr>g_read_rand_state := fixed 32 rand2, world := w2\<rparr>)"
    using assms(8) unfolding stop_eq [OF d(2,3) assms(3) d(1) assms(7)] by simp_all
  have d2: "get_desc ?i s2 = zero_server_desc" "g_node_initialized s2" "?i < length (g_server_states s2)"
    using d(2,3) by (simp_all add: 2(2) set_desc_def get_desc_def)
  have u: "sgxsd_spin_unlock ?i (sgxsd_spin_lock ?i x) = x" "sd_valid (get_desc ?i (sgxsd_spin_lock ?i x)) = sd_valid (get_desc ?i x)"
    if "?i < length (g_server_states x)" "sd_lock (get_desc ?i x) = 0" for x :: "'a sgxsd_state"
  proof -
    have "(get_desc ?i x)\<lparr>sd_lock := 0\<rparr> = get_desc ?i x" using that(2) by (simp add: sgxsd_server_state_desc.equality)
    then show "sgxsd_spin_unlock ?i (sgxsd_spin_lock ?i x) = x" "sd_valid (get_desc ?i (sgxsd_spin_lock ?i x)) = sd_valid (get_desc ?i x)"
      using that(1) by (simp_all add: sgxsd_spin_unlock_def sgxsd_spin_lock_def)
  qed
  note u1 = u [OF d(3), unfolded d(1)] and u2 = u [OF d2(3), unfolded d2(1)]
  show ?thesis
    using 1(1) 2(1) d(2) d2(1,2) assms(3) u1 u2
    by (simp add: sgxsd_enclave_server_start_def sgxsd_enclave_server_start_locked_def sgxsd_enclave_server_stop_def
        sgxsd_enclave_server_stop_locked_def sgxsd_enclave_server_call_def sgxsd_enclave_server_call_locked_def
        zero_server_desc_def) (simp add: 1(2) 2(2) set_desc_def)
qed

theorem server_lifecycle_witness:
  "\<exists>s1 s2. sgxsd_enclave_server_start demo_env None 5 demo_state = (SGX_SUCCESS, s1)
    \<and> sgxsd_enclave_server_start demo_env None 5 s1 = (SGX_ERROR_INVALID_STATE, s1)
    \<and> sgxsd_enclave_server_stop demo_env None 5 s1 = (SGX_SUCCESS, s2)
    \<and> sgxsd_enclave_server_stop demo_env None 5 s2 = (SGX_ERROR_INVALID_STATE, s2)"
proof -
  obtain res s1 where 1: "sgxsd_enclave_server_start demo_env None 5 demo_state = (res, s1)" by fastforce
  obtain res' s2 where 2: "sgxsd_enclave_server_stop demo_env None 5 s1 = (res', s2)" by fastforce
  have e: "env_server_init demo_env None x (r, w) = ((SGX_SUCCESS, 1), r, w + 1)"
    "env_server_terminate demo_env None 1 (r, w) = (SGX_SUCCESS, r, w + 1)" for x r w by (simp_all add: demo_env_def)
  have v: "\<not> sd_valid (get_desc (unat (5 :: u64)) demo_state)"
    by (simp add: demo_state_def initial_state_def get_desc_def zero_server_desc_def SGXSD_ENCLAVE_MAX_SERVERS_def)
  show ?thesis
    using server_lifecycle [OF demo_enclave_inv demo_wf(2) _ v e(1) 1 e(2) 2] 1 2 by (simp add: SGXSD_ENCLAVE_MAX_SERVERS_def)
qed

section \<open>Key rotation\<close>

text \<open>C36. A successful report binds a fresh key pair: its private key is drawn from the enclave's random generator during this call and clamped for
  X25519, the public key belongs to it, and the report is made over that public key padded with zeros. The key pair used in negotiations stays the
  old one until \<open>sgxsd_enclave_set_current_quote\<close> installs exactly the reported one.\<close>

theorem report_key_rotation:
  assumes "enclave_inv s" "g_node_initialized s"
    and "sgxsd_enclave_get_next_report e qe (Some r0) s = ((SGX_SUCCESS, r), s1)"
    and "sgxsd_enclave_set_current_quote s1 = (res, s2)"
  shows "\<exists>x s0 kp w'. sgxsd_enclave_read_rand e s = ((SGX_SUCCESS, x), s0) \<and> length x = 32
    \<and> privkey kp = x[0 := x ! 0 AND 248, 31 := (x ! 31 AND 127) OR 64]
    \<and> env_create_report e qe (pubkey kp @ replicate 32 0) (world s0) = ((SGX_SUCCESS, the r), w')
    \<and> wf_key_pair kp \<and> pubkey kp = curve25519_donna (privkey kp) BASEPOINT
    \<and> g_dh_keypair s1 = g_dh_keypair s \<and> res = SGX_SUCCESS \<and> g_dh_keypair s2 = kp"
proof -
  obtain g kp s0 where g: "sgxsd_enclave_generate_curve25519_keypair e zero_key_pair s = ((g, kp), s0)" by (metis prod.collapse)
  obtain rres rep w where rep: "env_create_report e qe (memcpy_at 0 (pubkey kp) (replicate 64 0)) (world s0) = ((rres, rep), w)"
    by (metis prod.collapse)
  have f: "rand_frame s s0" "wf_key_pair kp" using generate_keypair_frame [OF g wf_zero_key_pair] by blast+
  have ok: "g = SGX_SUCCESS" "rres = SGX_SUCCESS" "r = Some rep" "s1 = s0\<lparr>world := w, g_new_dh_keypair := kp\<rparr>"
    using assms(2,3) unfolding get_next_report_eq [OF g rep] by (auto split: if_splits)
  have "memcpy_at 0 (pubkey kp) (replicate 64 0) = pubkey kp @ replicate 32 0"
    using f(2) by (simp add: memcpy_at_def wf_key_pair_def)
  then have "env_create_report e qe (pubkey kp @ replicate 32 0) (world s0) = ((SGX_SUCCESS, the r), w)"
    using rep ok by simp
  moreover have "g_dh_keypair s1 = g_dh_keypair s" "g_node_initialized s1" using f(1) assms(2) by (simp_all add: ok(4) rand_frame_def)
  moreover have "pubkey kp = curve25519_donna (privkey kp) BASEPOINT" using generate_keypair_success g ok(1) by blast
  moreover obtain x where "sgxsd_enclave_read_rand e s = ((SGX_SUCCESS, x), s0)" "length x = 32"
    "privkey kp = x[0 := x ! 0 AND 248, 31 := (x ! 31 AND 127) OR 64]" using generate_keypair_rand g ok(1) by blast
  moreover from calculation have "res = SGX_SUCCESS" "g_dh_keypair s2 = kp"
    using assms(4) by (auto simp: sgxsd_enclave_set_current_quote_def ok(4))
  ultimately show ?thesis using f(2) by blast
qed

theorem report_key_rotation_witness:
  "\<exists>r s1 s2. sgxsd_enclave_get_next_report demo_env [] (Some []) demo_state = ((SGX_SUCCESS, r), s1)
    \<and> sgxsd_enclave_set_current_quote s1 = (SGX_SUCCESS, s2)
    \<and> pubkey (g_dh_keypair s2) = curve25519_donna (privkey (g_dh_keypair s2)) BASEPOINT"
proof -
  obtain kp s0 where g: "sgxsd_enclave_generate_curve25519_keypair demo_env zero_key_pair demo_state = ((SGX_SUCCESS, kp), s0)"
    using demo_keypair by blast
  have "env_create_report demo_env q d w = ((SGX_SUCCESS, d), w + 1)" for q d w by (simp add: demo_env_def)
  from get_next_report_eq [OF g this, of "[]" "Some []"]
  obtain r s1 where r: "sgxsd_enclave_get_next_report demo_env [] (Some []) demo_state = ((SGX_SUCCESS, r), s1)"
    using demo_wf(2) by simp
  obtain res s2 where q: "sgxsd_enclave_set_current_quote s1 = (res, s2)" by fastforce
  from report_key_rotation [OF demo_enclave_inv demo_wf(2) r q] r q show ?thesis by auto
qed

end
