(* ===== verification/Sgxsd_Bridge.thy ===== *)
theory Sgxsd_Bridge imports Sgxsd_Ecalls begin

text \<open>
  The trusted side of the enclave boundary, \<open>include/cds_enclave_t.c\<close>: for each entry point a bridge that checks the
  pointers the host passes, copies what they point to into the enclave, calls the entry point and
  copies its results out; and the proxy of the outgoing call. A pointer is its address together with
  what is stored there; address \<open>0\<close> is \<open>NULL\<close>. The C library and the trusted runtime are the fields of a record.
  What the host has stored behind a pointer does not change while a bridge runs.
\<close>

section \<open>Memory\<close>

type_synonym 'a ptr = "u64 \<times> 'a"

definition deref :: "'a ptr \<Rightarrow> 'a option" where
  "deref p = (if fst p = 0 then None else Some (snd p))"

record ms_ocall_reply =
  ms_reply_retval :: sgx_status
  ms_reply_header :: "sgxsd_msg_header ptr"
  ms_reply_data :: "bytes ptr"
  ms_reply_data_size :: u64
  ms_reply_msg_tag :: u64

text \<open>
  \<open>trts_fingerprint\<close> is the function \<open>sgxsd_enclave_ratelimit_fingerprint\<close> as \<open>cds_enclave_t.h\<close> declares it, with seven
  parameters; the function of that name in \<open>c_src/sgxsd-enclave.c\<close> has nine. \<open>trts_ocalloc\<close> gives an address in host memory and what
  happens to be stored where the status of the call will be.
\<close>

record 'w trts =
  trts_malloc :: "nat \<Rightarrow> 'w \<Rightarrow> u64 \<times> 'w"
  trts_free :: "u64 \<Rightarrow> 'w \<Rightarrow> 'w"
  trts_is_within_enclave :: "u64 \<Rightarrow> nat \<Rightarrow> int"
  trts_ocalloc :: "u64 \<Rightarrow> 'w \<Rightarrow> (u64 \<times> sgx_status) \<times> 'w"
  trts_ocfree :: "'w \<Rightarrow> 'w"
  trts_ocall :: "nat \<Rightarrow> ms_ocall_reply \<Rightarrow> 'w \<Rightarrow> (sgx_status \<times> ms_ocall_reply) \<times> 'w"
  trts_fingerprint :: "bytes option \<Rightarrow> sgxsd_msg_header option \<Rightarrow> bytes option \<Rightarrow> u64 \<Rightarrow> u64 \<Rightarrow> bytes option \<Rightarrow> u64
    \<Rightarrow> 'w sgxsd_state \<Rightarrow> (sgx_status \<times> bytes option) \<times> 'w sgxsd_state"

definition CHECK_REF_POINTER :: "'w env \<Rightarrow> u64 \<Rightarrow> nat \<Rightarrow> bool" where
  "CHECK_REF_POINTER e p siz \<longleftrightarrow> \<not> (p = 0 \<or> env_is_outside_enclave e p siz = 0)"

definition CHECK_UNIQUE_POINTER :: "'w env \<Rightarrow> u64 \<Rightarrow> nat \<Rightarrow> bool" where
  "CHECK_UNIQUE_POINTER e p siz \<longleftrightarrow> \<not> (p \<noteq> 0 \<and> env_is_outside_enclave e p siz = 0)"

definition CHECK_ENCLAVE_POINTER :: "'w trts \<Rightarrow> u64 \<Rightarrow> nat \<Rightarrow> bool" where
  "CHECK_ENCLAVE_POINTER t p siz \<longleftrightarrow> \<not> (p \<noteq> 0 \<and> trts_is_within_enclave t p siz = 0)"

text \<open>The sum, and whether the addition has wrapped around.\<close>

definition ADD_ASSIGN_OVERFLOW :: "u64 \<Rightarrow> u64 \<Rightarrow> bool \<times> u64" where
  "ADD_ASSIGN_OVERFLOW a b = (a + b < b, a + b)"

text \<open>The error code of \<open>memcpy_s\<close>: \<open>EINVAL\<close> is 22, \<open>ERANGE\<close> is 34.\<close>

definition memcpy_s :: "u64 \<Rightarrow> nat \<Rightarrow> u64 \<Rightarrow> nat \<Rightarrow> nat" where
  "memcpy_s dst dst_size src count =
     (if count = 0 then 0 else if dst = 0 then 22 else if src = 0 then 22 else if dst_size < count then 34 else 0)"

definition free_ptr :: "'w trts \<Rightarrow> 'a ptr \<Rightarrow> 'w sgxsd_state \<Rightarrow> 'w sgxsd_state" where
  "free_ptr t p s = (if fst p \<noteq> 0 then s\<lparr>world := trts_free t (fst p) (world s)\<rparr> else s)"

text \<open>The three shapes of parameter: copied in, allocated and zeroed for the way out, copied out.\<close>

definition copy_in :: "'w trts \<Rightarrow> 'a ptr \<Rightarrow> nat \<Rightarrow> 'w sgxsd_state \<Rightarrow> (sgx_status \<times> 'a ptr) \<times> 'w sgxsd_state" where
  "copy_in t tmp len s =
     (if fst tmp \<noteq> 0 \<and> len \<noteq> 0
      then
        let (p, w) = trts_malloc t len (world s); s = s\<lparr>world := w\<rparr>
        in if p = 0 then ((SGX_ERROR_OUT_OF_MEMORY, (0, snd tmp)), s)
           else if memcpy_s p len (fst tmp) len \<noteq> 0 then ((SGX_ERROR_UNEXPECTED, (p, snd tmp)), s)
           else ((SGX_SUCCESS, (p, snd tmp)), s)
      else ((SGX_SUCCESS, (0, snd tmp)), s))"

definition alloc_out :: "'w trts \<Rightarrow> 'a ptr \<Rightarrow> 'a \<Rightarrow> nat \<Rightarrow> 'w sgxsd_state \<Rightarrow> (sgx_status \<times> 'a ptr) \<times> 'w sgxsd_state" where
  "alloc_out t tmp zero len s =
     (if fst tmp \<noteq> 0 \<and> len \<noteq> 0
      then
        let (p, w) = trts_malloc t len (world s); s = s\<lparr>world := w\<rparr>
        in if p = 0 then ((SGX_ERROR_OUT_OF_MEMORY, (0, zero)), s) else ((SGX_SUCCESS, (p, zero)), s)
      else ((SGX_SUCCESS, (0, zero)), s))"

text \<open>\<open>v\<close> is what the entry point has left in the buffer.\<close>

definition copy_out :: "'a ptr \<Rightarrow> 'a ptr \<Rightarrow> 'a option \<Rightarrow> nat \<Rightarrow> sgx_status \<times> 'a ptr" where
  "copy_out tmp inp v len =
     (case v of
        None \<Rightarrow> (SGX_SUCCESS, tmp)
      | Some x \<Rightarrow> if fst inp \<noteq> 0
          then if memcpy_s (fst tmp) len (fst inp) len \<noteq> 0 then (SGX_ERROR_UNEXPECTED, tmp) else (SGX_SUCCESS, (fst tmp, x))
          else (SGX_SUCCESS, tmp))"

section \<open>Marshalling structures\<close>

record ms_node_init =
  ms_ni_retval :: sgx_status
  ms_ni_p_args :: "sgxsd_node_init_args ptr"

record ms_get_next_report =
  ms_nr_retval :: sgx_status
  ms_nr_qe_target_info :: bytes
  ms_nr_p_report :: "bytes ptr"

record ms_set_current_quote =
  ms_cq_retval :: sgx_status

record ms_negotiate_request =
  ms_ng_retval :: sgx_status
  ms_ng_p_request :: "sgxsd_request_negotiation_request ptr"
  ms_ng_p_response :: "sgxsd_request_negotiation_response ptr"

record ms_server_start =
  ms_st_retval :: sgx_status
  ms_st_p_args :: "sgxsd_server_init_args ptr"
  ms_st_state_handle :: u64

record ms_server_call =
  ms_sc_retval :: sgx_status
  ms_sc_p_args :: "sgxsd_server_handle_call_args ptr"
  ms_sc_msg_header :: "sgxsd_msg_header ptr"
  ms_sc_msg_data :: "bytes ptr"
  ms_sc_msg_size :: u64
  ms_sc_msg_tag :: u64
  ms_sc_state_handle :: u64

record ms_server_stop =
  ms_sp_retval :: sgx_status
  ms_sp_p_args :: "sgxsd_server_terminate_args ptr"
  ms_sp_state_handle :: u64

record ms_ratelimit_fingerprint =
  ms_rf_retval :: sgx_status
  ms_rf_fingerprint_key :: "bytes ptr"
  ms_rf_msg_header :: "sgxsd_msg_header ptr"
  ms_rf_msg_data :: "bytes ptr"
  ms_rf_msg_data_size :: u64
  ms_rf_msg_tag :: u64
  ms_rf_fingerprint :: "bytes ptr"
  ms_rf_fingerprint_size :: u64

text \<open>Sizes of the structures: pointers and \<open>size_t\<close> have eight bytes, \<open>sgx_status_t\<close> four; \<open>sgx_target_info_t\<close> has 512 and \<open>sgx_report_t\<close> 432.\<close>

definition sizeof_report :: nat where "sizeof_report = 432"
definition sizeof_header :: nat where
  "sizeof_header = SGXSD_AES_GCM_IV_SIZE + SGXSD_AES_GCM_MAC_SIZE + (8 + SGXSD_AES_GCM_IV_SIZE + SGXSD_AES_GCM_MAC_SIZE)"
definition sizeof_request :: nat where "sizeof_request = SGXSD_CURVE25519_KEY_SIZE"
definition sizeof_response :: nat where
  "sizeof_response = SGXSD_CURVE25519_KEY_SIZE * 2 + (8 + SGXSD_AES_GCM_IV_SIZE + SGXSD_AES_GCM_MAC_SIZE)
     + SGXSD_AES_GCM_IV_SIZE + SGXSD_AES_GCM_MAC_SIZE"
definition sizeof_call_args :: nat where
  "sizeof_call_args = 4 + 4 + (SGXSD_AES_GCM_IV_SIZE + SGXSD_AES_GCM_MAC_SIZE + 4 + 8) + SGXSD_SHA256_HASH_SIZE + 16 + 8"

definition zero_response :: sgxsd_request_negotiation_response where
  "zero_response = \<lparr>server_static_pubkey = replicate 32 0, server_ephemeral_pubkey = replicate 32 0,
     enc_prid_data = replicate 36 0, enc_prid_iv = replicate 12 0, enc_prid_mac = replicate 16 0\<rparr>"

section \<open>Bridges\<close>

text \<open>A bridge is called with the address of its marshalling structure; it gives the status for the caller, the structure and the state.\<close>

definition sgx_sgxsd_enclave_node_init ::
  "'w trts \<Rightarrow> 'w env \<Rightarrow> ms_node_init ptr \<Rightarrow> 'w sgxsd_state \<Rightarrow> (sgx_status \<times> ms_node_init) \<times> 'w sgxsd_state" where
  "sgx_sgxsd_enclave_node_init t e pms s =
     (let ms = snd pms; tmp_p_args = ms_ni_p_args ms
      in if \<not> CHECK_REF_POINTER e (fst pms) 16 then ((SGX_ERROR_INVALID_PARAMETER, ms), s)
         else if \<not> CHECK_UNIQUE_POINTER e (fst tmp_p_args) 1 then ((SGX_ERROR_INVALID_PARAMETER, ms), s)
         else
           let ((status, in_p_args), s) = copy_in t tmp_p_args 1 s
           in if status \<noteq> SGX_SUCCESS then ((status, ms), free_ptr t in_p_args s)
              else
                let (retval, s) = sgxsd_enclave_node_init e (deref in_p_args) s
                in ((SGX_SUCCESS, ms\<lparr>ms_ni_retval := retval\<rparr>), free_ptr t in_p_args s))"

definition sgx_sgxsd_enclave_get_next_report ::
  "'w trts \<Rightarrow> 'w env \<Rightarrow> ms_get_next_report ptr \<Rightarrow> 'w sgxsd_state \<Rightarrow> (sgx_status \<times> ms_get_next_report) \<times> 'w sgxsd_state" where
  "sgx_sgxsd_enclave_get_next_report t e pms s =
     (let ms = snd pms; tmp_p_report = ms_nr_p_report ms
      in if \<not> CHECK_REF_POINTER e (fst pms) 528 then ((SGX_ERROR_INVALID_PARAMETER, ms), s)
         else if \<not> CHECK_UNIQUE_POINTER e (fst tmp_p_report) sizeof_report then ((SGX_ERROR_INVALID_PARAMETER, ms), s)
         else
           let ((status, in_p_report), s) = alloc_out t tmp_p_report (replicate sizeof_report 0) sizeof_report s
           in if status \<noteq> SGX_SUCCESS then ((status, ms), free_ptr t in_p_report s)
              else
                let ((retval, report), s) = sgxsd_enclave_get_next_report e (ms_nr_qe_target_info ms) (deref in_p_report) s;
                    (status, p_report) = copy_out tmp_p_report in_p_report report sizeof_report
                in ((status, ms\<lparr>ms_nr_retval := retval, ms_nr_p_report := p_report\<rparr>), free_ptr t in_p_report s))"

definition sgx_sgxsd_enclave_set_current_quote ::
  "'w env \<Rightarrow> ms_set_current_quote ptr \<Rightarrow> 'w sgxsd_state \<Rightarrow> (sgx_status \<times> ms_set_current_quote) \<times> 'w sgxsd_state" where
  "sgx_sgxsd_enclave_set_current_quote e pms s =
     (let ms = snd pms
      in if \<not> CHECK_REF_POINTER e (fst pms) 4 then ((SGX_ERROR_INVALID_PARAMETER, ms), s)
         else let (retval, s) = sgxsd_enclave_set_current_quote s in ((SGX_SUCCESS, ms\<lparr>ms_cq_retval := retval\<rparr>), s))"

definition sgx_sgxsd_enclave_negotiate_request ::
  "'w trts \<Rightarrow> 'w env \<Rightarrow> ms_negotiate_request ptr \<Rightarrow> 'w sgxsd_state \<Rightarrow> (sgx_status \<times> ms_negotiate_request) \<times> 'w sgxsd_state" where
  "sgx_sgxsd_enclave_negotiate_request t e pms s =
     (let ms = snd pms; tmp_p_request = ms_ng_p_request ms; tmp_p_response = ms_ng_p_response ms
      in if \<not> CHECK_REF_POINTER e (fst pms) 24 then ((SGX_ERROR_INVALID_PARAMETER, ms), s)
         else if \<not> CHECK_UNIQUE_POINTER e (fst tmp_p_request) sizeof_request then ((SGX_ERROR_INVALID_PARAMETER, ms), s)
         else if \<not> CHECK_UNIQUE_POINTER e (fst tmp_p_response) sizeof_response then ((SGX_ERROR_INVALID_PARAMETER, ms), s)
         else
           let ((status, in_p_request), s) = copy_in t tmp_p_request sizeof_request s
           in if status \<noteq> SGX_SUCCESS then ((status, ms), free_ptr t in_p_request s)
              else
                let ((status, in_p_response), s) = alloc_out t tmp_p_response zero_response sizeof_response s
                in if status \<noteq> SGX_SUCCESS then ((status, ms), free_ptr t in_p_response (free_ptr t in_p_request s))
                   else
                     let ((retval, response), s) = sgxsd_enclave_negotiate_request e (deref in_p_request) (deref in_p_response) s;
                         (status, p_response) = copy_out tmp_p_response in_p_response response sizeof_response
                     in ((status, ms\<lparr>ms_ng_retval := retval, ms_ng_p_response := p_response\<rparr>),
                         free_ptr t in_p_response (free_ptr t in_p_request s)))"

definition sgx_sgxsd_enclave_server_start ::
  "'w trts \<Rightarrow> 'w env \<Rightarrow> ms_server_start ptr \<Rightarrow> 'w sgxsd_state \<Rightarrow> (sgx_status \<times> ms_server_start) \<times> 'w sgxsd_state" where
  "sgx_sgxsd_enclave_server_start t e pms s =
     (let ms = snd pms; tmp_p_args = ms_st_p_args ms
      in if \<not> CHECK_REF_POINTER e (fst pms) 24 then ((SGX_ERROR_INVALID_PARAMETER, ms), s)
         else if \<not> CHECK_UNIQUE_POINTER e (fst tmp_p_args) 8 then ((SGX_ERROR_INVALID_PARAMETER, ms), s)
         else
           let ((status, in_p_args), s) = copy_in t tmp_p_args 8 s
           in if status \<noteq> SGX_SUCCESS then ((status, ms), free_ptr t in_p_args s)
              else
                let (retval, s) = sgxsd_enclave_server_start e (deref in_p_args) (ms_st_state_handle ms) s
                in ((SGX_SUCCESS, ms\<lparr>ms_st_retval := retval\<rparr>), free_ptr t in_p_args s))"

definition sgx_sgxsd_enclave_server_call ::
  "'w trts \<Rightarrow> 'w env \<Rightarrow> ms_server_call ptr \<Rightarrow> 'w sgxsd_state \<Rightarrow> (sgx_status \<times> ms_server_call) \<times> 'w sgxsd_state" where
  "sgx_sgxsd_enclave_server_call t e pms s =
     (let ms = snd pms; tmp_p_args = ms_sc_p_args ms; tmp_msg_header = ms_sc_msg_header ms; tmp_msg_data = ms_sc_msg_data ms;
          tmp_msg_size = ms_sc_msg_size ms; len_msg_data = unat tmp_msg_size
      in if \<not> CHECK_REF_POINTER e (fst pms) 56 then ((SGX_ERROR_INVALID_PARAMETER, ms), s)
         else if \<not> CHECK_UNIQUE_POINTER e (fst tmp_p_args) sizeof_call_args then ((SGX_ERROR_INVALID_PARAMETER, ms), s)
         else if \<not> CHECK_UNIQUE_POINTER e (fst tmp_msg_header) sizeof_header then ((SGX_ERROR_INVALID_PARAMETER, ms), s)
         else if \<not> CHECK_UNIQUE_POINTER e (fst tmp_msg_data) len_msg_data then ((SGX_ERROR_INVALID_PARAMETER, ms), s)
         else
           let ((status, in_p_args), s) = copy_in t tmp_p_args sizeof_call_args s
           in if status \<noteq> SGX_SUCCESS then ((status, ms), free_ptr t in_p_args s)
              else
                let ((status, in_msg_header), s) = copy_in t tmp_msg_header sizeof_header s
                in if status \<noteq> SGX_SUCCESS then ((status, ms), free_ptr t in_msg_header (free_ptr t in_p_args s))
                   else
                     let ((status, in_msg_data), s) = copy_in t tmp_msg_data len_msg_data s
                     in if status \<noteq> SGX_SUCCESS
                        then ((status, ms), free_ptr t in_msg_data (free_ptr t in_msg_header (free_ptr t in_p_args s)))
                        else
                          let ((retval, _), s) = sgxsd_enclave_server_call e (deref in_p_args) (deref in_msg_header) (deref in_msg_data)
                                tmp_msg_size (ms_sc_msg_tag ms) (ms_sc_state_handle ms) s
                          in ((SGX_SUCCESS, ms\<lparr>ms_sc_retval := retval\<rparr>),
                              free_ptr t in_msg_data (free_ptr t in_msg_header (free_ptr t in_p_args s))))"

definition sgx_sgxsd_enclave_server_stop ::
  "'w trts \<Rightarrow> 'w env \<Rightarrow> ms_server_stop ptr \<Rightarrow> 'w sgxsd_state \<Rightarrow> (sgx_status \<times> ms_server_stop) \<times> 'w sgxsd_state" where
  "sgx_sgxsd_enclave_server_stop t e pms s =
     (let ms = snd pms; tmp_p_args = ms_sp_p_args ms
      in if \<not> CHECK_REF_POINTER e (fst pms) 24 then ((SGX_ERROR_INVALID_PARAMETER, ms), s)
         else if \<not> CHECK_UNIQUE_POINTER e (fst tmp_p_args) 24 then ((SGX_ERROR_INVALID_PARAMETER, ms), s)
         else
           let ((status, in_p_args), s) = copy_in t tmp_p_args 24 s
           in if status \<noteq> SGX_SUCCESS then ((status, ms), free_ptr t in_p_args s)
              else
                let (retval, s) = sgxsd_enclave_server_stop e (deref in_p_args) (ms_sp_state_handle ms) s
                in ((SGX_SUCCESS, ms\<lparr>ms_sp_retval := retval\<rparr>), free_ptr t in_p_args s))"

definition sgx_sgxsd_enclave_ratelimit_fingerprint ::
  "'w trts \<Rightarrow> 'w env \<Rightarrow> ms_ratelimit_fingerprint ptr \<Rightarrow> 'w sgxsd_state
    \<Rightarrow> (sgx_status \<times> ms_ratelimit_fingerprint) \<times> 'w sgxsd_state" where
  "sgx_sgxsd_enclave_ratelimit_fingerprint t e pms s =
     (let ms = snd pms; tmp_fingerprint_key = ms_rf_fingerprint_key ms; tmp_msg_header = ms_rf_msg_header ms;
          tmp_msg_data = ms_rf_msg_data ms; tmp_msg_data_size = ms_rf_msg_data_size ms; len_msg_data = unat tmp_msg_data_size;
          tmp_fingerprint = ms_rf_fingerprint ms
      in if \<not> CHECK_REF_POINTER e (fst pms) 64 then ((SGX_ERROR_INVALID_PARAMETER, ms), s)
         else if \<not> CHECK_UNIQUE_POINTER e (fst tmp_fingerprint_key) 32 then ((SGX_ERROR_INVALID_PARAMETER, ms), s)
         else if \<not> CHECK_UNIQUE_POINTER e (fst tmp_msg_header) sizeof_header then ((SGX_ERROR_INVALID_PARAMETER, ms), s)
         else if \<not> CHECK_UNIQUE_POINTER e (fst tmp_msg_data) len_msg_data then ((SGX_ERROR_INVALID_PARAMETER, ms), s)
         else if \<not> CHECK_UNIQUE_POINTER e (fst tmp_fingerprint) 1 then ((SGX_ERROR_INVALID_PARAMETER, ms), s)
         else
           let ((status, in_key), s) = copy_in t tmp_fingerprint_key 32 s
           in if status \<noteq> SGX_SUCCESS then ((status, ms), free_ptr t in_key s)
              else
                let ((status, in_hdr), s) = copy_in t tmp_msg_header sizeof_header s
                in if status \<noteq> SGX_SUCCESS then ((status, ms), free_ptr t in_hdr (free_ptr t in_key s))
                   else
                     let ((status, in_data), s) = copy_in t tmp_msg_data len_msg_data s
                     in if status \<noteq> SGX_SUCCESS then ((status, ms), free_ptr t in_data (free_ptr t in_hdr (free_ptr t in_key s)))
                        else
                          let ((status, in_fp), s) = alloc_out t tmp_fingerprint [0] 1 s
                          in if status \<noteq> SGX_SUCCESS
                             then ((status, ms), free_ptr t in_fp (free_ptr t in_data (free_ptr t in_hdr (free_ptr t in_key s))))
                             else
                               let ((retval, fp), s) = trts_fingerprint t (deref in_key) (deref in_hdr) (deref in_data)
                                     tmp_msg_data_size (ms_rf_msg_tag ms) (deref in_fp) (ms_rf_fingerprint_size ms) s;
                                   (status, p_fp) = copy_out tmp_fingerprint in_fp (map_option (take 1) fp) 1
                               in ((status, ms\<lparr>ms_rf_retval := retval, ms_rf_fingerprint := p_fp\<rparr>),
                                   free_ptr t in_fp (free_ptr t in_data (free_ptr t in_hdr (free_ptr t in_key s)))))"

section \<open>The outgoing call\<close>

text \<open>
  The region \<open>sgx_ocalloc\<close> gives in host memory holds the structure, then the header, then the data. \<open>retval\<close> is what the
  caller's variable held before.
\<close>

definition sgxsd_ocall_reply_t ::
  "'w trts \<Rightarrow> sgx_status \<Rightarrow> sgxsd_msg_header ptr \<Rightarrow> bytes ptr \<Rightarrow> u64 \<Rightarrow> u64 \<Rightarrow> 'w \<Rightarrow> (sgx_status \<times> sgx_status) \<times> 'w" where
  "sgxsd_ocall_reply_t t retval reply_header reply_data reply_data_size msg_tag w =
     (let len_reply_header = of_nat sizeof_header; len_reply_data = reply_data_size; ocalloc_size = 40
      in if \<not> CHECK_ENCLAVE_POINTER t (fst reply_header) (unat len_reply_header) then ((SGX_ERROR_INVALID_PARAMETER, retval), w)
         else if \<not> CHECK_ENCLAVE_POINTER t (fst reply_data) (unat len_reply_data) then ((SGX_ERROR_INVALID_PARAMETER, retval), w)
         else
           let (o1, ocalloc_size) = ADD_ASSIGN_OVERFLOW ocalloc_size (if fst reply_header \<noteq> 0 then len_reply_header else 0)
           in if o1 then ((SGX_ERROR_INVALID_PARAMETER, retval), w)
              else
                let (o2, ocalloc_size) = ADD_ASSIGN_OVERFLOW ocalloc_size (if fst reply_data \<noteq> 0 then len_reply_data else 0)
                in if o2 then ((SGX_ERROR_INVALID_PARAMETER, retval), w)
                   else
                     let ((tmp, garbage), w) = trts_ocalloc t ocalloc_size w
                     in if tmp = 0 then ((SGX_ERROR_UNEXPECTED, retval), trts_ocfree t w)
                        else
                          let tmp = tmp + 40; ocalloc_size = ocalloc_size - 40
                          in if fst reply_header \<noteq> 0 \<and> memcpy_s tmp (unat ocalloc_size) (fst reply_header) (unat len_reply_header) \<noteq> 0
                             then ((SGX_ERROR_UNEXPECTED, retval), trts_ocfree t w)
                             else
                               let p_header = (if fst reply_header \<noteq> 0 then tmp else 0, snd reply_header);
                                   (tmp, ocalloc_size) = (if fst reply_header \<noteq> 0
                                      then (tmp + len_reply_header, ocalloc_size - len_reply_header) else (tmp, ocalloc_size))
                               in if fst reply_data \<noteq> 0 \<and> memcpy_s tmp (unat ocalloc_size) (fst reply_data) (unat len_reply_data) \<noteq> 0
                                  then ((SGX_ERROR_UNEXPECTED, retval), trts_ocfree t w)
                                  else
                                    let ms = \<lparr>ms_reply_retval = garbage, ms_reply_header = p_header,
                                          ms_reply_data = (if fst reply_data \<noteq> 0 then tmp else 0, snd reply_data),
                                          ms_reply_data_size = reply_data_size, ms_reply_msg_tag = msg_tag\<rparr>;
                                        ((status, ms), w) = trts_ocall t 0 ms w;
                                        retval = (if status = SGX_SUCCESS then ms_reply_retval ms else retval)
                                    in ((status, retval), trts_ocfree t w))"

section \<open>Dispatch\<close>

text \<open>
  What the host can call: an entry of \<open>g_ecall_table\<close> with the structure that the bridge finds at the address it is
  given.
\<close>

datatype marshalled =
    MS_node_init ms_node_init
  | MS_get_next_report ms_get_next_report
  | MS_set_current_quote ms_set_current_quote
  | MS_negotiate_request ms_negotiate_request
  | MS_server_start ms_server_start
  | MS_server_call ms_server_call
  | MS_server_stop ms_server_stop
  | MS_ratelimit_fingerprint ms_ratelimit_fingerprint

fun g_ecall_table :: "'w trts \<Rightarrow> 'w env \<Rightarrow> u64 \<Rightarrow> marshalled \<Rightarrow> 'w sgxsd_state \<Rightarrow> (sgx_status \<times> marshalled) \<times> 'w sgxsd_state" where
  "g_ecall_table t e a (MS_node_init ms) s = apfst (apsnd MS_node_init) (sgx_sgxsd_enclave_node_init t e (a, ms) s)"
| "g_ecall_table t e a (MS_get_next_report ms) s = apfst (apsnd MS_get_next_report) (sgx_sgxsd_enclave_get_next_report t e (a, ms) s)"
| "g_ecall_table t e a (MS_set_current_quote ms) s = apfst (apsnd MS_set_current_quote) (sgx_sgxsd_enclave_set_current_quote e (a, ms) s)"
| "g_ecall_table t e a (MS_negotiate_request ms) s = apfst (apsnd MS_negotiate_request) (sgx_sgxsd_enclave_negotiate_request t e (a, ms) s)"
| "g_ecall_table t e a (MS_server_start ms) s = apfst (apsnd MS_server_start) (sgx_sgxsd_enclave_server_start t e (a, ms) s)"
| "g_ecall_table t e a (MS_server_call ms) s = apfst (apsnd MS_server_call) (sgx_sgxsd_enclave_server_call t e (a, ms) s)"
| "g_ecall_table t e a (MS_server_stop ms) s = apfst (apsnd MS_server_stop) (sgx_sgxsd_enclave_server_stop t e (a, ms) s)"
| "g_ecall_table t e a (MS_ratelimit_fingerprint ms) s =
     apfst (apsnd MS_ratelimit_fingerprint) (sgx_sgxsd_enclave_ratelimit_fingerprint t e (a, ms) s)"

section \<open>Specification\<close>

text \<open>The memory of the host that a call touches.\<close>

fun ms_size :: "marshalled \<Rightarrow> nat" where
  "ms_size (MS_node_init ms) = 16"
| "ms_size (MS_get_next_report ms) = 528"
| "ms_size (MS_set_current_quote ms) = 4"
| "ms_size (MS_negotiate_request ms) = 24"
| "ms_size (MS_server_start ms) = 24"
| "ms_size (MS_server_call ms) = 56"
| "ms_size (MS_server_stop ms) = 24"
| "ms_size (MS_ratelimit_fingerprint ms) = 64"

fun host_regions :: "marshalled \<Rightarrow> (u64 \<times> nat) list" where
  "host_regions (MS_node_init ms) = [(fst (ms_ni_p_args ms), 1)]"
| "host_regions (MS_get_next_report ms) = [(fst (ms_nr_p_report ms), 432)]"
| "host_regions (MS_set_current_quote ms) = []"
| "host_regions (MS_negotiate_request ms) = [(fst (ms_ng_p_request ms), 32), (fst (ms_ng_p_response ms), 128)]"
| "host_regions (MS_server_start ms) = [(fst (ms_st_p_args ms), 8)]"
| "host_regions (MS_server_call ms) =
     [(fst (ms_sc_p_args ms), 104), (fst (ms_sc_msg_header ms), 64), (fst (ms_sc_msg_data ms), unat (ms_sc_msg_size ms))]"
| "host_regions (MS_server_stop ms) = [(fst (ms_sp_p_args ms), 24)]"
| "host_regions (MS_ratelimit_fingerprint ms) =
     [(fst (ms_rf_fingerprint_key ms), 32), (fst (ms_rf_msg_header ms), 64), (fst (ms_rf_msg_data ms), unat (ms_rf_msg_data_size ms)),
      (fst (ms_rf_fingerprint ms), 1)]"

definition pointers_ok :: "'w env \<Rightarrow> u64 \<Rightarrow> marshalled \<Rightarrow> bool" where
  "pointers_ok e a m \<longleftrightarrow> CHECK_REF_POINTER e a (ms_size m) \<and> list_all (\<lambda>(p, n). CHECK_UNIQUE_POINTER e p n) (host_regions m)"

text \<open>What a call is to do: run the entry point on what the pointers point to, store the return value and the results.\<close>

definition store :: "'a ptr \<Rightarrow> 'a option \<Rightarrow> 'a ptr" where
  "store p v = (case v of None \<Rightarrow> p | Some x \<Rightarrow> if fst p = 0 then p else (fst p, x))"

fun marshalled_call :: "'w env \<Rightarrow> marshalled \<Rightarrow> 'w sgxsd_state \<Rightarrow> marshalled \<times> 'w sgxsd_state" where
  "marshalled_call e (MS_node_init ms) s =
     (let (r, s) = sgxsd_enclave_node_init e (deref (ms_ni_p_args ms)) s in (MS_node_init (ms\<lparr>ms_ni_retval := r\<rparr>), s))"
| "marshalled_call e (MS_get_next_report ms) s =
     (let ((r, rep), s) = sgxsd_enclave_get_next_report e (ms_nr_qe_target_info ms)
        (map_option (\<lambda>_. replicate 432 0) (deref (ms_nr_p_report ms))) s
      in (MS_get_next_report (ms\<lparr>ms_nr_retval := r, ms_nr_p_report := store (ms_nr_p_report ms) rep\<rparr>), s))"
| "marshalled_call e (MS_set_current_quote ms) s =
     (let (r, s) = sgxsd_enclave_set_current_quote s in (MS_set_current_quote (ms\<lparr>ms_cq_retval := r\<rparr>), s))"
| "marshalled_call e (MS_negotiate_request ms) s =
     (let ((r, resp), s) = sgxsd_enclave_negotiate_request e (deref (ms_ng_p_request ms))
        (map_option (\<lambda>_. zero_response) (deref (ms_ng_p_response ms))) s
      in (MS_negotiate_request (ms\<lparr>ms_ng_retval := r, ms_ng_p_response := store (ms_ng_p_response ms) resp\<rparr>), s))"
| "marshalled_call e (MS_server_start ms) s =
     (let (r, s) = sgxsd_enclave_server_start e (deref (ms_st_p_args ms)) (ms_st_state_handle ms) s
      in (MS_server_start (ms\<lparr>ms_st_retval := r\<rparr>), s))"
| "marshalled_call e (MS_server_call ms) s =
     (let ((r, _), s) = sgxsd_enclave_server_call e (deref (ms_sc_p_args ms)) (deref (ms_sc_msg_header ms))
        (if ms_sc_msg_size ms = 0 then None else deref (ms_sc_msg_data ms)) (ms_sc_msg_size ms) (ms_sc_msg_tag ms) (ms_sc_state_handle ms) s
      in (MS_server_call (ms\<lparr>ms_sc_retval := r\<rparr>), s))"
| "marshalled_call e (MS_server_stop ms) s =
     (let (r, s) = sgxsd_enclave_server_stop e (deref (ms_sp_p_args ms)) (ms_sp_state_handle ms) s
      in (MS_server_stop (ms\<lparr>ms_sp_retval := r\<rparr>), s))"
| "marshalled_call e (MS_ratelimit_fingerprint ms) s = (MS_ratelimit_fingerprint ms, s)"

fun is_fingerprint :: "marshalled \<Rightarrow> bool" where
  "is_fingerprint (MS_ratelimit_fingerprint ms) = True"
| "is_fingerprint _ = False"

definition malloc_fails :: "'w trts \<Rightarrow> bool" where
  "malloc_fails t \<longleftrightarrow> (\<exists>n w. fst (trts_malloc t n w) = 0)"

text \<open>
  The outcomes of a call whose pointers are in order: what it is to do, done in a state that differs only outside the enclave; or no
  memory, and nothing done.
\<close>

definition bridge_done :: "'w env \<Rightarrow> marshalled \<Rightarrow> 'w sgxsd_state \<Rightarrow> (sgx_status \<times> marshalled) \<times> 'w sgxsd_state \<Rightarrow> bool" where
  "bridge_done e m s out \<longleftrightarrow> (\<exists>w w' m' s'. marshalled_call e m (s\<lparr>world := w\<rparr>) = (m', s') \<and> out = ((SGX_SUCCESS, m'), s'\<lparr>world := w'\<rparr>))"

definition bridge_oom :: "'w trts \<Rightarrow> marshalled \<Rightarrow> 'w sgxsd_state \<Rightarrow> (sgx_status \<times> marshalled) \<times> 'w sgxsd_state \<Rightarrow> bool" where
  "bridge_oom t m s out \<longleftrightarrow> malloc_fails t \<and> (\<exists>w. out = ((SGX_ERROR_OUT_OF_MEMORY, m), s\<lparr>world := w\<rparr>))"

lemmas sizeof_defs = sizeof_report_def sizeof_header_def sizeof_request_def sizeof_response_def sizeof_call_args_def
  SGXSD_AES_GCM_IV_SIZE_def SGXSD_AES_GCM_MAC_SIZE_def SGXSD_CURVE25519_KEY_SIZE_def SGXSD_SHA256_HASH_SIZE_def

definition free_world :: "'w trts \<Rightarrow> 'a ptr \<Rightarrow> 'w \<Rightarrow> 'w" where
  "free_world t p w = (if fst p \<noteq> 0 then trts_free t (fst p) w else w)"

lemma free_ptr_world: "free_ptr t p s = s\<lparr>world := free_world t p (world s)\<rparr>"
  by (simp add: free_ptr_def free_world_def)

lemma world_self [simp]: "s\<lparr>world := world s\<rparr> = s"
  by (cases s) simp

lemma memcpy_s_ok: "dst \<noteq> 0 \<Longrightarrow> src \<noteq> 0 \<Longrightarrow> count \<le> dst_size \<Longrightarrow> memcpy_s dst dst_size src count = 0"
  by (simp add: memcpy_s_def)

lemma copy_in_cases:
  obtains (ok) p w where "copy_in t tmp len s = ((SGX_SUCCESS, p), s\<lparr>world := w\<rparr>)" "deref p = (if len = 0 then None else deref tmp)"
  | (oom) p w where "copy_in t tmp len s = ((SGX_ERROR_OUT_OF_MEMORY, p), s\<lparr>world := w\<rparr>)" "malloc_fails t"
proof (cases "fst tmp \<noteq> 0 \<and> len \<noteq> 0")
  case True
  obtain p w where m: "trts_malloc t len (world s) = (p, w)" by (cases "trts_malloc t len (world s)")
  show thesis
  proof (cases "p = 0")
    case True
    moreover have "malloc_fails t" unfolding malloc_fails_def using True m by (metis fst_conv)
    ultimately show thesis using m \<open>fst tmp \<noteq> 0 \<and> len \<noteq> 0\<close> by (intro oom) (auto simp: copy_in_def)
  next
    case False
    then show thesis using m True by (intro ok) (auto simp: copy_in_def memcpy_s_ok deref_def)
  qed
next
  case False
  then show thesis by (intro ok [of _ "world s"]) (auto simp: copy_in_def deref_def)
qed

lemma alloc_out_cases:
  obtains (ok) p w where "alloc_out t tmp zero len s = ((SGX_SUCCESS, p), s\<lparr>world := w\<rparr>)" "fst p = 0 \<longleftrightarrow> fst tmp = 0 \<or> len = 0"
      "deref p = (if len = 0 then None else map_option (\<lambda>_. zero) (deref tmp))"
  | (oom) p w where "alloc_out t tmp zero len s = ((SGX_ERROR_OUT_OF_MEMORY, p), s\<lparr>world := w\<rparr>)" "malloc_fails t"
proof (cases "fst tmp \<noteq> 0 \<and> len \<noteq> 0")
  case True
  obtain p w where m: "trts_malloc t len (world s) = (p, w)" by (cases "trts_malloc t len (world s)")
  show thesis
  proof (cases "p = 0")
    case True
    moreover have "malloc_fails t" unfolding malloc_fails_def using True m by (metis fst_conv)
    ultimately show thesis using m \<open>fst tmp \<noteq> 0 \<and> len \<noteq> 0\<close> by (intro oom) (auto simp: alloc_out_def)
  next
    case False
    then show thesis using m True by (intro ok [of "(p, zero)" w]) (auto simp: alloc_out_def deref_def)
  qed
next
  case False
  then show thesis by (intro ok [of "(0, zero)" "world s"]) (auto simp: alloc_out_def deref_def)
qed

lemma alloc_out_ok:
  assumes "\<not> malloc_fails t" "len \<noteq> 0"
  shows "\<exists>p w. alloc_out t tmp zero len s = ((SGX_SUCCESS, p), s\<lparr>world := w\<rparr>) \<and> (fst p = 0 \<longleftrightarrow> fst tmp = 0)
    \<and> deref p = map_option (\<lambda>_. zero) (deref tmp)"
proof (cases rule: alloc_out_cases [of t tmp zero len s])
  case (ok p w)
  then show ?thesis using assms(2) by (intro exI [of _ p] exI [of _ w]) simp
qed (use assms in simp)

lemma copy_out_ok: "fst inp = 0 \<longleftrightarrow> fst tmp = 0 \<Longrightarrow> copy_out tmp inp v len = (SGX_SUCCESS, store tmp v)"
  by (auto simp: copy_out_def store_def memcpy_s_ok split: option.splits)

lemma bridge_doneI: "marshalled_call e m (s\<lparr>world := w\<rparr>) = (m', s') \<Longrightarrow> bridge_done e m s ((SGX_SUCCESS, m'), s'\<lparr>world := w'\<rparr>)"
  unfolding bridge_done_def by blast

lemma bridge_oomI: "malloc_fails t \<Longrightarrow> bridge_oom t m s ((SGX_ERROR_OUT_OF_MEMORY, m), s\<lparr>world := w\<rparr>)"
  unfolding bridge_oom_def by blast

lemmas bridge_simps = pointers_ok_def sizeof_defs Let_def free_ptr_world

definition bridged :: "'w trts \<Rightarrow> 'w env \<Rightarrow> u64 \<Rightarrow> marshalled \<Rightarrow> 'w sgxsd_state \<Rightarrow> bool" where
  "bridged t e a m s \<longleftrightarrow> bridge_done e m s (g_ecall_table t e a m s) \<or> bridge_oom t m s (g_ecall_table t e a m s)"

lemma bridged_doneI:
  assumes "marshalled_call e m (s\<lparr>world := w\<rparr>) = (m', s')" "g_ecall_table t e a m s = ((SGX_SUCCESS, m'), s'\<lparr>world := w'\<rparr>)"
  shows "bridged t e a m s"
  using assms by (simp add: bridged_def bridge_doneI)

lemma bridged_oomI:
  assumes "malloc_fails t" "g_ecall_table t e a m s = ((SGX_ERROR_OUT_OF_MEMORY, m), s\<lparr>world := w\<rparr>)"
  shows "bridged t e a m s"
  using assms by (simp add: bridged_def bridge_oomI)

lemma node_init_bridge:
  assumes "pointers_ok e a (MS_node_init ms)"
  shows "bridged t e a (MS_node_init ms) s"
proof (cases rule: copy_in_cases [of t "ms_ni_p_args ms" 1 s])
  case (ok p w)
  obtain r s' where c: "sgxsd_enclave_node_init e (deref (ms_ni_p_args ms)) (s\<lparr>world := w\<rparr>) = (r, s')" by (metis prod.collapse)
  show ?thesis by (rule bridged_doneI [where w = w])
    (use assms ok c in \<open>simp_all add: sgx_sgxsd_enclave_node_init_def bridge_simps\<close>)
next
  case (oom p w)
  show ?thesis by (rule bridged_oomI) (use assms oom in \<open>simp_all add: sgx_sgxsd_enclave_node_init_def bridge_simps\<close>)
qed

lemma get_next_report_bridge:
  assumes "pointers_ok e a (MS_get_next_report ms)"
  shows "bridged t e a (MS_get_next_report ms) s"
proof (cases rule: alloc_out_cases [of t "ms_nr_p_report ms" "replicate 432 0" 432 s])
  case (ok p w)
  obtain r rep s' where c: "sgxsd_enclave_get_next_report e (ms_nr_qe_target_info ms)
      (map_option (\<lambda>_. replicate 432 0) (deref (ms_nr_p_report ms))) (s\<lparr>world := w\<rparr>) = ((r, rep), s')" by (metis prod.collapse)
  show ?thesis by (rule bridged_doneI [where w = w])
    (use assms ok c in \<open>simp_all add: sgx_sgxsd_enclave_get_next_report_def bridge_simps copy_out_ok\<close>)
next
  case (oom p w)
  show ?thesis by (rule bridged_oomI) (use assms oom in \<open>simp_all add: sgx_sgxsd_enclave_get_next_report_def bridge_simps\<close>)
qed

lemma set_current_quote_bridge:
  assumes "pointers_ok e a (MS_set_current_quote ms)"
  shows "bridged t e a (MS_set_current_quote ms) s"
proof -
  obtain r s' where c: "sgxsd_enclave_set_current_quote s = (r, s')" by (metis prod.collapse)
  show ?thesis by (rule bridged_doneI [where w = "world s" and w' = "world s'" and s' = s' and m' = "MS_set_current_quote (ms\<lparr>ms_cq_retval := r\<rparr>)"])
    (use assms c in \<open>simp_all add: sgx_sgxsd_enclave_set_current_quote_def bridge_simps\<close>)
qed

lemma negotiate_request_bridge:
  assumes "pointers_ok e a (MS_negotiate_request ms)"
  shows "bridged t e a (MS_negotiate_request ms) s"
proof (cases rule: copy_in_cases [of t "ms_ng_p_request ms" 32 s])
  case (ok p w)
  note req = ok
  show ?thesis
  proof (cases rule: alloc_out_cases [of t "ms_ng_p_response ms" zero_response 128 "s\<lparr>world := w\<rparr>"])
    case (ok p' w')
    obtain r resp s' where c: "sgxsd_enclave_negotiate_request e (deref (ms_ng_p_request ms))
        (map_option (\<lambda>_. zero_response) (deref (ms_ng_p_response ms))) (s\<lparr>world := w'\<rparr>) = ((r, resp), s')" by (metis prod.collapse)
    show ?thesis by (rule bridged_doneI [where w = w'])
      (use assms req ok c in \<open>simp_all add: sgx_sgxsd_enclave_negotiate_request_def bridge_simps copy_out_ok\<close>)
  next
    case (oom p' w')
    show ?thesis by (rule bridged_oomI)
      (use assms req oom in \<open>simp_all add: sgx_sgxsd_enclave_negotiate_request_def bridge_simps\<close>)
  qed
next
  case (oom p w)
  show ?thesis by (rule bridged_oomI) (use assms oom in \<open>simp_all add: sgx_sgxsd_enclave_negotiate_request_def bridge_simps\<close>)
qed

lemma server_start_bridge:
  assumes "pointers_ok e a (MS_server_start ms)"
  shows "bridged t e a (MS_server_start ms) s"
proof (cases rule: copy_in_cases [of t "ms_st_p_args ms" 8 s])
  case (ok p w)
  obtain r s' where c: "sgxsd_enclave_server_start e (deref (ms_st_p_args ms)) (ms_st_state_handle ms) (s\<lparr>world := w\<rparr>) = (r, s')"
    by (metis prod.collapse)
  show ?thesis by (rule bridged_doneI [where w = w])
    (use assms ok c in \<open>simp_all add: sgx_sgxsd_enclave_server_start_def bridge_simps\<close>)
next
  case (oom p w)
  show ?thesis by (rule bridged_oomI) (use assms oom in \<open>simp_all add: sgx_sgxsd_enclave_server_start_def bridge_simps\<close>)
qed

lemma server_stop_bridge:
  assumes "pointers_ok e a (MS_server_stop ms)"
  shows "bridged t e a (MS_server_stop ms) s"
proof (cases rule: copy_in_cases [of t "ms_sp_p_args ms" 24 s])
  case (ok p w)
  obtain r s' where c: "sgxsd_enclave_server_stop e (deref (ms_sp_p_args ms)) (ms_sp_state_handle ms) (s\<lparr>world := w\<rparr>) = (r, s')"
    by (metis prod.collapse)
  show ?thesis by (rule bridged_doneI [where w = w])
    (use assms ok c in \<open>simp_all add: sgx_sgxsd_enclave_server_stop_def bridge_simps\<close>)
next
  case (oom p w)
  show ?thesis by (rule bridged_oomI) (use assms oom in \<open>simp_all add: sgx_sgxsd_enclave_server_stop_def bridge_simps\<close>)
qed

lemma server_call_bridge:
  assumes "pointers_ok e a (MS_server_call ms)"
  shows "bridged t e a (MS_server_call ms) s"
proof (cases rule: copy_in_cases [of t "ms_sc_p_args ms" 104 s])
  case (ok p w)
  note args = ok
  show ?thesis
  proof (cases rule: copy_in_cases [of t "ms_sc_msg_header ms" 64 "s\<lparr>world := w\<rparr>"])
    case (ok p' w')
    note hdr = ok
    show ?thesis
    proof (cases rule: copy_in_cases [of t "ms_sc_msg_data ms" "unat (ms_sc_msg_size ms)" "s\<lparr>world := w'\<rparr>"])
      case (ok p'' w'')
      obtain r d s' where c: "sgxsd_enclave_server_call e (deref (ms_sc_p_args ms)) (deref (ms_sc_msg_header ms))
          (if ms_sc_msg_size ms = 0 then None else deref (ms_sc_msg_data ms)) (ms_sc_msg_size ms) (ms_sc_msg_tag ms)
          (ms_sc_state_handle ms) (s\<lparr>world := w''\<rparr>) = ((r, d), s')" by (metis prod.collapse)
      have d: "deref p'' = (if ms_sc_msg_size ms = 0 then None else deref (ms_sc_msg_data ms))"
        using ok by (simp add: unat_eq_0)
      show ?thesis by (rule bridged_doneI [where w = w''])
        (use assms args hdr ok(1) d c in \<open>simp_all add: sgx_sgxsd_enclave_server_call_def bridge_simps split del: if_split\<close>)
    next
      case (oom p'' w'')
      show ?thesis by (rule bridged_oomI)
        (use assms args hdr oom in \<open>simp_all add: sgx_sgxsd_enclave_server_call_def bridge_simps\<close>)
    qed
  next
    case (oom p' w')
    show ?thesis by (rule bridged_oomI) (use assms args oom in \<open>simp_all add: sgx_sgxsd_enclave_server_call_def bridge_simps\<close>)
  qed
next
  case (oom p w)
  show ?thesis by (rule bridged_oomI) (use assms oom in \<open>simp_all add: sgx_sgxsd_enclave_server_call_def bridge_simps\<close>)
qed

lemma bridge_ok: "pointers_ok e a m \<Longrightarrow> \<not> is_fingerprint m \<Longrightarrow> bridged t e a m s"
  using node_init_bridge get_next_report_bridge set_current_quote_bridge negotiate_request_bridge server_start_bridge
    server_call_bridge server_stop_bridge by (cases m) auto

lemma bridge_refused: "\<not> pointers_ok e a m \<Longrightarrow> g_ecall_table t e a m s = ((SGX_ERROR_INVALID_PARAMETER, m), s)"
  by (cases m) (auto simp: pointers_ok_def sizeof_defs Let_def sgx_sgxsd_enclave_node_init_def sgx_sgxsd_enclave_get_next_report_def
      sgx_sgxsd_enclave_set_current_quote_def sgx_sgxsd_enclave_negotiate_request_def sgx_sgxsd_enclave_server_start_def
      sgx_sgxsd_enclave_server_call_def sgx_sgxsd_enclave_server_stop_def sgx_sgxsd_enclave_ratelimit_fingerprint_def)

text \<open>The call that a structure stands for, in the sense of \<open>run_ecall\<close>.\<close>

fun ecall_of :: "marshalled \<Rightarrow> ecall" where
  "ecall_of (MS_node_init ms) = Node_init (deref (ms_ni_p_args ms))"
| "ecall_of (MS_get_next_report ms) = Get_next_report (ms_nr_qe_target_info ms) (map_option (\<lambda>_. replicate 432 0) (deref (ms_nr_p_report ms)))"
| "ecall_of (MS_set_current_quote ms) = Set_current_quote"
| "ecall_of (MS_negotiate_request ms) =
     Negotiate_request (deref (ms_ng_p_request ms)) (map_option (\<lambda>_. zero_response) (deref (ms_ng_p_response ms)))"
| "ecall_of (MS_server_start ms) = Server_start (deref (ms_st_p_args ms)) (ms_st_state_handle ms)"
| "ecall_of (MS_server_call ms) = Server_call (deref (ms_sc_p_args ms)) (deref (ms_sc_msg_header ms))
     (if ms_sc_msg_size ms = 0 then None else deref (ms_sc_msg_data ms)) (ms_sc_msg_size ms) (ms_sc_msg_tag ms) (ms_sc_state_handle ms)"
| "ecall_of (MS_server_stop ms) = Server_stop (deref (ms_sp_p_args ms)) (ms_sp_state_handle ms)"
| "ecall_of (MS_ratelimit_fingerprint ms) = Set_current_quote"

fun retval_of :: "marshalled \<Rightarrow> sgx_status" where
  "retval_of (MS_node_init ms) = ms_ni_retval ms"
| "retval_of (MS_get_next_report ms) = ms_nr_retval ms"
| "retval_of (MS_set_current_quote ms) = ms_cq_retval ms"
| "retval_of (MS_negotiate_request ms) = ms_ng_retval ms"
| "retval_of (MS_server_start ms) = ms_st_retval ms"
| "retval_of (MS_server_call ms) = ms_sc_retval ms"
| "retval_of (MS_server_stop ms) = ms_sp_retval ms"
| "retval_of (MS_ratelimit_fingerprint ms) = ms_rf_retval ms"

lemma marshalled_call_ecall:
  "\<not> is_fingerprint m \<Longrightarrow> marshalled_call e m s = (m', s') \<Longrightarrow> run_ecall e (ecall_of m) s = (retval_of m', s')"
  by (cases m) (auto simp: Let_def split: prod.splits)

text \<open>The structures behind the pointers have the sizes of their types; for the request structure and the headers that is what \<open>wf_ecall\<close> asks.\<close>

definition wf_marshalled :: "marshalled \<Rightarrow> bool" where
  "wf_marshalled m \<longleftrightarrow> wf_ecall (ecall_of m)"

lemma steps_marshalled:
  assumes st: "steps e s0 s" and m: "\<not> is_fingerprint m" "wf_marshalled m" and c: "g_last_pending_request_id_val s \<noteq> - 1"
    and run: "marshalled_call e m (s\<lparr>world := w\<rparr>) = (m', s')"
  shows "steps e s0 (s'\<lparr>world := w'\<rparr>)"
proof -
  have "steps e s0 (s\<lparr>world := w\<rparr>)" by (rule steps.host [OF st])
  then have "steps e s0 s'"
    by (rule steps.call [OF _ m(2) [unfolded wf_marshalled_def] _ marshalled_call_ecall [OF m(1) run]]) (simp add: c)
  then show ?thesis by (rule steps.host)
qed

lemma steps_bridge:
  assumes st: "steps e s0 s" and m: "\<not> is_fingerprint m" "wf_marshalled m" and c: "g_last_pending_request_id_val s \<noteq> - 1"
    and run: "g_ecall_table t e a m s = ((status, m'), s')"
  shows "steps e s0 s'"
proof (cases "pointers_ok e a m")
  case True
  have "bridge_done e m s ((status, m'), s') \<or> bridge_oom t m s ((status, m'), s')"
    using bridge_ok [OF True m(1), of t s] by (simp add: bridged_def run)
  then show ?thesis using steps_marshalled [OF st m c] steps.host [OF st]
    by (auto simp: bridge_done_def bridge_oom_def)
next
  case False
  then show ?thesis using bridge_refused [OF False, of t s] st run by simp
qed

lemma unat_add_small: "unat a + unat b < 2 ^ 64 \<Longrightarrow> unat (a + b :: u64) = unat a + unat b"
  by (simp add: unat_word_ariths)

lemma add_wraps: "(a + b :: u64) < b \<longleftrightarrow> 2 ^ 64 \<le> unat a + unat b"
proof (cases "unat a + unat b < 2 ^ 64")
  case True
  then show ?thesis by (simp add: word_less_nat_alt unat_add_small)
next
  case False
  have "unat (a + b) = unat a + unat b - 2 ^ 64"
    using False unat_bound [of a] unat_bound [of b] by (simp add: unat_word_ariths le_mod_geq)
  then show ?thesis using False unat_bound [of a] by (simp add: word_less_nat_alt)
qed

lemma add_nonzero: "p \<noteq> 0 \<Longrightarrow> unat p + unat k < 2 ^ 64 \<Longrightarrow> (p + k :: u64) \<noteq> 0"
  using unat_add_small [of p k] by (metis add_is_0 unat_0 unat_eq_zero)

section \<open>A runtime for the examples\<close>

definition demo_trts :: "nat trts" where
  "demo_trts = \<lparr>
     trts_malloc = (\<lambda>n w. (4096, w + 1)), trts_free = (\<lambda>p w. w), trts_is_within_enclave = (\<lambda>p n. 1),
     trts_ocalloc = (\<lambda>n w. ((if n < 1000 then 65536 else 0, SGX_ERROR_UNEXPECTED), w + 1)), trts_ocfree = (\<lambda>w. w),
     trts_ocall = (\<lambda>i ms w. ((SGX_SUCCESS, ms\<lparr>ms_reply_retval := SGX_SUCCESS\<rparr>), w + 1)),
     trts_fingerprint = (\<lambda>k h d n tag fp m s. ((SGX_SUCCESS, fp), s))\<rparr>"

definition demo_start :: marshalled where
  "demo_start = MS_server_start \<lparr>ms_st_retval = SGX_ERROR_UNEXPECTED,
     ms_st_p_args = (16, \<lparr>max_query_phones = 5, max_ratelimit_states = 0\<rparr>), ms_st_state_handle = 0\<rparr>"

lemma demo_malloc: "\<not> malloc_fails demo_trts"
  by (simp add: malloc_fails_def demo_trts_def)

lemma demo_pointers: "pointers_ok demo_env 8 demo_start" "\<not> is_fingerprint demo_start" "wf_marshalled demo_start"
  by (simp_all add: pointers_ok_def demo_start_def CHECK_REF_POINTER_def CHECK_UNIQUE_POINTER_def demo_env_def wf_marshalled_def)

section \<open>Properties\<close>

text \<open>C12. Seven of the eight bridges, all but the one of the rate-limit fingerprint, refine the entry points. A call is refused, with nothing touched, unless its structure and everything the structure
  points to lie outside the enclave. Otherwise the bridge runs the entry point on copies of what the pointers
  point to and hands back its return value and its results, in the enclave state the entry point leaves;
  the one other outcome is that the enclave has no memory for the copies, and then the entry point is not run.\<close>

theorem bridge_refinement:
  assumes "\<not> is_fingerprint m"
  shows "if pointers_ok e a m
    then bridge_done e m s (g_ecall_table t e a m s) \<or> bridge_oom t m s (g_ecall_table t e a m s)
    else g_ecall_table t e a m s = ((SGX_ERROR_INVALID_PARAMETER, m), s)"
  using bridge_ok [OF _ assms] bridge_refused by (auto simp: bridged_def)

theorem bridge_refinement_witness:
  "bridge_done demo_env demo_start demo_state (g_ecall_table demo_trts demo_env 8 demo_start demo_state)"
  using bridge_refinement [OF demo_pointers(2), of demo_env 8 demo_state demo_trts] demo_pointers demo_malloc
  by (simp add: bridge_oom_def)

text \<open>C23. Whatever the host passes to the seven bridges other than that of the rate-limit fingerprint, in structures of the sizes that C gives them, the enclave
  stays in its invariant: a call through the table leads from a reachable state whose request counter is not at its end to a reachable
  one, which is well-formed, has no lock held and has only issued identifiers live.\<close>

theorem bridge_reachable:
  assumes "reachable e s" "\<not> is_fingerprint m" "wf_marshalled m" "g_last_pending_request_id_val s \<noteq> - 1"
    and "g_ecall_table t e a m s = ((status, m'), s')"
  shows "reachable e s' \<and> enclave_inv s'"
proof -
  have "reachable e s'" using assms(1) steps_bridge [OF _ assms(2-5)] unfolding reachable_def by blast
  then show ?thesis using reachable_inv by blast
qed

theorem bridge_reachable_witness: "enclave_inv (snd (g_ecall_table demo_trts demo_env 8 demo_start (initial_state 0)))"
proof -
  obtain status m' s' where c: "g_ecall_table demo_trts demo_env 8 demo_start (initial_state 0) = ((status, m'), s')" by (metis prod.collapse)
  have r: "reachable demo_env (initial_state 0)" unfolding reachable_def using steps.start by blast
  have g: "g_last_pending_request_id_val (initial_state 0) \<noteq> - 1" by (simp add: initial_state_def)
  show ?thesis using bridge_reachable [OF r demo_pointers(2,3) g c] by (simp add: c)
qed

text \<open>C24. The outgoing call. For a header and data that lie in the enclave, a reply whose size does not fit in 64 bits together with
  the structure and the header is refused without a call. Otherwise host memory for exactly the structure, the
  header and the data is taken; the call gets the header 40 bytes into it and the data right behind
  the header, so that the copies stay inside it and do not overlap, and the caller gets the status of the
  call and, if it succeeded, the answer of the host; the memory is given back in every case.\<close>

theorem ocall_reply_bridge:
  assumes inside: "ha \<noteq> 0" "da \<noteq> 0" "trts_is_within_enclave t ha 64 \<noteq> 0" "trts_is_within_enclave t da (unat n) \<noteq> 0"
    and region: "\<forall>n w p g w'. trts_ocalloc t n w = ((p, g), w') \<longrightarrow> p \<noteq> 0 \<longrightarrow> unat p + unat n < 2 ^ 64"
  shows "sgxsd_ocall_reply_t t r (ha, h) (da, d) n tag w =
    (if 2 ^ 64 \<le> 104 + unat n then ((SGX_ERROR_INVALID_PARAMETER, r), w)
     else
       let ((p, g), w) = trts_ocalloc t (104 + n) w
       in if p = 0 then ((SGX_ERROR_UNEXPECTED, r), trts_ocfree t w)
          else
            let ((status, ms), w) = trts_ocall t 0 \<lparr>ms_reply_retval = g, ms_reply_header = (p + 40, h), ms_reply_data = (p + 40 + 64, d),
                  ms_reply_data_size = n, ms_reply_msg_tag = tag\<rparr> w
            in ((status, if status = SGX_SUCCESS then ms_reply_retval ms else r), trts_ocfree t w))"
proof -
  have o1: "ADD_ASSIGN_OVERFLOW 40 64 = (False, 104)" by (simp add: ADD_ASSIGN_OVERFLOW_def)
  have o2: "ADD_ASSIGN_OVERFLOW 104 n = (2 ^ 64 \<le> 104 + unat n, 104 + n)"
    using add_wraps [of 104 n] by (simp add: ADD_ASSIGN_OVERFLOW_def)
  have u: "unat (104 + n) = 104 + unat n" if "\<not> 2 ^ 64 \<le> 104 + unat n" using unat_add_small [of 104 n] that by simp
  have nz: "p + 40 \<noteq> 0" "104 + p \<noteq> 0" if p: "trts_ocalloc t (104 + n) w = ((p, g), w')" "p \<noteq> 0" and n: "\<not> 2 ^ 64 \<le> 104 + unat n" for p g w'
  proof -
    have "unat p + (104 + unat n) < 2 ^ 64" using region p u [OF n] by metis
    then have "unat p + unat (40 :: u64) < 2 ^ 64" "unat p + unat (104 :: u64) < 2 ^ 64" by simp_all
    from add_nonzero [OF p(2) this(1)] add_nonzero [OF p(2) this(2)] show "p + 40 \<noteq> 0" "104 + p \<noteq> 0" by (simp_all add: add.commute)
  qed
  have sz: "104 + n - 40 - 64 = n" "64 \<le> unat (104 + n - 40)" if n: "\<not> 2 ^ 64 \<le> 104 + unat n"
  proof -
    have "104 + n - 40 = 64 + n" by simp
    then show "64 \<le> unat (104 + n - 40)" using unat_add_small [of 64 n] n by simp
  qed simp
  show ?thesis
    using inside nz sz
    by (auto simp: sgxsd_ocall_reply_t_def Let_def CHECK_ENCLAVE_POINTER_def sizeof_defs o1 o2 memcpy_s_ok split: prod.splits)
qed

theorem ocall_reply_bridge_witness:
  "sgxsd_ocall_reply_t demo_trts SGX_ERROR_UNEXPECTED (8, \<lparr>hdr_iv = replicate 12 0, hdr_mac = replicate 16 0, hdr_pending_request_id = zero_prid\<rparr>)
     (16, [1, 2]) 2 7 0 = ((SGX_SUCCESS, SGX_SUCCESS), 2)"
  by (subst ocall_reply_bridge) (simp_all add: demo_trts_def word_less_nat_alt)

text \<open>C25. The bridge of the rate-limit fingerprint gives the entry point a buffer of one byte, whatever size the host has asked
  for, and passes that size on unchecked: an entry point that fills the buffer to the size it is given writes behind the
  end of an allocation of the enclave.\<close>

theorem fingerprint_buffer_size:
  assumes ok: "pointers_ok e a (MS_ratelimit_fingerprint ms)" "\<not> malloc_fails t" "fst (ms_rf_fingerprint ms) \<noteq> 0"
  shows "\<exists>w w' r fp s'. trts_fingerprint t (deref (ms_rf_fingerprint_key ms)) (deref (ms_rf_msg_header ms))
      (if ms_rf_msg_data_size ms = 0 then None else deref (ms_rf_msg_data ms)) (ms_rf_msg_data_size ms) (ms_rf_msg_tag ms)
      (Some [0]) (ms_rf_fingerprint_size ms) (s\<lparr>world := w\<rparr>) = ((r, fp), s')
    \<and> g_ecall_table t e a (MS_ratelimit_fingerprint ms) s = ((SGX_SUCCESS, MS_ratelimit_fingerprint
        (ms\<lparr>ms_rf_retval := r, ms_rf_fingerprint := store (ms_rf_fingerprint ms) (map_option (take 1) fp)\<rparr>)), s'\<lparr>world := w'\<rparr>)"
proof -
  have sizes: "sizeof_header = 64" by (simp add: sizeof_defs)
  have chk: "CHECK_REF_POINTER e a 64" "CHECK_UNIQUE_POINTER e (fst (ms_rf_fingerprint_key ms)) 32"
    "CHECK_UNIQUE_POINTER e (fst (ms_rf_msg_header ms)) 64" "CHECK_UNIQUE_POINTER e (fst (ms_rf_msg_data ms)) (unat (ms_rf_msg_data_size ms))"
    "CHECK_UNIQUE_POINTER e (fst (ms_rf_fingerprint ms)) 1" using ok(1) by (simp_all add: pointers_ok_def)
  obtain p1 w1 where 1: "copy_in t (ms_rf_fingerprint_key ms) 32 s = ((SGX_SUCCESS, p1), s\<lparr>world := w1\<rparr>)"
    "deref p1 = deref (ms_rf_fingerprint_key ms)" using ok(2) by (cases rule: copy_in_cases [of t "ms_rf_fingerprint_key ms" 32 s]) simp_all
  obtain p2 w2 where 2: "copy_in t (ms_rf_msg_header ms) 64 (s\<lparr>world := w1\<rparr>) = ((SGX_SUCCESS, p2), s\<lparr>world := w2\<rparr>)"
    "deref p2 = deref (ms_rf_msg_header ms)" using ok(2) by (cases rule: copy_in_cases [of t "ms_rf_msg_header ms" 64 "s\<lparr>world := w1\<rparr>"]) simp_all
  obtain p3 w3 where 3: "copy_in t (ms_rf_msg_data ms) (unat (ms_rf_msg_data_size ms)) (s\<lparr>world := w2\<rparr>) = ((SGX_SUCCESS, p3), s\<lparr>world := w3\<rparr>)"
    "deref p3 = (if ms_rf_msg_data_size ms = 0 then None else deref (ms_rf_msg_data ms))"
    using ok(2) by (cases rule: copy_in_cases [of t "ms_rf_msg_data ms" "unat (ms_rf_msg_data_size ms)" "s\<lparr>world := w2\<rparr>"])
      (simp_all add: unat_eq_0)
  obtain p4 w4 where 4: "alloc_out t (ms_rf_fingerprint ms) [0] 1 (s\<lparr>world := w3\<rparr>) = ((SGX_SUCCESS, p4), s\<lparr>world := w3\<rparr>\<lparr>world := w4\<rparr>)"
    "fst p4 = 0 \<longleftrightarrow> fst (ms_rf_fingerprint ms) = 0" "deref p4 = map_option (\<lambda>_. [0]) (deref (ms_rf_fingerprint ms))"
    using alloc_out_ok [OF ok(2), of 1 "ms_rf_fingerprint ms" "[0]" "s\<lparr>world := w3\<rparr>"] one_neq_zero by blast
  have d4: "deref p4 = Some [0]" unfolding 4(3) using ok(3) by (simp add: deref_def)
  obtain r fp s' where c: "trts_fingerprint t (deref (ms_rf_fingerprint_key ms)) (deref (ms_rf_msg_header ms))
      (if ms_rf_msg_data_size ms = 0 then None else deref (ms_rf_msg_data ms)) (ms_rf_msg_data_size ms) (ms_rf_msg_tag ms)
      (Some [0]) (ms_rf_fingerprint_size ms) (s\<lparr>world := w3\<rparr>\<lparr>world := w4\<rparr>) = ((r, fp), s')" by (metis prod.collapse)
  have "\<exists>w'. g_ecall_table t e a (MS_ratelimit_fingerprint ms) s = ((SGX_SUCCESS, MS_ratelimit_fingerprint
        (ms\<lparr>ms_rf_retval := r, ms_rf_fingerprint := store (ms_rf_fingerprint ms) (map_option (take 1) fp)\<rparr>)), s'\<lparr>world := w'\<rparr>)"
    unfolding g_ecall_table.simps sgx_sgxsd_enclave_ratelimit_fingerprint_def Let_def fst_conv snd_conv sizes
    by (simp only: chk 1 2 3 4(1) d4 c copy_out_ok [OF 4(2)] prod.case simp_thms if_False if_True apfst_conv apsnd_conv free_ptr_world)
      (rule exI, simp)
  then show ?thesis using c [simplified] by blast
qed

definition demo_fingerprint :: ms_ratelimit_fingerprint where
  "demo_fingerprint = \<lparr>ms_rf_retval = SGX_ERROR_UNEXPECTED, ms_rf_fingerprint_key = (16, replicate 32 0), ms_rf_msg_header = (0, \<lparr>hdr_iv = [],
     hdr_mac = [], hdr_pending_request_id = zero_prid\<rparr>), ms_rf_msg_data = (0, []), ms_rf_msg_data_size = 0, ms_rf_msg_tag = 0,
     ms_rf_fingerprint = (32, replicate 100 0), ms_rf_fingerprint_size = 100\<rparr>"

theorem fingerprint_buffer_size_witness:
  "\<exists>w' s'. g_ecall_table (demo_trts\<lparr>trts_fingerprint := (\<lambda>k h d n tag fp m s. ((SGX_SUCCESS, if fp = Some [0] \<and> m = 100 then Some [1] else fp), s))\<rparr>)
      demo_env 8 (MS_ratelimit_fingerprint demo_fingerprint) demo_state
    = ((SGX_SUCCESS, MS_ratelimit_fingerprint (demo_fingerprint\<lparr>ms_rf_retval := SGX_SUCCESS, ms_rf_fingerprint := (32, [1])\<rparr>)), s'\<lparr>world := w'\<rparr>)"
proof -
  let ?t = "demo_trts\<lparr>trts_fingerprint := (\<lambda>k h d n tag fp m s. ((SGX_SUCCESS, if fp = Some [0] \<and> m = 100 then Some [1] else fp), s))\<rparr>"
  have "\<not> malloc_fails ?t" by (simp add: malloc_fails_def demo_trts_def)
  moreover have "pointers_ok demo_env 8 (MS_ratelimit_fingerprint demo_fingerprint)"
    by (simp add: pointers_ok_def demo_fingerprint_def CHECK_REF_POINTER_def CHECK_UNIQUE_POINTER_def demo_env_def)
  moreover have "fst (ms_rf_fingerprint demo_fingerprint) \<noteq> 0" by (simp add: demo_fingerprint_def)
  ultimately show ?thesis using fingerprint_buffer_size [of demo_env 8 demo_fingerprint ?t demo_state]
    by (auto simp: demo_fingerprint_def store_def)
qed

end
