(* ===== verification/Sgxsd_Host.thy ===== *)
theory Sgxsd_Host imports Sgxsd_Bridge begin

text \<open>
  The untrusted side of the boundary, \<open>include/cds_enclave_u.c\<close>: the proxies that host code calls for the entry points, and the stub
  behind the outgoing call. \<open>sgx_ecall\<close> of the untrusted runtime is a parameter; it is given the number of the
  entry in \<open>g_ecall_table\<close> and a structure on the stack of the proxy, whose return value is not initialised.
\<close>

section \<open>Proxies\<close>

type_synonym 'x sgx_ecall = "u64 \<Rightarrow> nat \<Rightarrow> marshalled \<Rightarrow> 'x \<Rightarrow> (sgx_status \<times> marshalled) \<times> 'x"

text \<open>\<open>if (status == SGX_SUCCESS && retval) *retval = ms.ms_retval\<close>\<close>

definition set_retval :: "sgx_status \<Rightarrow> marshalled \<Rightarrow> sgx_status option \<Rightarrow> sgx_status option" where
  "set_retval status ms retval = (if status = SGX_SUCCESS \<and> retval \<noteq> None then Some (retval_of ms) else retval)"

definition node_init_u ::
  "'x sgx_ecall \<Rightarrow> sgx_status \<Rightarrow> u64 \<Rightarrow> sgx_status option \<Rightarrow> sgxsd_node_init_args ptr \<Rightarrow> 'x \<Rightarrow> (sgx_status \<times> sgx_status option) \<times> 'x" where
  "node_init_u sgx_ecall garbage eid retval p_args x =
     (let ((status, ms), x) = sgx_ecall eid 0 (MS_node_init \<lparr>ms_ni_retval = garbage, ms_ni_p_args = p_args\<rparr>) x
      in ((status, set_retval status ms retval), x))"

text \<open>Where the entry point has results, they are what the host finds behind its pointer afterwards.\<close>

fun report_of :: "bytes ptr \<Rightarrow> marshalled \<Rightarrow> bytes ptr" where
  "report_of p (MS_get_next_report ms) = ms_nr_p_report ms"
| "report_of p _ = p"

fun response_of :: "sgxsd_request_negotiation_response ptr \<Rightarrow> marshalled \<Rightarrow> sgxsd_request_negotiation_response ptr" where
  "response_of p (MS_negotiate_request ms) = ms_ng_p_response ms"
| "response_of p _ = p"

fun fingerprint_of :: "bytes ptr \<Rightarrow> marshalled \<Rightarrow> bytes ptr" where
  "fingerprint_of p (MS_ratelimit_fingerprint ms) = ms_rf_fingerprint ms"
| "fingerprint_of p _ = p"

definition get_next_report_u ::
  "'x sgx_ecall \<Rightarrow> sgx_status \<Rightarrow> u64 \<Rightarrow> sgx_status option \<Rightarrow> bytes \<Rightarrow> bytes ptr \<Rightarrow> 'x
    \<Rightarrow> (sgx_status \<times> sgx_status option \<times> bytes ptr) \<times> 'x" where
  "get_next_report_u sgx_ecall garbage eid retval qe_target_info p_report x =
     (let ((status, ms), x) = sgx_ecall eid 1
        (MS_get_next_report \<lparr>ms_nr_retval = garbage, ms_nr_qe_target_info = qe_target_info, ms_nr_p_report = p_report\<rparr>) x
      in ((status, set_retval status ms retval, report_of p_report ms), x))"

definition set_current_quote_u ::
  "'x sgx_ecall \<Rightarrow> sgx_status \<Rightarrow> u64 \<Rightarrow> sgx_status option \<Rightarrow> 'x \<Rightarrow> (sgx_status \<times> sgx_status option) \<times> 'x" where
  "set_current_quote_u sgx_ecall garbage eid retval x =
     (let ((status, ms), x) = sgx_ecall eid 2 (MS_set_current_quote \<lparr>ms_cq_retval = garbage\<rparr>) x
      in ((status, set_retval status ms retval), x))"

definition negotiate_request_u ::
  "'x sgx_ecall \<Rightarrow> sgx_status \<Rightarrow> u64 \<Rightarrow> sgx_status option \<Rightarrow> sgxsd_request_negotiation_request ptr
    \<Rightarrow> sgxsd_request_negotiation_response ptr \<Rightarrow> 'x
    \<Rightarrow> (sgx_status \<times> sgx_status option \<times> sgxsd_request_negotiation_response ptr) \<times> 'x" where
  "negotiate_request_u sgx_ecall garbage eid retval p_request p_response x =
     (let ((status, ms), x) = sgx_ecall eid 3
        (MS_negotiate_request \<lparr>ms_ng_retval = garbage, ms_ng_p_request = p_request, ms_ng_p_response = p_response\<rparr>) x
      in ((status, set_retval status ms retval, response_of p_response ms), x))"

definition server_start_u ::
  "'x sgx_ecall \<Rightarrow> sgx_status \<Rightarrow> u64 \<Rightarrow> sgx_status option \<Rightarrow> sgxsd_server_init_args ptr \<Rightarrow> u64 \<Rightarrow> 'x
    \<Rightarrow> (sgx_status \<times> sgx_status option) \<times> 'x" where
  "server_start_u sgx_ecall garbage eid retval p_args state_handle x =
     (let ((status, ms), x) = sgx_ecall eid 4
        (MS_server_start \<lparr>ms_st_retval = garbage, ms_st_p_args = p_args, ms_st_state_handle = state_handle\<rparr>) x
      in ((status, set_retval status ms retval), x))"

definition server_call_u ::
  "'x sgx_ecall \<Rightarrow> sgx_status \<Rightarrow> u64 \<Rightarrow> sgx_status option \<Rightarrow> sgxsd_server_handle_call_args ptr \<Rightarrow> sgxsd_msg_header ptr \<Rightarrow> bytes ptr
    \<Rightarrow> u64 \<Rightarrow> u64 \<Rightarrow> u64 \<Rightarrow> 'x \<Rightarrow> (sgx_status \<times> sgx_status option) \<times> 'x" where
  "server_call_u sgx_ecall garbage eid retval p_args msg_header msg_data msg_size msg_tag state_handle x =
     (let ((status, ms), x) = sgx_ecall eid 5
        (MS_server_call \<lparr>ms_sc_retval = garbage, ms_sc_p_args = p_args, ms_sc_msg_header = msg_header, ms_sc_msg_data = msg_data,
           ms_sc_msg_size = msg_size, ms_sc_msg_tag = msg_tag, ms_sc_state_handle = state_handle\<rparr>) x
      in ((status, set_retval status ms retval), x))"

definition server_stop_u ::
  "'x sgx_ecall \<Rightarrow> sgx_status \<Rightarrow> u64 \<Rightarrow> sgx_status option \<Rightarrow> sgxsd_server_terminate_args ptr \<Rightarrow> u64 \<Rightarrow> 'x
    \<Rightarrow> (sgx_status \<times> sgx_status option) \<times> 'x" where
  "server_stop_u sgx_ecall garbage eid retval p_args state_handle x =
     (let ((status, ms), x) = sgx_ecall eid 6
        (MS_server_stop \<lparr>ms_sp_retval = garbage, ms_sp_p_args = p_args, ms_sp_state_handle = state_handle\<rparr>) x
      in ((status, set_retval status ms retval), x))"

definition ratelimit_fingerprint_u ::
  "'x sgx_ecall \<Rightarrow> sgx_status \<Rightarrow> u64 \<Rightarrow> sgx_status option \<Rightarrow> bytes ptr \<Rightarrow> sgxsd_msg_header ptr \<Rightarrow> bytes ptr \<Rightarrow> u64 \<Rightarrow> u64
    \<Rightarrow> bytes ptr \<Rightarrow> u64 \<Rightarrow> 'x \<Rightarrow> (sgx_status \<times> sgx_status option \<times> bytes ptr) \<times> 'x" where
  "ratelimit_fingerprint_u sgx_ecall garbage eid retval fingerprint_key msg_header msg_data msg_data_size msg_tag
      fingerprint fingerprint_size x =
     (let ((status, ms), x) = sgx_ecall eid 7
        (MS_ratelimit_fingerprint \<lparr>ms_rf_retval = garbage, ms_rf_fingerprint_key = fingerprint_key, ms_rf_msg_header = msg_header,
           ms_rf_msg_data = msg_data, ms_rf_msg_data_size = msg_data_size, ms_rf_msg_tag = msg_tag,
           ms_rf_fingerprint = fingerprint, ms_rf_fingerprint_size = fingerprint_size\<rparr>) x
      in ((status, set_retval status ms retval, fingerprint_of fingerprint ms), x))"

text \<open>The stub of the outgoing call; \<open>reply\<close> is the function of the host.\<close>

definition cds_enclave_sgxsd_ocall_reply ::
  "(sgxsd_msg_header option \<Rightarrow> bytes option \<Rightarrow> u64 \<Rightarrow> u64 \<Rightarrow> 'w \<Rightarrow> sgx_status \<times> 'w) \<Rightarrow> ms_ocall_reply \<Rightarrow> 'w
    \<Rightarrow> (sgx_status \<times> ms_ocall_reply) \<times> 'w" where
  "cds_enclave_sgxsd_ocall_reply reply ms w =
     (let (r, w) = reply (deref (ms_reply_header ms)) (deref (ms_reply_data ms)) (ms_reply_data_size ms) (ms_reply_msg_tag ms) w
      in ((SGX_SUCCESS, ms\<lparr>ms_reply_retval := r\<rparr>), w))"

section \<open>Calls across the boundary\<close>

text \<open>
  What the runtime is documented to do with an \<open>sgx_ecall\<close> on a loaded enclave: run the bridge at that position of the
  table on the structure, which lies at \<open>a\<close>.
\<close>

fun ecall_index :: "marshalled \<Rightarrow> nat" where
  "ecall_index (MS_node_init ms) = 0"
| "ecall_index (MS_get_next_report ms) = 1"
| "ecall_index (MS_set_current_quote ms) = 2"
| "ecall_index (MS_negotiate_request ms) = 3"
| "ecall_index (MS_server_start ms) = 4"
| "ecall_index (MS_server_call ms) = 5"
| "ecall_index (MS_server_stop ms) = 6"
| "ecall_index (MS_ratelimit_fingerprint ms) = 7"

definition runs_enclave :: "'w sgxsd_state sgx_ecall \<Rightarrow> u64 \<Rightarrow> u64 \<Rightarrow> 'w trts \<Rightarrow> 'w env \<Rightarrow> bool" where
  "runs_enclave sgx_ecall eid a t e \<longleftrightarrow> (\<forall>m s. sgx_ecall eid (ecall_index m) m s = g_ecall_table t e a m s)"

lemma proxy_call:
  assumes run: "runs_enclave sgx_ecall eid a t e" and ok: "pointers_ok e a m" "\<not> malloc_fails t" "\<not> is_fingerprint m"
  shows "\<exists>w w' m' s'. marshalled_call e m (s\<lparr>world := w\<rparr>) = (m', s') \<and> sgx_ecall eid (ecall_index m) m s = ((SGX_SUCCESS, m'), s'\<lparr>world := w'\<rparr>)"
proof -
  have "sgx_ecall eid (ecall_index m) m s = g_ecall_table t e a m s" using run by (simp add: runs_enclave_def)
  then show ?thesis using bridge_ok [OF ok(1,3), of t s] ok(2) by (auto simp: bridged_def bridge_done_def bridge_oom_def)
qed

lemma negotiate_proxy:
  assumes run: "runs_enclave sgx_ecall eid a t e" "\<not> malloc_fails t" and p: "pa \<noteq> 0" "ra \<noteq> 0"
    and ok: "pointers_ok e a (MS_negotiate_request \<lparr>ms_ng_retval = g, ms_ng_p_request = (pa, req), ms_ng_p_response = (ra, old)\<rparr>)"
  shows "\<exists>w w' r resp s'. sgxsd_enclave_negotiate_request e (Some req) (Some zero_response) (s\<lparr>world := w\<rparr>) = ((r, resp), s')
    \<and> negotiate_request_u sgx_ecall g eid (Some r0) (pa, req) (ra, old) s = ((SGX_SUCCESS, Some r, store (ra, old) resp), s'\<lparr>world := w'\<rparr>)"
proof -
  let ?m = "MS_negotiate_request \<lparr>ms_ng_retval = g, ms_ng_p_request = (pa, req), ms_ng_p_response = (ra, old)\<rparr>"
  have "\<not> is_fingerprint ?m" by simp
  from proxy_call [OF run(1) ok run(2) this, of s] obtain w w' m' s' where c: "marshalled_call e ?m (s\<lparr>world := w\<rparr>) = (m', s')"
    "sgx_ecall eid (ecall_index ?m) ?m s = ((SGX_SUCCESS, m'), s'\<lparr>world := w'\<rparr>)" by blast
  obtain r resp s1 where n: "sgxsd_enclave_negotiate_request e (Some req) (Some zero_response) (s\<lparr>world := w\<rparr>) = ((r, resp), s1)"
    by (metis prod.collapse)
  have "s1 = s'" "retval_of m' = r" "response_of (ra, old) m' = store (ra, old) resp" using c(1) n p by (auto simp: deref_def)
  then have "negotiate_request_u sgx_ecall g eid (Some r0) (pa, req) (ra, old) s = ((SGX_SUCCESS, Some r, store (ra, old) resp), s'\<lparr>world := w'\<rparr>)"
    using c(2) by (simp add: negotiate_request_u_def set_retval_def)
  then show ?thesis using n \<open>s1 = s'\<close> by blast
qed

lemma server_call_proxy:
  assumes run: "runs_enclave sgx_ecall eid a t e" "\<not> malloc_fails t" and p: "aa \<noteq> 0" "ha \<noteq> 0" "da \<noteq> 0" "n \<noteq> 0"
    and ok: "pointers_ok e a (MS_server_call \<lparr>ms_sc_retval = g, ms_sc_p_args = (aa, args), ms_sc_msg_header = (ha, hdr), ms_sc_msg_data = (da, d),
      ms_sc_msg_size = n, ms_sc_msg_tag = tag, ms_sc_state_handle = h\<rparr>)"
  shows "\<exists>w w' r d' s'. sgxsd_enclave_server_call e (Some args) (Some hdr) (Some d) n tag h (s\<lparr>world := w\<rparr>) = ((r, d'), s')
    \<and> server_call_u sgx_ecall g eid (Some r0) (aa, args) (ha, hdr) (da, d) n tag h s = ((SGX_SUCCESS, Some r), s'\<lparr>world := w'\<rparr>)"
proof -
  let ?m = "MS_server_call \<lparr>ms_sc_retval = g, ms_sc_p_args = (aa, args), ms_sc_msg_header = (ha, hdr), ms_sc_msg_data = (da, d),
      ms_sc_msg_size = n, ms_sc_msg_tag = tag, ms_sc_state_handle = h\<rparr>"
  have "\<not> is_fingerprint ?m" by simp
  from proxy_call [OF run(1) ok run(2) this, of s] obtain w w' m' s' where c: "marshalled_call e ?m (s\<lparr>world := w\<rparr>) = (m', s')"
    "sgx_ecall eid (ecall_index ?m) ?m s = ((SGX_SUCCESS, m'), s'\<lparr>world := w'\<rparr>)" by blast
  obtain r d' s1 where n: "sgxsd_enclave_server_call e (Some args) (Some hdr) (Some d) n tag h (s\<lparr>world := w\<rparr>) = ((r, d'), s1)"
    by (metis prod.collapse)
  have "s1 = s'" "retval_of m' = r" using c(1) n p by (auto simp: deref_def)
  then have "server_call_u sgx_ecall g eid (Some r0) (aa, args) (ha, hdr) (da, d) n tag h s = ((SGX_SUCCESS, Some r), s'\<lparr>world := w'\<rparr>)"
    using c(2) by (simp add: server_call_u_def set_retval_def)
  then show ?thesis using n \<open>s1 = s'\<close> by blast
qed

section \<open>Properties\<close>

text \<open>C22. The boundary is transparent. When the host negotiates a request and sends a message through the proxies, with pointers
  into its own memory and an enclave that has memory for the copies, the entry points run on exactly the request, the
  call arguments, the header and the message that lie behind those pointers; the host gets the return value of the entry point, and the response of the negotiation
  behind its own pointer.\<close>

theorem boundary_transparent:
  assumes run: "runs_enclave sgx_ecall eid a t e" "\<not> malloc_fails t" and p: "pa \<noteq> 0" "ra \<noteq> 0" "aa \<noteq> 0" "ha \<noteq> 0" "da \<noteq> 0" "n \<noteq> 0"
    and outside: "pointers_ok e a (MS_negotiate_request \<lparr>ms_ng_retval = g, ms_ng_p_request = (pa, req), ms_ng_p_response = (ra, old)\<rparr>)"
    "pointers_ok e a (MS_server_call \<lparr>ms_sc_retval = g, ms_sc_p_args = (aa, args), ms_sc_msg_header = (ha, hdr), ms_sc_msg_data = (da, d),
      ms_sc_msg_size = n, ms_sc_msg_tag = tag, ms_sc_state_handle = h\<rparr>)"
  shows "(\<exists>w w' r resp s'. sgxsd_enclave_negotiate_request e (Some req) (Some zero_response) (s\<lparr>world := w\<rparr>) = ((r, resp), s')
      \<and> negotiate_request_u sgx_ecall g eid (Some r0) (pa, req) (ra, old) s = ((SGX_SUCCESS, Some r, store (ra, old) resp), s'\<lparr>world := w'\<rparr>))
    \<and> (\<exists>w w' r d' s'. sgxsd_enclave_server_call e (Some args) (Some hdr) (Some d) n tag h (s\<lparr>world := w\<rparr>) = ((r, d'), s')
      \<and> server_call_u sgx_ecall g eid (Some r0) (aa, args) (ha, hdr) (da, d) n tag h s = ((SGX_SUCCESS, Some r), s'\<lparr>world := w'\<rparr>))"
  using negotiate_proxy [OF run p(1,2) outside(1), of s r0] server_call_proxy [OF run p(3-6) outside(2), of s r0] by blast

definition host_hdr :: sgxsd_msg_header where
  "host_hdr = \<lparr>hdr_iv = replicate 12 0, hdr_mac = replicate 16 0, hdr_pending_request_id = zero_prid\<rparr>"

definition host_args :: sgxsd_server_handle_call_args where
  "host_args = \<lparr>query_phone_count = 1, ratelimit_state_size = 0, ratelimit_state_uuid = replicate 16 0, ratelimit_state_data = 0,
     call_query = \<lparr>query_iv = replicate 12 0, query_mac = replicate 16 0, query_size = 40, query_data = 4096\<rparr>, query_commitment = replicate 32 0\<rparr>"

theorem boundary_transparent_witness:
  "\<exists>w w' r d' s'. sgxsd_enclave_server_call demo_env (Some host_args) (Some host_hdr) (Some [1]) 1 5 0 (demo_state\<lparr>world := w\<rparr>) = ((r, d'), s')
    \<and> server_call_u (\<lambda>eid i m s. g_ecall_table demo_trts demo_env 8 m s) SGX_ERROR_UNEXPECTED 1 (Some SGX_ERROR_UNEXPECTED)
      (16, host_args) (32, host_hdr) (64, [1]) 1 5 0 demo_state = ((SGX_SUCCESS, Some r), s'\<lparr>world := w'\<rparr>)"
proof -
  have "runs_enclave (\<lambda>eid i m s. g_ecall_table demo_trts demo_env 8 m s) 1 8 demo_trts demo_env" by (simp add: runs_enclave_def)
  moreover have "pointers_ok demo_env 8 m" for m
    by (cases m) (simp_all add: pointers_ok_def CHECK_REF_POINTER_def CHECK_UNIQUE_POINTER_def demo_env_def)
  ultimately show ?thesis
    using boundary_transparent [of "\<lambda>eid i m s. g_ecall_table demo_trts demo_env 8 m s" 1 8 demo_trts demo_env 16 32 16 32 64 1
        SGX_ERROR_UNEXPECTED "\<lparr>client_pubkey = replicate 32 0\<rparr>" zero_response host_args host_hdr "[1]" 5 0 demo_state SGX_ERROR_UNEXPECTED]
      demo_malloc by simp
qed

end
