(* ===== verification/Sgxsd_Locks.thy ===== *)
theory Sgxsd_Locks imports Sgxsd_Server begin

text \<open>
  The lock of one server descriptor of \<open>c_src/sgxsd-enclave.c\<close> under concurrent entry. \<open>Sgxsd_Server\<close> runs every entry point
  alone; here threads run \<open>sgxsd_enclave_server_start\<close>, \<open>sgxsd_enclave_server_call\<close>, \<open>sgxsd_enclave_server_stop\<close> and
  \<open>sgxsd_enclave_ratelimit_fingerprint\<close> on the same descriptor and interleave at the points where they take the lock, test the
  descriptor, run the callback and release the lock. What a callback does inside is left out: only that it runs, on which state.
\<close>

section \<open>Threads\<close>

datatype entry = Start_entry | Call_entry | Stop_entry | Fingerprint_entry

datatype pc = Idle | Waiting entry | Locked entry | Running entry u64 | Leaving

record lock_state =
  ls_desc :: sgxsd_server_state_desc
  ls_pc :: "nat \<Rightarrow> pc"

text \<open>The test of \<open>valid\<close> at the head of each \<open>_locked\<close> function.\<close>

definition entry_allowed :: "entry \<Rightarrow> sgxsd_server_state_desc \<Rightarrow> bool" where
  "entry_allowed op d \<longleftrightarrow> (if op = Start_entry then \<not> sd_valid d else sd_valid d)"

text \<open>
  One step of a thread \<open>i\<close>. A callback of a start writes the state; \<open>stop_locked\<close> erases the whole descriptor, the lock
  included, before it runs the terminator on the state it has read. A callback of a call may replace the state pointer. The other
  early returns of a call after the test go to \<open>refuse\<close> as well.
\<close>

inductive lock_step :: "lock_state \<Rightarrow> lock_state \<Rightarrow> bool" where
  enter: "ls_pc s i = Idle \<Longrightarrow> lock_step s (s\<lparr>ls_pc := (ls_pc s)(i := Waiting op)\<rparr>)"
| lock: "ls_pc s i = Waiting op \<Longrightarrow> sd_lock (ls_desc s) = 0
    \<Longrightarrow> lock_step s (s\<lparr>ls_desc := (ls_desc s)\<lparr>sd_lock := 1\<rparr>, ls_pc := (ls_pc s)(i := Locked op)\<rparr>)"
| refuse: "ls_pc s i = Locked op \<Longrightarrow> \<not> entry_allowed op (ls_desc s) \<or> op = Call_entry \<or> op = Fingerprint_entry
    \<Longrightarrow> lock_step s (s\<lparr>ls_pc := (ls_pc s)(i := Leaving)\<rparr>)"
| run: "ls_pc s i = Locked op \<Longrightarrow> op \<noteq> Stop_entry \<Longrightarrow> entry_allowed op (ls_desc s)
    \<Longrightarrow> lock_step s (s\<lparr>ls_pc := (ls_pc s)(i := Running op (sd_state (ls_desc s)))\<rparr>)"
| stop: "ls_pc s i = Locked Stop_entry \<Longrightarrow> entry_allowed Stop_entry (ls_desc s)
    \<Longrightarrow> lock_step s (s\<lparr>ls_desc := zero_server_desc, ls_pc := (ls_pc s)(i := Running Stop_entry (sd_state (ls_desc s)))\<rparr>)"
| started: "ls_pc s i = Running Start_entry p
    \<Longrightarrow> lock_step s (s\<lparr>ls_desc := (ls_desc s)\<lparr>sd_state := p', sd_valid := True\<rparr>, ls_pc := (ls_pc s)(i := Leaving)\<rparr>)"
| start_failed: "ls_pc s i = Running Start_entry p
    \<Longrightarrow> lock_step s (s\<lparr>ls_desc := (ls_desc s)\<lparr>sd_state := p'\<rparr>, ls_pc := (ls_pc s)(i := Leaving)\<rparr>)"
| called: "ls_pc s i = Running Call_entry p
    \<Longrightarrow> lock_step s (s\<lparr>ls_desc := (ls_desc s)\<lparr>sd_state := p'\<rparr>, ls_pc := (ls_pc s)(i := Leaving)\<rparr>)"
| returned: "ls_pc s i = Running op p \<Longrightarrow> op = Stop_entry \<or> op = Fingerprint_entry
    \<Longrightarrow> lock_step s (s\<lparr>ls_pc := (ls_pc s)(i := Leaving)\<rparr>)"
| unlock: "ls_pc s i = Leaving
    \<Longrightarrow> lock_step s (s\<lparr>ls_desc := (ls_desc s)\<lparr>sd_lock := 0\<rparr>, ls_pc := (ls_pc s)(i := Idle)\<rparr>)"

definition lock_initial :: lock_state where
  "lock_initial = \<lparr>ls_desc = zero_server_desc, ls_pc = \<lambda>_. Idle\<rparr>"

text \<open>Runs in which every state satisfies \<open>ok\<close>.\<close>

inductive lock_run :: "(lock_state \<Rightarrow> bool) \<Rightarrow> lock_state \<Rightarrow> bool" for ok where
  initial: "lock_run ok lock_initial"
| step: "lock_run ok s \<Longrightarrow> lock_step s s' \<Longrightarrow> ok s' \<Longrightarrow> lock_run ok s'"

section \<open>Exclusion\<close>

fun in_section :: "pc \<Rightarrow> bool" where
  "in_section Idle = False"
| "in_section (Waiting op) = False"
| "in_section (Locked op) = True"
| "in_section (Running op p) = True"
| "in_section Leaving = True"

text \<open>At most one thread is in the critical section, and only while the lock is taken.\<close>

definition exclusive :: "lock_state \<Rightarrow> bool" where
  "exclusive s \<longleftrightarrow> (\<forall>i j. in_section (ls_pc s i) \<longrightarrow> in_section (ls_pc s j) \<longrightarrow> i = j)
     \<and> (\<forall>i. in_section (ls_pc s i) \<longrightarrow> sd_lock (ls_desc s) \<noteq> 0)"

definition no_stop :: "lock_state \<Rightarrow> bool" where
  "no_stop s \<longleftrightarrow> (\<forall>i p. ls_pc s i \<noteq> Running Stop_entry p)"

lemma exclusive_initial: "exclusive lock_initial"
  by (simp add: exclusive_def lock_initial_def)

lemma exclusive_step: "lock_step s s' \<Longrightarrow> exclusive s \<Longrightarrow> no_stop s' \<Longrightarrow> exclusive s'"
proof (induction rule: lock_step.induct)
  case (stop s i)
  then have False by (auto simp: no_stop_def dest: spec [of _ i])
  then show ?case ..
next
  case (lock s i op)
  then have "\<not> in_section (ls_pc s j)" for j by (auto simp: exclusive_def)
  then show ?case by (auto simp: exclusive_def)
next
  case (unlock s i)
  then have "in_section (ls_pc s i)" by simp
  then have "\<not> in_section (ls_pc s j)" if "j \<noteq> i" for j using unlock.prems(1) that unfolding exclusive_def by blast
  then show ?case by (auto simp: exclusive_def)
qed (auto simp: exclusive_def split: if_splits; metis in_section.simps)+

lemma exclusive_run: "lock_run ok s \<Longrightarrow> (\<And>s. ok s \<Longrightarrow> no_stop s) \<Longrightarrow> exclusive s"
  by (induction rule: lock_run.induct) (auto intro: exclusive_initial exclusive_step)

section \<open>A run with a stop\<close>

abbreviation any_run :: "lock_state \<Rightarrow> bool" where "any_run \<equiv> lock_run (\<lambda>_. True)"

lemma any_step: "any_run s \<Longrightarrow> lock_step s s' \<Longrightarrow> any_run s'"
  by (rule lock_run.step) simp_all

lemma any_locked:
  assumes "any_run s" "ls_pc s i = Idle" "sd_lock (ls_desc s) = 0"
  shows "any_run (s\<lparr>ls_desc := (ls_desc s)\<lparr>sd_lock := 1\<rparr>, ls_pc := (ls_pc s)(i := Locked op)\<rparr>)"
  using any_step [OF any_step [OF assms(1) lock_step.enter [OF assms(2), of op]] lock_step.lock [of _ i op]] assms(3) by simp

lemma any_unlock: "any_run s \<Longrightarrow> ls_pc s i = Leaving \<Longrightarrow> any_run (s\<lparr>ls_desc := (ls_desc s)\<lparr>sd_lock := 0\<rparr>, ls_pc := (ls_pc s)(i := Idle)\<rparr>)"
  by (erule any_step) (rule lock_step.unlock)

lemma any_started:
  assumes "any_run s" "ls_pc s i = Idle" "sd_lock (ls_desc s) = 0" "\<not> sd_valid (ls_desc s)"
  shows "any_run (s\<lparr>ls_desc := \<lparr>sd_valid = True, sd_lock = 0, sd_state = p\<rparr>\<rparr>)"
proof -
  have pc: "(ls_pc s)(i := Idle) = ls_pc s" using assms(2) by auto
  have d: "(ls_desc s)\<lparr>sd_state := p, sd_valid := True, sd_lock := 0\<rparr> = \<lparr>sd_valid = True, sd_lock = 0, sd_state = p\<rparr>"
    by (cases "ls_desc s") simp
  note 1 = any_step [OF any_locked [OF assms(1-3)] lock_step.run [of _ i Start_entry]]
  note 2 = any_step [OF 1 lock_step.started [of _ i _ p]]
  show ?thesis using any_unlock [OF 2, where i = i] assms(4) pc d by (simp add: entry_allowed_def)
qed

lemma any_calling:
  assumes "any_run s" "ls_pc s i = Idle" "sd_lock (ls_desc s) = 0" "sd_valid (ls_desc s)"
  shows "any_run (s\<lparr>ls_desc := (ls_desc s)\<lparr>sd_lock := 1\<rparr>, ls_pc := (ls_pc s)(i := Running Call_entry (sd_state (ls_desc s)))\<rparr>)"
  using any_step [OF any_locked [OF assms(1-3)] lock_step.run [of _ i Call_entry]] assms(4) by (simp add: entry_allowed_def)

lemma any_stopping:
  assumes "any_run s" "ls_pc s i = Idle" "sd_lock (ls_desc s) = 0" "sd_valid (ls_desc s)"
  shows "any_run (s\<lparr>ls_desc := zero_server_desc, ls_pc := (ls_pc s)(i := Running Stop_entry (sd_state (ls_desc s)))\<rparr>)"
  using any_step [OF any_locked [OF assms(1-3)] lock_step.stop [of _ i]] assms(4) by (simp add: entry_allowed_def)

lemma any_stopped:
  assumes "any_run s" "ls_pc s i = Running Stop_entry p"
  shows "any_run (s\<lparr>ls_desc := (ls_desc s)\<lparr>sd_lock := 0\<rparr>, ls_pc := (ls_pc s)(i := Idle)\<rparr>)"
  using any_unlock [OF any_step [OF assms(1) lock_step.returned [OF assms(2)]], where i = i] by simp

lemma stop_breaks_exclusion:
  "\<exists>s i j p. any_run s \<and> i \<noteq> j \<and> ls_pc s i = Running Call_entry p \<and> ls_pc s j = Running Call_entry p \<and> sd_valid (ls_desc s)"
proof -
  let ?d = "\<lambda>l p. \<lparr>sd_valid = True, sd_lock = l, sd_state = p\<rparr>" and ?pc = "(\<lambda>_. Idle)(1 := Running Stop_entry 1)"
  note z = lock_initial_def zero_server_desc_def
  have 1: "any_run \<lparr>ls_desc = ?d 0 1, ls_pc = \<lambda>_. Idle\<rparr>" using any_started [OF lock_run.initial, of 0 1] by (simp add: z)
  have 2: "any_run \<lparr>ls_desc = zero_server_desc, ls_pc = ?pc\<rparr>" using any_stopping [OF 1, of 1] by simp
  have 3: "any_run \<lparr>ls_desc = ?d 0 2, ls_pc = ?pc\<rparr>" using any_started [OF 2, of 2 2] by (simp add: z)
  have 4: "any_run \<lparr>ls_desc = ?d 1 2, ls_pc = ?pc(3 := Running Call_entry 2)\<rparr>" using any_calling [OF 3, of 3] by simp
  have 5: "any_run \<lparr>ls_desc = ?d 0 2, ls_pc = ?pc(3 := Running Call_entry 2, 1 := Idle)\<rparr>" using any_stopped [OF 4, of 1 1] by simp
  let ?s = "\<lparr>ls_desc = ?d 1 2, ls_pc = ?pc(3 := Running Call_entry 2, 1 := Idle, 4 := Running Call_entry 2)\<rparr>"
  have "any_run ?s" using any_calling [OF 5, of 4] by simp
  moreover have "(3 :: nat) \<noteq> 4" "ls_pc ?s 3 = Running Call_entry 2" "ls_pc ?s 4 = Running Call_entry 2" "sd_valid (ls_desc ?s)" by simp_all
  ultimately show ?thesis by blast
qed

text \<open>C18. Mutual exclusion of the server entry points, and where it ends. As long as no stop has erased the descriptor, at most one
  thread is in the critical section of a descriptor, and while it is the lock is taken. With
  a stop this fails: erasing the descriptor frees the lock while the terminator still runs, another thread starts a new server
  on the descriptor, and when the terminator returns, the release frees the lock that a later call holds, so that two threads
  run handlers on the same server state at the same time.\<close>

theorem server_lock_exclusion:
  "(\<forall>s. lock_run no_stop s \<longrightarrow> exclusive s)
   \<and> (\<exists>s i j p. any_run s \<and> i \<noteq> j \<and> ls_pc s i = Running Call_entry p \<and> ls_pc s j = Running Call_entry p \<and> sd_valid (ls_desc s))"
  using exclusive_run stop_breaks_exclusion by blast

theorem server_lock_exclusion_witness:
  "exclusive \<lparr>ls_desc = \<lparr>sd_valid = False, sd_lock = 1, sd_state = 0\<rparr>, ls_pc = (\<lambda>_. Idle)(0 := Locked Start_entry)\<rparr>"
proof -
  have 1: "lock_run no_stop \<lparr>ls_desc = zero_server_desc, ls_pc = (\<lambda>_. Idle)(0 := Waiting Start_entry)\<rparr>"
    using lock_run.step [OF lock_run.initial lock_step.enter [of _ 0 Start_entry], of no_stop] by (simp add: lock_initial_def no_stop_def)
  have "lock_run no_stop \<lparr>ls_desc = \<lparr>sd_valid = False, sd_lock = 1, sd_state = 0\<rparr>, ls_pc = (\<lambda>_. Idle)(0 := Locked Start_entry)\<rparr>"
    using lock_run.step [OF 1 lock_step.lock [of _ 0 Start_entry]] by (simp add: no_stop_def zero_server_desc_def)
  then show ?thesis using server_lock_exclusion by blast
qed

end
