(* ===== verification/Hash_Lookup.thy ===== *)
theory Hash_Lookup imports AES_NI Hash_Stream begin

text \<open>
  The oblivious directory lookup, \<open>cds_enclave/c_src/cds-enclave-hash.rs\<close>. The queried phones are spread over hash chains of
  vector registers, the whole directory is streamed past the chains, and the results are collected
  by comparing every query with every chain. A 256-bit register is the list of its four 64-bit
  lanes, lowest first; the intrinsics are modelled from their documentation. Slices are lists, and
  a function that writes through a slice returns it.
\<close>

section \<open>Vector registers\<close>

type_synonym m256i = "u64 list"

definition mm256_set_epi64x :: "u64 \<Rightarrow> u64 \<Rightarrow> u64 \<Rightarrow> u64 \<Rightarrow> m256i" where
  "mm256_set_epi64x e3 e2 e1 e0 = [e0, e1, e2, e3]"

definition mm256_set1_epi64x :: "u64 \<Rightarrow> m256i" where
  "mm256_set1_epi64x x = [x, x, x, x]"

definition mm256_setzero_si256 :: m256i where
  "mm256_setzero_si256 = [0, 0, 0, 0]"

definition mm256_or_si256 :: "m256i \<Rightarrow> m256i \<Rightarrow> m256i" where "mm256_or_si256 x y = map2 (OR) x y"
definition mm256_and_si256 :: "m256i \<Rightarrow> m256i \<Rightarrow> m256i" where "mm256_and_si256 x y = map2 (AND) x y"
definition mm256_xor_si256 :: "m256i \<Rightarrow> m256i \<Rightarrow> m256i" where "mm256_xor_si256 x y = map2 (XOR) x y"
definition mm256_add_epi64 :: "m256i \<Rightarrow> m256i \<Rightarrow> m256i" where "mm256_add_epi64 x y = map2 (+) x y"

definition mm256_cmpeq_epi64 :: "m256i \<Rightarrow> m256i \<Rightarrow> m256i" where
  "mm256_cmpeq_epi64 x y = map2 (\<lambda>a b. if a = b then - 1 else 0) x y"

text \<open>Each byte is taken from the second operand when the top bit of the mask byte is set.\<close>

definition blend_bytes :: "u64 \<Rightarrow> u64 \<Rightarrow> u64 \<Rightarrow> u64" where
  "blend_bytes a b m = le_word (map (\<lambda>(m, x, y). if bit m 7 then y else x)
     (zip (le_bytes 8 m) (zip (le_bytes 8 a) (le_bytes 8 b))))"

definition mm256_blendv_epi8 :: "m256i \<Rightarrow> m256i \<Rightarrow> m256i \<Rightarrow> m256i" where
  "mm256_blendv_epi8 x y m = map (\<lambda>(m, a, b). blend_bytes a b m) (zip m (zip x y))"

text \<open>Each 64-bit lane is taken from the second operand when the sign bit of the mask lane is set.\<close>

definition mm256_blendv_pd :: "m256i \<Rightarrow> m256i \<Rightarrow> m256i \<Rightarrow> m256i" where
  "mm256_blendv_pd x y m = map (\<lambda>(m, a, b). if bit m 63 then b else a) (zip m (zip x y))"

definition mm256_testz_pd :: "m256i \<Rightarrow> m256i \<Rightarrow> u32" where
  "mm256_testz_pd x y = (if list_all (\<lambda>a. \<not> bit a 63) (mm256_and_si256 x y) then 1 else 0)"

definition mm256_extract_epi64 :: "m256i \<Rightarrow> nat \<Rightarrow> u64" where
  "mm256_extract_epi64 x i = x ! i"

lemmas m256_defs = mm256_set_epi64x_def mm256_set1_epi64x_def mm256_setzero_si256_def mm256_or_si256_def mm256_and_si256_def
  mm256_xor_si256_def mm256_add_epi64_def mm256_cmpeq_epi64_def mm256_blendv_pd_def mm256_extract_epi64_def

section \<open>Types and constants\<close>

type_synonym phone = u64
type_synonym uuid = "u64 \<times> u64"
type_synonym hash_slot = "m256i list"
type_synonym hash_slot_result = "m256i list list"

datatype CdsHashLookupError = InvalidParameter | RdRand | HashTableOverflow

definition CHAIN_BLOCK_COUNT :: nat where "CHAIN_BLOCK_COUNT = 4"
definition CHAIN_BLOCK_PHONE_COUNT :: nat where "CHAIN_BLOCK_PHONE_COUNT = 32 div 8"
definition CHAIN_PHONE_COUNT :: u32 where "CHAIN_PHONE_COUNT = of_nat (CHAIN_BLOCK_COUNT * CHAIN_BLOCK_PHONE_COUNT)"
definition CACHE_LINE_SIZE :: nat where "CACHE_LINE_SIZE = 32"
definition UINT64_MAX :: u64 where "UINT64_MAX = - 1"

definition chain_block_dummy_mask :: m256i where
  "chain_block_dummy_mask = mm256_set_epi64x 0 0 0 UINT64_MAX"

definition chain_block_non_dummy_mask :: m256i where
  "chain_block_non_dummy_mask = mm256_set_epi64x UINT64_MAX UINT64_MAX UINT64_MAX 0"

section \<open>Hash keys\<close>

type_synonym hash_key = "u128 list"

definition hash_key_set :: "u64 \<Rightarrow> u64 \<Rightarrow> hash_key" where
  "hash_key_set hash_key_1 hash_key_2 =
     (let sk0 = mk_qwords hash_key_2 hash_key_1;
          sk1 = expand_step128 sk0 (mm_aeskeygenassist_si128 sk0 0x01);
          sk2 = expand_step128 sk1 (mm_aeskeygenassist_si128 sk1 0x02);
          sk3 = expand_step128 sk2 (mm_aeskeygenassist_si128 sk2 0x04);
          sk4 = expand_step128 sk3 (mm_aeskeygenassist_si128 sk3 0x08);
          sk5 = expand_step128 sk4 (mm_aeskeygenassist_si128 sk4 0x10);
          sk6 = expand_step128 sk5 (mm_aeskeygenassist_si128 sk5 0x20);
          sk7 = expand_step128 sk6 (mm_aeskeygenassist_si128 sk6 0x40);
          sk8 = expand_step128 sk7 (mm_aeskeygenassist_si128 sk7 0x80);
          sk9 = expand_step128 sk8 (mm_aeskeygenassist_si128 sk8 0x1B);
          sk10 = expand_step128 sk9 (mm_aeskeygenassist_si128 sk9 0x36)
      in [sk0, sk1, sk2, sk3, sk4, sk5, sk6, sk7, sk8, sk9, sk10])"

text \<open>The low 32 bits of the encrypted phone, masked: \<open>_mm_cvtsi64_si128\<close> and \<open>_mm_cvtsi128_si32\<close> are casts.\<close>

definition hash_key_hash :: "hash_key \<Rightarrow> phone \<Rightarrow> nat \<Rightarrow> u32" where
  "hash_key_hash sk phone hash_table_order =
     (let hash = ucast phone :: u128;
          hash = mm_xor_si128 hash (sk ! 0);
          hash = foldl mm_aesenc_si128 hash [sk ! 1, sk ! 2, sk ! 3, sk ! 4, sk ! 5, sk ! 6, sk ! 7, sk ! 8, sk ! 9];
          hash = mm_aesenclast_si128 hash (sk ! 10)
      in dword 0 hash AND (push_bit hash_table_order 1 - 1))"

text \<open>
  \<open>rdrand\<close> is the processor's generator: whether it delivered, and what. Ten attempts; the second word is only drawn when
  the first one was delivered.
\<close>

fun hash_key_generate :: "('w \<Rightarrow> (bool \<times> u64) \<times> 'w) \<Rightarrow> nat \<Rightarrow> 'w \<Rightarrow> hash_key option \<times> 'w" where
  "hash_key_generate rdrand 0 w = (None, w)"
| "hash_key_generate rdrand (Suc n) w =
     (let ((ok1, hash_key_1), w) = rdrand w
      in if \<not> ok1 then hash_key_generate rdrand n w
         else
           let ((ok2, hash_key_2), w) = rdrand w
           in if ok2 then (Some (hash_key_set hash_key_1 hash_key_2), w) else hash_key_generate rdrand n w)"

section \<open>Streaming the directory\<close>

definition hash_phone_chain_block ::
  "hash_slot_result \<Rightarrow> m256i list \<Rightarrow> m256i list \<Rightarrow> nat \<Rightarrow> hash_slot_result" where
  "hash_phone_chain_block chain_results in_uuid_blocks chain_eq chain_block_idx =
     chain_results[chain_block_idx := map2 (\<lambda>chain_result in_uuid_block.
        let dummy_write_mask = mm256_set_epi64x 0 0 0 UINT64_MAX
        in mm256_blendv_epi8 (mm256_xor_si256 chain_result dummy_write_mask) in_uuid_block (chain_eq ! chain_block_idx))
       (chain_results ! chain_block_idx) in_uuid_blocks]"

definition hash_phone ::
  "hash_key \<Rightarrow> nat \<Rightarrow> hash_slot list \<Rightarrow> hash_slot_result list \<Rightarrow> phone \<times> uuid \<Rightarrow> hash_slot_result list" where
  "hash_phone hash_key hash_table_order hash_slots hash_slot_results in_phone_uuid =
     (let (in_phone, in_uuid) = in_phone_uuid;
          in_phone_block = mm256_or_si256 (mm256_set1_epi64x in_phone) chain_block_dummy_mask;
          i = unat (hash_key_hash hash_key in_phone hash_table_order);
          hash_slot = hash_slots ! i;
          chain_eq = [mm256_cmpeq_epi64 in_phone_block (hash_slot ! 0), mm256_cmpeq_epi64 in_phone_block (hash_slot ! 1),
                      mm256_cmpeq_epi64 in_phone_block (hash_slot ! 2), mm256_cmpeq_epi64 in_phone_block (hash_slot ! 3)];
          in_uuid_blocks = [mm256_set1_epi64x (fst in_uuid), mm256_set1_epi64x (snd in_uuid)];
          chain_results = hash_slot_results ! i;
          chain_results = hash_phone_chain_block chain_results in_uuid_blocks chain_eq 0;
          chain_results = hash_phone_chain_block chain_results in_uuid_blocks chain_eq 1;
          chain_results = hash_phone_chain_block chain_results in_uuid_blocks chain_eq 2;
          chain_results = hash_phone_chain_block chain_results in_uuid_blocks chain_eq 3
      in hash_slot_results[i := chain_results])"

text \<open>The loop with prefetching, which has no effect on values, and the loop over what it leaves.\<close>

function contruct_loop ::
  "(hash_slot_result list \<Rightarrow> phone \<times> uuid \<Rightarrow> hash_slot_result list) \<Rightarrow> (phone \<times> uuid) list \<Rightarrow> nat \<Rightarrow> hash_slot_result list
    \<Rightarrow> hash_slot_result list" where
  "contruct_loop step in_phones_uuids in_phone_idx results =
     (let CACHE_LINE_PHONES = CACHE_LINE_SIZE div 8; PREFETCH_PHONES_DIST = CACHE_LINE_PHONES * 2
      in if in_phone_idx + PREFETCH_PHONES_DIST + CACHE_LINE_PHONES < length in_phones_uuids
         then contruct_loop step in_phones_uuids (in_phone_idx + CACHE_LINE_PHONES)
                (foldl step results (take CACHE_LINE_PHONES (drop in_phone_idx in_phones_uuids)))
         else foldl step results (drop in_phone_idx in_phones_uuids))"
  by pat_completeness auto
termination
  by (relation "measure (\<lambda>(_, in_phones_uuids, in_phone_idx, _). length in_phones_uuids - in_phone_idx)")
    (simp_all add: CACHE_LINE_SIZE_def)

declare contruct_loop.simps [simp del]

definition cds_contruct_hash ::
  "(phone \<times> uuid) list \<Rightarrow> hash_key \<Rightarrow> nat \<Rightarrow> hash_slot list \<Rightarrow> hash_slot_result list \<Rightarrow> hash_slot_result list" where
  "cds_contruct_hash in_phones_uuids hash_key hash_table_order hash_slots hash_slot_results =
     contruct_loop (hash_phone hash_key hash_table_order hash_slots) in_phones_uuids 0 hash_slot_results"

section \<open>Filling the chains\<close>

text \<open>The state of the inner loop: \<open>chain_blocks\<close>, \<open>chain_block_masks\<close>, \<open>chain_idx\<close>.\<close>

type_synonym chain_state = "m256i list \<times> m256i list \<times> u32"

definition initial_masks :: "m256i list" where
  "initial_masks = [
     mm256_set_epi64x (UINT64_MAX - 0) (UINT64_MAX - 1) (UINT64_MAX - 2) 0,
     mm256_set_epi64x (UINT64_MAX - 3) (UINT64_MAX - 4) (UINT64_MAX - 5) 0,
     mm256_set_epi64x (UINT64_MAX - 6) (UINT64_MAX - 7) (UINT64_MAX - 8) 0,
     mm256_set_epi64x (UINT64_MAX - 9) (UINT64_MAX - 10) (UINT64_MAX - 11) 0]"

definition fill_step :: "hash_key \<Rightarrow> nat \<Rightarrow> nat \<Rightarrow> chain_state \<Rightarrow> phone \<Rightarrow> chain_state" where
  "fill_step hash_key hash_table_order hash_slot_idx st ab_phone =
     (let (chain_blocks, chain_block_masks, chain_idx) = st;
          ab_phone_block = mm256_set1_epi64x ab_phone;
          ab_phone_hash_slot_idx = hash_key_hash hash_key ab_phone hash_table_order;
          hash_slot_matches = drop_bit 32 ((ucast ab_phone_hash_slot_idx XOR of_nat hash_slot_idx :: u64) - 1) AND 1;
          chain_eq = mm256_cmpeq_epi64 ab_phone_block (chain_blocks ! 0);
          chain_eq = mm256_or_si256 chain_eq (mm256_cmpeq_epi64 ab_phone_block (chain_blocks ! 1));
          chain_eq = mm256_or_si256 chain_eq (mm256_cmpeq_epi64 ab_phone_block (chain_blocks ! 2));
          chain_eq = mm256_or_si256 chain_eq (mm256_cmpeq_epi64 ab_phone_block (chain_blocks ! 3));
          phone_not_in_chain = (mm256_testz_pd chain_eq chain_eq \<noteq> 0);
          should_insert_phone = hash_slot_matches AND of_bool phone_not_in_chain;
          chain_idx = chain_idx + ucast should_insert_phone;
          chain_blocks = [mm256_blendv_pd (chain_blocks ! 0) ab_phone_block (chain_block_masks ! 0),
                          mm256_blendv_pd (chain_blocks ! 1) ab_phone_block (chain_block_masks ! 1),
                          mm256_blendv_pd (chain_blocks ! 2) ab_phone_block (chain_block_masks ! 2),
                          mm256_blendv_pd (chain_blocks ! 3) ab_phone_block (chain_block_masks ! 3)];
          chain_block_masks = [mm256_add_epi64 (chain_block_masks ! 0) (mm256_set1_epi64x should_insert_phone),
                               mm256_add_epi64 (chain_block_masks ! 1) (mm256_set1_epi64x should_insert_phone),
                               mm256_add_epi64 (chain_block_masks ! 2) (mm256_set1_epi64x should_insert_phone),
                               mm256_add_epi64 (chain_block_masks ! 3) (mm256_set1_epi64x should_insert_phone)]
      in (chain_blocks, chain_block_masks, chain_idx))"

definition fill_slot :: "hash_key \<Rightarrow> nat \<Rightarrow> phone list \<Rightarrow> nat \<Rightarrow> hash_slot \<times> u32" where
  "fill_slot hash_key hash_table_order ab_phones hash_slot_idx =
     (let st = (replicate CHAIN_BLOCK_COUNT mm256_setzero_si256, initial_masks, 0);
          (chain_blocks, chain_block_masks, chain_idx) = foldl (fill_step hash_key hash_table_order hash_slot_idx) st ab_phones;
          dummy_block = mm256_set1_epi64x UINT64_MAX
      in ([mm256_blendv_pd (chain_blocks ! 0) dummy_block (chain_block_masks ! 0),
           mm256_blendv_pd (chain_blocks ! 1) dummy_block (chain_block_masks ! 1),
           mm256_blendv_pd (chain_blocks ! 2) dummy_block (chain_block_masks ! 2),
           mm256_blendv_pd (chain_blocks ! 3) dummy_block (chain_block_masks ! 3)], chain_idx))"

section \<open>Collecting results\<close>

definition hash_slot_collect_result :: "hash_slot_result \<Rightarrow> m256i list \<Rightarrow> nat \<Rightarrow> u64" where
  "hash_slot_collect_result chain_results chain_eq uuid_data64_idx =
     (let chain_result = mm256_setzero_si256;
          chain_result = mm256_blendv_epi8 chain_result (chain_results ! 0 ! uuid_data64_idx) (chain_eq ! 0);
          chain_result = mm256_blendv_epi8 chain_result (chain_results ! 1 ! uuid_data64_idx) (chain_eq ! 1);
          chain_result = mm256_blendv_epi8 chain_result (chain_results ! 2 ! uuid_data64_idx) (chain_eq ! 2);
          chain_result = mm256_blendv_epi8 chain_result (chain_results ! 3 ! uuid_data64_idx) (chain_eq ! 3)
      in mm256_extract_epi64 chain_result 0 OR mm256_extract_epi64 chain_result 1 OR mm256_extract_epi64 chain_result 2
           OR mm256_extract_epi64 chain_result 3)"

definition collect_step :: "phone \<Rightarrow> uuid \<Rightarrow> hash_slot \<times> hash_slot_result \<Rightarrow> uuid" where
  "collect_step ab_phone ab_phone_result slot =
     (let (hash_slot, chain_results) = slot;
          ab_phone_block = mm256_set1_epi64x ab_phone;
          chain_eq = [mm256_cmpeq_epi64 ab_phone_block (mm256_and_si256 (hash_slot ! 0) chain_block_non_dummy_mask),
                      mm256_cmpeq_epi64 ab_phone_block (mm256_and_si256 (hash_slot ! 1) chain_block_non_dummy_mask),
                      mm256_cmpeq_epi64 ab_phone_block (mm256_and_si256 (hash_slot ! 2) chain_block_non_dummy_mask),
                      mm256_cmpeq_epi64 ab_phone_block (mm256_and_si256 (hash_slot ! 3) chain_block_non_dummy_mask)]
      in (fst ab_phone_result OR hash_slot_collect_result chain_results chain_eq 0,
          snd ab_phone_result OR hash_slot_collect_result chain_results chain_eq 1))"

definition collect_result :: "hash_slot list \<Rightarrow> hash_slot_result list \<Rightarrow> phone \<Rightarrow> uuid" where
  "collect_result hash_slots hash_slot_results ab_phone =
     foldl (collect_step ab_phone) (0, 0) (zip hash_slots hash_slot_results)"

definition uuid_bytes :: "uuid \<Rightarrow> bytes" where
  "uuid_bytes u = le_bytes 8 (fst u) @ le_bytes 8 (snd u)"

section \<open>The lookup\<close>

fun trailing_zeros :: "nat \<Rightarrow> nat" where
  "trailing_zeros n = (if n = 0 then 64 else if odd n then 0 else Suc (trailing_zeros (n div 2)))"

declare trailing_zeros.simps [simp del]

definition is_power_of_two :: "nat \<Rightarrow> bool" where
  "is_power_of_two n \<longleftrightarrow> n \<noteq> 0 \<and> 2 ^ trailing_zeros n = n"

text \<open>The result, the bytes of the results, and the two tables as they are left.\<close>

definition erase_result :: "m256i \<Rightarrow> m256i" where
  "erase_result x = mm256_xor_si256 (mm256_and_si256 x chain_block_dummy_mask) chain_block_dummy_mask"

definition hash_lookup ::
  "('w \<Rightarrow> (bool \<times> u64) \<times> 'w) \<Rightarrow> (phone \<times> uuid) list \<Rightarrow> phone list \<Rightarrow> bytes \<Rightarrow> hash_slot list \<Rightarrow> hash_slot_result list \<Rightarrow> 'w
    \<Rightarrow> (CdsHashLookupError option \<times> bytes \<times> hash_slot list \<times> hash_slot_result list) \<times> 'w" where
  "hash_lookup rdrand in_phones_uuids ab_phones ab_phone_results hash_slots hash_slot_results w =
     (let hash_table_order = trailing_zeros (length hash_slots)
      in if 32 \<le> hash_table_order \<or> \<not> is_power_of_two (length hash_slots)
         then ((Some InvalidParameter, ab_phone_results, hash_slots, hash_slot_results), w)
         else
           case hash_key_generate rdrand 10 w of
             (None, w) \<Rightarrow> ((Some RdRand, ab_phone_results, hash_slots, hash_slot_results), w)
           | (Some hash_key, w) \<Rightarrow>
               let filled = map (fill_slot hash_key hash_table_order ab_phones) [0..<length hash_slots];
                   hash_slots = map fst filled;
                   any_hash_slots_overflowed = list_ex (\<lambda>(_, chain_idx). CHAIN_PHONE_COUNT < chain_idx) filled
               in if any_hash_slots_overflowed
                  then ((Some HashTableOverflow, ab_phone_results, hash_slots, hash_slot_results), w)
                  else
                    let hash_slot_results = cds_contruct_hash in_phones_uuids hash_key hash_table_order hash_slots hash_slot_results;
                        ab_phone_results = concat (map (uuid_bytes \<circ> collect_result hash_slots hash_slot_results) ab_phones);
                        hash_slot_results = map (map (map erase_result)) hash_slot_results;
                        hash_slots = map (\<lambda>_. replicate CHAIN_BLOCK_COUNT mm256_setzero_si256) hash_slots
                    in ((None, ab_phone_results, hash_slots, hash_slot_results), w))"

end
