(* ===== verification/Hash_Lookup_Correct.thy ===== *)
theory Hash_Lookup_Correct imports Hash_Lookup begin

text \<open>
  Correctness of the oblivious lookup of \<open>Hash_Lookup\<close>: which phones a chain keeps, what streaming the
  directory leaves in the result registers, and what is collected.
\<close>

section \<open>Lanes\<close>

lemma length_m256 [simp]:
  "length (mm256_set1_epi64x x) = 4" "length (mm256_set_epi64x a b c d) = 4" "length mm256_setzero_si256 = 4"
  by (simp_all add: m256_defs)

lemma le_bytes_extreme: "le_bytes n (0 :: u64) = replicate n 0" "le_bytes 8 (- 1 :: u64) = replicate 8 (- 1)"
proof -
  show "le_bytes n (0 :: u64) = replicate n 0" by (simp add: le_bytes_def map_replicate_const)
  show "le_bytes 8 (- 1 :: u64) = replicate 8 (- 1)"
    by (rule nth_equalityI) (auto simp: intro!: bit_word_eqI simp: bit_simps)
qed

lemma blend_bytes_full [simp]: "blend_bytes a b 0 = a" "blend_bytes a b (- 1) = b"
proof -
  have z: "map (\<lambda>(m, x, y). if bit m 7 then y else x) (zip (replicate 8 m0) (zip (le_bytes 8 a) (le_bytes 8 b)))
      = (if bit m0 7 then le_bytes 8 b else le_bytes 8 a)" for m0 :: u8
    by (rule nth_equalityI) auto
  show "blend_bytes a b 0 = a" unfolding blend_bytes_def le_bytes_extreme z by (simp add: le_word_le_bytes)
  show "blend_bytes a b (- 1) = b" unfolding blend_bytes_def le_bytes_extreme z by (simp add: le_word_le_bytes bit_simps)
qed

lemma hash_matches:
  fixes a :: u32
  assumes "i < 2 ^ 32"
  shows "drop_bit 32 ((ucast a XOR of_nat i :: u64) - 1) AND 1 = of_bool (unat a = i)"
proof -
  let ?x = "ucast a XOR of_nat i :: u64"
  have i: "unat (of_nat i :: u64) = i" using assms by (intro unat_word_of_nat) simp
  have a: "unat (ucast a :: u64) = unat a" 
    using unat_bound [of a] by (simp add: unsigned_ucast_eq take_bit_nat_eq_self)
  show ?thesis
  proof (cases "unat a = i")
    case True
    then have "ucast a = (of_nat i :: u64)" using a i by (metis word_unat_eq_iff)
    then show ?thesis using True by (simp add: drop_bit_eq_div)
  next
    case False
    then have n: "?x \<noteq> 0" using a i by (metis xor_zero_iff)
    have "take_bit 32 (of_nat i :: u64) = of_nat i" "take_bit 32 (ucast a :: u64) = ucast a"
      using assms unat_bound [of a] by (simp_all add: word_unat_eq_iff unsigned_take_bit_eq i a take_bit_nat_eq_self)
    then have "take_bit 32 ?x = ?x" by (simp add: take_bit_xor)
    then have "unat ?x < 2 ^ 32" by (metis take_bit_nat_less_exp unsigned_take_bit_eq)
    moreover have "unat (?x - 1) = unat ?x - 1" using n by (simp add: unat_minus_one)
    ultimately have "unat (drop_bit 32 (?x - 1)) = unat (0 :: u64)" unfolding unat_drop_bit_eq by (simp add: drop_bit_eq_div)
    then have "drop_bit 32 (?x - 1) = 0" by (rule iffD2 [OF word_unat_eq_iff])
    then show ?thesis using False by simp
  qed
qed

section \<open>Filling a chain\<close>

text \<open>The four chain registers with \<open>v k\<close> in the \<open>k\<close>-th usable lane, and their masks after \<open>c\<close> insertions.\<close>

definition chain_repr :: "(nat \<Rightarrow> u64) \<Rightarrow> m256i list" where
  "chain_repr v = [[0, v 2, v 1, v 0], [0, v 5, v 4, v 3], [0, v 8, v 7, v 6], [0, v 11, v 10, v 9]]"

definition mask_repr :: "nat \<Rightarrow> m256i list" where
  "mask_repr c = (let m = (\<lambda>k. of_nat c - of_nat k) in
     [[of_nat c, m 3, m 2, m 1], [of_nat c, m 6, m 5, m 4], [of_nat c, m 9, m 8, m 7], [of_nat c, m 12, m 11, m 10]])"

lemma all_less_12: "(\<forall>k < 12. P k) \<longleftrightarrow> P 0 \<and> P 1 \<and> P 2 \<and> P 3 \<and> P 4 \<and> P 5 \<and> P 6 \<and> P 7 \<and> P 8 \<and> P 9 \<and> P 10 \<and> P (11 :: nat)"
proof -
  have "(\<forall>k < 12. P k) \<longleftrightarrow> list_all P [0..<12]" by (auto simp: list_all_iff)
  also have "[0..<12] = [0, 1, 2, 3, 4, 5, 6, 7, 8, 9, 10, 11 :: nat]" by (simp add: upt_rec)
  finally show ?thesis by simp
qed

lemma sint_of_int: "- (2 ^ 63) \<le> i \<Longrightarrow> i < 2 ^ 63 \<Longrightarrow> sint (of_int i :: u64) = i"
  by (simp add: signed_of_int signed_take_bit_int_eq_self)

lemma mask_sign:
  assumes "c < 2 ^ 32" "k < 12"
  shows "bit (of_nat c - of_nat (Suc k) :: u64) 63 \<longleftrightarrow> c \<le> k"
proof -
  have "(of_nat c - of_nat (Suc k) :: u64) = of_int (int c - int (Suc k))" by simp
  moreover have "sint (of_int (int c - int (Suc k)) :: u64) = int c - int (Suc k)"
    using assms by (intro sint_of_int) simp_all
  ultimately show ?thesis using msbit_sint [of "of_nat c - of_nat (Suc k) :: u64"] by (simp add: msbit_def) linarith
qed

lemma count_sign: "c < 2 ^ 32 \<Longrightarrow> \<not> bit (of_nat c :: u64) 63"
proof -
  assume c: "c < 2 ^ 32"
  then have "unat (of_nat c :: u64) = c" by (intro unat_word_of_nat) simp
  then show ?thesis using c msbit_unat [of "of_nat c :: u64"] by (simp add: msbit_def)
qed

lemma mask_signs:
  assumes "c < 2 ^ 32"
  shows "bit (of_nat c - 1 :: u64) 63 \<longleftrightarrow> c \<le> 0" "bit (of_nat c - 2 :: u64) 63 \<longleftrightarrow> c \<le> 1" "bit (of_nat c - 3 :: u64) 63 \<longleftrightarrow> c \<le> 2"
    "bit (of_nat c - 4 :: u64) 63 \<longleftrightarrow> c \<le> 3" "bit (of_nat c - 5 :: u64) 63 \<longleftrightarrow> c \<le> 4" "bit (of_nat c - 6 :: u64) 63 \<longleftrightarrow> c \<le> 5"
    "bit (of_nat c - 7 :: u64) 63 \<longleftrightarrow> c \<le> 6" "bit (of_nat c - 8 :: u64) 63 \<longleftrightarrow> c \<le> 7" "bit (of_nat c - 9 :: u64) 63 \<longleftrightarrow> c \<le> 8"
    "bit (of_nat c - 10 :: u64) 63 \<longleftrightarrow> c \<le> 9" "bit (of_nat c - 11 :: u64) 63 \<longleftrightarrow> c \<le> 10" "bit (of_nat c - 12 :: u64) 63 \<longleftrightarrow> c \<le> 11"
  using mask_sign [OF assms, of 0] mask_sign [OF assms, of 1] mask_sign [OF assms, of 2] mask_sign [OF assms, of 3]
    mask_sign [OF assms, of 4] mask_sign [OF assms, of 5] mask_sign [OF assms, of 6] mask_sign [OF assms, of 7]
    mask_sign [OF assms, of 8] mask_sign [OF assms, of 9] mask_sign [OF assms, of 10] mask_sign [OF assms, of 11]
  by simp_all

text \<open>A blend under the masks overwrites exactly the lanes that are not taken yet.\<close>

lemma blend_chain:
  assumes "c < 2 ^ 32"
  shows "[mm256_blendv_pd (chain_repr v ! 0) (mm256_set1_epi64x p) (mask_repr c ! 0),
          mm256_blendv_pd (chain_repr v ! 1) (mm256_set1_epi64x p) (mask_repr c ! 1),
          mm256_blendv_pd (chain_repr v ! 2) (mm256_set1_epi64x p) (mask_repr c ! 2),
          mm256_blendv_pd (chain_repr v ! 3) (mm256_set1_epi64x p) (mask_repr c ! 3)]
    = chain_repr (\<lambda>k. if c \<le> k then p else v k)"
  using count_sign [OF assms] mask_signs [OF assms]
  by (simp add: chain_repr_def mask_repr_def Let_def mm256_blendv_pd_def mm256_set1_epi64x_def)

lemma not_in_chain:
  "mm256_testz_pd (mm256_or_si256 (mm256_or_si256 (mm256_or_si256
       (mm256_cmpeq_epi64 (mm256_set1_epi64x p) (chain_repr v ! 0)) (mm256_cmpeq_epi64 (mm256_set1_epi64x p) (chain_repr v ! 1)))
       (mm256_cmpeq_epi64 (mm256_set1_epi64x p) (chain_repr v ! 2))) (mm256_cmpeq_epi64 (mm256_set1_epi64x p) (chain_repr v ! 3)))
     (mm256_or_si256 (mm256_or_si256 (mm256_or_si256
       (mm256_cmpeq_epi64 (mm256_set1_epi64x p) (chain_repr v ! 0)) (mm256_cmpeq_epi64 (mm256_set1_epi64x p) (chain_repr v ! 1)))
       (mm256_cmpeq_epi64 (mm256_set1_epi64x p) (chain_repr v ! 2))) (mm256_cmpeq_epi64 (mm256_set1_epi64x p) (chain_repr v ! 3))) \<noteq> 0
   \<longleftrightarrow> p \<noteq> 0 \<and> (\<forall>k < 12. v k \<noteq> p)"
proof -
  have b: "bit (if P then - 1 else 0 :: u64) 63 \<longleftrightarrow> P" for P by (simp add: bit_simps)
  show ?thesis
    unfolding all_less_12 mm256_testz_pd_def mm256_or_si256_def mm256_and_si256_def mm256_cmpeq_epi64_def mm256_set1_epi64x_def chain_repr_def
    by (simp add: bit_or_iff b del: if_cancel split del: if_split) (auto)
qed

lemma add_masks:
  assumes "b \<le> 1"
  shows "[mm256_add_epi64 (mask_repr c ! 0) (mm256_set1_epi64x (of_nat b)), mm256_add_epi64 (mask_repr c ! 1) (mm256_set1_epi64x (of_nat b)),
          mm256_add_epi64 (mask_repr c ! 2) (mm256_set1_epi64x (of_nat b)), mm256_add_epi64 (mask_repr c ! 3) (mm256_set1_epi64x (of_nat b))]
    = mask_repr (c + b)"
  by (simp add: mask_repr_def Let_def mm256_add_epi64_def mm256_set1_epi64x_def)

abbreviation slot_of :: "hash_key \<Rightarrow> nat \<Rightarrow> phone \<Rightarrow> nat" where
  "slot_of hk ord p \<equiv> unat (hash_key_hash hk p ord)"

lemma fill_step_repr:
  assumes "c < 2 ^ 32" "i < 2 ^ 32"
    and ins: "ins \<longleftrightarrow> slot_of hk ord p = i \<and> p \<noteq> 0 \<and> (\<forall>k < 12. v k \<noteq> p)"
  shows "fill_step hk ord i (chain_repr v, mask_repr c, of_nat c) p
    = (chain_repr (\<lambda>k. if c \<le> k then p else v k), mask_repr (c + of_bool ins), of_nat (c + of_bool ins))"
proof -
  define nic where "nic \<longleftrightarrow> p \<noteq> 0 \<and> (\<forall>k < 12. v k \<noteq> p)"
  have should: "(of_bool (slot_of hk ord p = i) :: u64) AND of_bool nic = of_nat (of_bool ins)"
    by (simp add: ins nic_def)
  have u: "(ucast (of_nat (of_bool ins) :: u64) :: u32) = of_nat (of_bool ins)" by simp
  show ?thesis
    unfolding fill_step_def Let_def prod.case hash_matches [OF assms(2)] not_in_chain nic_def [symmetric] should u
      blend_chain [OF assms(1)]
    by (subst add_masks) simp_all
qed

text \<open>
  What the lanes hold after the phones \<open>ps\<close>: the first twelve lanes taken hold distinct phones of this slot, the others
  the last phone seen; up to twelve insertions nothing of the slot is missing, and more than
  twelve insertions mean more than twelve different phones. The count is at least the number of different phones, and exactly
  that when no phone is asked for twice.
\<close>

definition slot_phones :: "hash_key \<Rightarrow> nat \<Rightarrow> nat \<Rightarrow> phone list \<Rightarrow> phone set" where
  "slot_phones hk ord i ps = {p \<in> set ps. slot_of hk ord p = i \<and> p \<noteq> 0}"

definition chain_inv :: "hash_key \<Rightarrow> nat \<Rightarrow> nat \<Rightarrow> phone list \<Rightarrow> (nat \<Rightarrow> u64) \<Rightarrow> nat \<Rightarrow> bool" where
  "chain_inv hk ord i ps v c \<longleftrightarrow> c \<le> length ps \<and> v ` {..<min c 12} \<subseteq> slot_phones hk ord i ps \<and> inj_on v {..<min c 12}
     \<and> (\<forall>k. c \<le> k \<and> k < 12 \<longrightarrow> v k = (if ps = [] then 0 else last ps))
     \<and> (c \<le> 12 \<longrightarrow> slot_phones hk ord i ps \<subseteq> v ` {..<c}) \<and> (12 < c \<longrightarrow> 12 < card (slot_phones hk ord i ps))
     \<and> card (slot_phones hk ord i ps) \<le> c \<and> (distinct ps \<longrightarrow> c = card (slot_phones hk ord i ps))"

lemma slot_phones_snoc:
  "slot_phones hk ord i (ps @ [p]) = slot_phones hk ord i ps \<union> (if slot_of hk ord p = i \<and> p \<noteq> 0 then {p} else {})"
  by (auto simp: slot_phones_def)

lemma finite_slot_phones [simp]: "finite (slot_phones hk ord i ps)"
  by (simp add: slot_phones_def)

lemma chain_inv_insert:
  assumes inv: "chain_inv hk ord i ps v c" and p: "slot_of hk ord p = i" "p \<noteq> 0" "\<forall>k < 12. v k \<noteq> p"
  shows "chain_inv hk ord i (ps @ [p]) (\<lambda>k. if c \<le> k then p else v k) (Suc c)"
proof -
  let ?v = "\<lambda>k. if c \<le> k then p else v k" and ?S = "slot_phones hk ord i ps"
  have S: "slot_phones hk ord i (ps @ [p]) = insert p ?S" using p by (simp add: slot_phones_snoc)
  have old: "v ` {..<min c 12} \<subseteq> ?S" "inj_on v {..<min c 12}" "c \<le> 12 \<longrightarrow> ?S \<subseteq> v ` {..<c}" "12 < c \<longrightarrow> 12 < card ?S" "c \<le> length ps"
    "card ?S \<le> c" "distinct ps \<longrightarrow> c = card ?S"
    using inv by (auto simp: chain_inv_def)
  have cnt: "card (insert p ?S) \<le> Suc c" using card_insert_le_m1 [of "Suc c" ?S p] old(6) by simp
  have dis: "distinct (ps @ [p]) \<longrightarrow> Suc c = card (insert p ?S)"
    using old(7) by (auto simp: slot_phones_def)
  have img: "?v ` {..<min (Suc c) 12} = (if c < 12 then insert p (v ` {..<c}) else v ` {..<12})"
  proof (cases "c < 12")
    case True
    then have "{..<min (Suc c) 12} = insert c {..<c}" by auto
    then show ?thesis using True by auto
  qed (auto simp: min_def)
  have inj: "inj_on ?v {..<min (Suc c) 12}"
  proof (rule inj_onI)
    fix x y assume xy: "x \<in> {..<min (Suc c) 12}" "y \<in> {..<min (Suc c) 12}" "?v x = ?v y"
    have "v x \<noteq> p" "v y \<noteq> p" using p(3) xy(1,2) by auto
    then show "x = y" using xy old(2) by (auto simp: inj_on_def split: if_splits)
  qed
  have new: "12 < card (insert p ?S)" if "12 < Suc c"
  proof (cases "c = 12")
    case True
    then have "v ` {..<12} \<subseteq> ?S" "inj_on v {..<12}" "p \<notin> v ` {..<12}" using old(1,2) p(3) by auto
    moreover have "insert p (v ` {..<12}) \<subseteq> insert p ?S" using calculation(1) by blast
    ultimately show ?thesis
      using card_mono [of "insert p ?S" "insert p (v ` {..<12})"] card_image [of v "{..<12}"] by simp
  next
    case False
    then show ?thesis using that old(4) card_mono [of "insert p ?S" ?S] by (simp add: subset_insertI)
  qed
  have sub: "?v ` {..<min (Suc c) 12} \<subseteq> insert p ?S"
    unfolding img using old(1) by (cases "c < 12") (auto simp: min_def image_subset_iff)
  have sup: "insert p ?S \<subseteq> ?v ` {..<Suc c}" if "Suc c \<le> 12"
    using that img old(3) by (auto simp: min_def)
  have rest: "\<forall>k. Suc c \<le> k \<and> k < 12 \<longrightarrow> ?v k = (if ps @ [p] = [] then 0 else last (ps @ [p]))" by simp
  show ?thesis
    unfolding chain_inv_def S using old(5) inj new sub sup rest cnt dis by simp
qed

lemma chain_inv_skip:
  assumes inv: "chain_inv hk ord i ps v c" and p: "\<not> (slot_of hk ord p = i \<and> p \<noteq> 0 \<and> (\<forall>k < 12. v k \<noteq> p))"
  shows "chain_inv hk ord i (ps @ [p]) (\<lambda>k. if c \<le> k then p else v k) c"
proof -
  let ?v = "\<lambda>k. if c \<le> k then p else v k" and ?S = "slot_phones hk ord i ps"
  have old: "v ` {..<min c 12} \<subseteq> ?S" "\<And>k. c \<le> k \<Longrightarrow> k < 12 \<Longrightarrow> v k = (if ps = [] then 0 else last ps)"
    using inv by (auto simp: chain_inv_def)
  have "p \<in> ?S" if sp: "slot_of hk ord p = i" "p \<noteq> 0"
  proof -
    obtain k where k: "k < 12" "v k = p" using p sp by blast
    show ?thesis
    proof (cases "k < c")
      case True
      then show ?thesis using k old(1) by (auto simp: image_subset_iff)
    next
      case False
      then have "p = last ps" "ps \<noteq> []" using old(2) [of k] k sp(2) by (auto split: if_splits)
      then show ?thesis using sp by (simp add: slot_phones_def)
    qed
  qed
  then have S: "slot_phones hk ord i (ps @ [p]) = ?S" unfolding slot_phones_snoc by auto
  have img: "?v ` {..<min c 12} = v ` {..<min c 12}" "c \<le> 12 \<Longrightarrow> ?v ` {..<c} = v ` {..<c}" by (auto simp: image_def)
  have inj: "inj_on ?v {..<min c 12}" using inv by (auto simp: inj_on_def chain_inv_def)
  show ?thesis
    unfolding chain_inv_def img S using inv inj img(2) by (auto simp: chain_inv_def)
qed

lemma initial_repr:
  "replicate CHAIN_BLOCK_COUNT mm256_setzero_si256 = chain_repr (\<lambda>_. 0)" "initial_masks = mask_repr 0"
  by (simp_all add: CHAIN_BLOCK_COUNT_def mm256_setzero_si256_def chain_repr_def numeral_eq_Suc)
    (simp add: initial_masks_def mask_repr_def mm256_set_epi64x_def UINT64_MAX_def Let_def)

lemma fill_loop:
  assumes "length ps < 2 ^ 32" "i < 2 ^ 32"
  shows "\<exists>v c. foldl (fill_step hk ord i) (chain_repr (\<lambda>_. 0), mask_repr 0, 0) ps = (chain_repr v, mask_repr c, of_nat c)
    \<and> chain_inv hk ord i ps v c"
  using assms(1)
proof (induction ps rule: rev_induct)
  case Nil
  then show ?case by (intro exI [of _ "\<lambda>_. 0"] exI [of _ 0]) (simp add: chain_inv_def slot_phones_def)
next
  case (snoc p ps)
  then obtain v c where f: "foldl (fill_step hk ord i) (chain_repr (\<lambda>_. 0), mask_repr 0, 0) ps = (chain_repr v, mask_repr c, of_nat c)"
    and inv: "chain_inv hk ord i ps v c" by auto
  have c: "c < 2 ^ 32" using inv snoc.prems by (simp add: chain_inv_def)
  define ins where "ins \<longleftrightarrow> slot_of hk ord p = i \<and> p \<noteq> 0 \<and> (\<forall>k < 12. v k \<noteq> p)"
  have "foldl (fill_step hk ord i) (chain_repr (\<lambda>_. 0), mask_repr 0, 0) (ps @ [p])
      = (chain_repr (\<lambda>k. if c \<le> k then p else v k), mask_repr (c + of_bool ins), of_nat (c + of_bool ins))"
    using fill_step_repr [OF c assms(2) ins_def] f by simp
  moreover have "chain_inv hk ord i (ps @ [p]) (\<lambda>k. if c \<le> k then p else v k) (c + of_bool ins)"
    using chain_inv_insert [OF inv] chain_inv_skip [OF inv] ins_def by (cases ins) auto
  ultimately show ?case by blast
qed

lemma fill_slot_repr:
  assumes "length ps < 2 ^ 32" "i < 2 ^ 32"
  obtains v c where "chain_inv hk ord i ps v c"
    "fill_slot hk ord ps i = (chain_repr (\<lambda>k. if c \<le> k then - 1 else v k), of_nat c)"
proof -
  obtain v c where f: "foldl (fill_step hk ord i) (chain_repr (\<lambda>_. 0), mask_repr 0, 0) ps = (chain_repr v, mask_repr c, of_nat c)"
    and inv: "chain_inv hk ord i ps v c" using fill_loop [OF assms] by blast
  have "c < 2 ^ 32" using inv assms(1) by (simp add: chain_inv_def)
  then have "fill_slot hk ord ps i = (chain_repr (\<lambda>k. if c \<le> k then - 1 else v k), of_nat c)"
    unfolding fill_slot_def Let_def initial_repr f prod.case UINT64_MAX_def by (subst blend_chain) simp_all
  with inv show thesis using that by blast
qed

text \<open>
  The chain of a slot as a function of its lanes. \<open>keeps\<close> says that the phone has a lane.
\<close>

definition lanes_of :: "hash_key \<Rightarrow> nat \<Rightarrow> phone list \<Rightarrow> nat \<Rightarrow> nat \<Rightarrow> u64" where
  "lanes_of hk ord ps i k = (let b = fst (fill_slot hk ord ps i) ! (k div 3) in b ! (3 - k mod 3))"

definition keeps :: "hash_key \<Rightarrow> nat \<Rightarrow> phone list \<Rightarrow> phone \<Rightarrow> bool" where
  "keeps hk ord ps q \<longleftrightarrow> (\<exists>k < 12. lanes_of hk ord ps (slot_of hk ord q) k = q)"

lemma lanes_repr: "k < 12 \<Longrightarrow> chain_repr v ! (k div 3) ! (3 - k mod 3) = v k"
proof -
  have "\<forall>k < 12. chain_repr v ! (k div 3) ! (3 - k mod 3) = v k" unfolding all_less_12 by (simp add: chain_repr_def)
  then show "k < 12 \<Longrightarrow> chain_repr v ! (k div 3) ! (3 - k mod 3) = v k" by blast
qed

lemma chain_repr_cong: "(\<forall>k < 12. v k = w k) \<Longrightarrow> chain_repr v = chain_repr w"
  unfolding all_less_12 chain_repr_def by simp

lemma fill_slot_lanes:
  assumes "length ps < 2 ^ 32" "i < 2 ^ 32"
  shows "fst (fill_slot hk ord ps i) = chain_repr (lanes_of hk ord ps i)"
proof -
  obtain v c where f: "fill_slot hk ord ps i = (chain_repr (\<lambda>k. if c \<le> k then - 1 else v k), of_nat c)"
    by (rule fill_slot_repr [OF assms])
  have "\<forall>k < 12. (if c \<le> k then - 1 else v k) = lanes_of hk ord ps i k"
    by (simp add: lanes_of_def f lanes_repr)
  then show ?thesis unfolding f fst_conv by (rule chain_repr_cong)
qed

text \<open>A chain keeps the phones of its slot as long as there are at most twelve of them.\<close>

lemma keeps_small:
  assumes "length ps < 2 ^ 32" "q \<in> set ps" "q \<noteq> 0" "card (slot_phones hk ord (slot_of hk ord q) ps) \<le> 12"
  shows "keeps hk ord ps q"
proof -
  let ?i = "slot_of hk ord q"
  have i: "?i < 2 ^ 32" using unat_bound [of "hash_key_hash hk q ord"] by simp
  obtain v c where inv: "chain_inv hk ord ?i ps v c"
    and f: "fill_slot hk ord ps ?i = (chain_repr (\<lambda>k. if c \<le> k then - 1 else v k), of_nat c)"
    by (rule fill_slot_repr [OF assms(1) i])
  have "c \<le> 12" using inv assms(4) by (auto simp: chain_inv_def)
  moreover have "q \<in> slot_phones hk ord ?i ps" using assms(2,3) by (simp add: slot_phones_def)
  ultimately have "q \<in> v ` {..<c}" using inv unfolding chain_inv_def by blast
  then obtain k where "k < c" "v k = q" "k < 12" using \<open>c \<le> 12\<close> by auto
  then show ?thesis unfolding keeps_def by (intro exI [of _ k]) (simp add: lanes_of_def f lanes_repr)
qed

section \<open>Streaming\<close>

definition res_repr :: "(nat \<Rightarrow> uuid) \<Rightarrow> (nat \<Rightarrow> uuid) \<Rightarrow> hash_slot_result" where
  "res_repr d r = (let blk = (\<lambda>f b x y z. [f (d b), f (r x), f (r y), f (r z)])
     in [[blk fst 0 2 1 0, blk snd 0 2 1 0], [blk fst 1 5 4 3, blk snd 1 5 4 3],
         [blk fst 2 8 7 6, blk snd 2 8 7 6], [blk fst 3 11 10 9, blk snd 3 11 10 9]])"

lemma blend_lane: "blend_bytes a b (if P then - 1 else 0) = (if P then b else a)"
  by simp

lemma xor_minus_one: "(x :: u64) XOR - 1 = NOT x"
  by simp

definition update_lanes :: "(nat \<Rightarrow> u64) \<Rightarrow> (nat \<Rightarrow> uuid) \<Rightarrow> phone \<times> uuid \<Rightarrow> nat \<Rightarrow> uuid" where
  "update_lanes w r pu k = (if w k = fst pu then snd pu else r k)"

lemma hash_phone_chain:
  fixes w :: "nat \<Rightarrow> u64"
  defines "eq p \<equiv> [mm256_cmpeq_epi64 (mm256_or_si256 (mm256_set1_epi64x p) chain_block_dummy_mask) (chain_repr w ! 0),
      mm256_cmpeq_epi64 (mm256_or_si256 (mm256_set1_epi64x p) chain_block_dummy_mask) (chain_repr w ! 1),
      mm256_cmpeq_epi64 (mm256_or_si256 (mm256_set1_epi64x p) chain_block_dummy_mask) (chain_repr w ! 2),
      mm256_cmpeq_epi64 (mm256_or_si256 (mm256_set1_epi64x p) chain_block_dummy_mask) (chain_repr w ! 3)]"
    and "ub u \<equiv> [mm256_set1_epi64x (fst u), mm256_set1_epi64x (snd u)]"
  shows "hash_phone_chain_block (hash_phone_chain_block (hash_phone_chain_block (hash_phone_chain_block
      (res_repr d r) (ub u) (eq p) 0) (ub u) (eq p) 1) (ub u) (eq p) 2) (ub u) (eq p) 3
    = res_repr (\<lambda>b. (NOT (fst (d b)), NOT (snd (d b)))) (update_lanes w r (p, u))"
  unfolding eq_def ub_def hash_phone_chain_block_def Let_def
  by (simp add: mm256_cmpeq_epi64_def mm256_or_si256_def mm256_set1_epi64x_def chain_block_dummy_mask_def mm256_set_epi64x_def
      UINT64_MAX_def chain_repr_def res_repr_def Let_def mm256_blendv_epi8_def mm256_xor_si256_def blend_lane update_lanes_def
      del: blend_bytes_full split del: if_split)
    (intro conjI; simp add: eq_commute [of p])

text \<open>The tables of all slots: the chains with lanes \<open>W\<close>, the results with dummy lanes \<open>d\<close> and lanes \<open>r\<close>.\<close>

definition slots_repr :: "nat \<Rightarrow> (nat \<Rightarrow> nat \<Rightarrow> u64) \<Rightarrow> hash_slot list" where
  "slots_repr n W = map (\<lambda>i. chain_repr (W i)) [0..<n]"

definition results_repr :: "nat \<Rightarrow> (nat \<Rightarrow> nat \<Rightarrow> uuid) \<Rightarrow> (nat \<Rightarrow> nat \<Rightarrow> uuid) \<Rightarrow> hash_slot_result list" where
  "results_repr n d r = map (\<lambda>i. res_repr (d i) (r i)) [0..<n]"

definition stream_lane :: "hash_key \<Rightarrow> nat \<Rightarrow> nat \<Rightarrow> u64 \<Rightarrow> uuid \<Rightarrow> phone \<times> uuid \<Rightarrow> uuid" where
  "stream_lane hk ord i x r pu = (if slot_of hk ord (fst pu) = i \<and> x = fst pu then snd pu else r)"

text \<open>The dummy lanes are inverted by every directory entry of their slot.\<close>

definition flipped :: "nat \<Rightarrow> uuid \<Rightarrow> uuid" where
  "flipped n x = (if odd n then (NOT (fst x), NOT (snd x)) else x)"

definition slot_entries :: "hash_key \<Rightarrow> nat \<Rightarrow> nat \<Rightarrow> (phone \<times> uuid) list \<Rightarrow> nat" where
  "slot_entries hk ord i D = length (filter (\<lambda>pu. slot_of hk ord (fst pu) = i) D)"

lemma flipped_flipped: "flipped m (flipped n x) = flipped (n + m) x"
  by (simp add: flipped_def)

lemma hash_phone_repr:
  assumes "slot_of hk ord (fst pu) < n"
  shows "hash_phone hk ord (slots_repr n W) (results_repr n d r) pu
    = results_repr n (\<lambda>i b. flipped (slot_entries hk ord i [pu]) (d i b)) (\<lambda>i k. stream_lane hk ord i (W i k) (r i k) pu)"
proof -
  let ?j = "slot_of hk ord (fst pu)"
  obtain p u where pu: "pu = (p, u)" by (cases pu)
  define d' where "d' = (\<lambda>i b. flipped (slot_entries hk ord i [pu]) (d i b))"
  have "hash_phone hk ord (slots_repr n W) (results_repr n d r) pu
      = (results_repr n d r)[?j := res_repr (d' ?j) (update_lanes (W ?j) (r ?j) pu)]"
    using assms hash_phone_chain [where d = "d ?j" and r = "r ?j" and u = u and w = "W ?j" and p = p]
    by (simp add: hash_phone_def slots_repr_def results_repr_def Let_def pu d'_def flipped_def slot_entries_def del: One_nat_def)
  also have "\<dots> = results_repr n d' (\<lambda>i k. stream_lane hk ord i (W i k) (r i k) pu)"
    by (rule nth_equalityI)
      (auto simp: results_repr_def nth_list_update d'_def flipped_def slot_entries_def stream_lane_def update_lanes_def
        intro!: arg_cong2 [of _ _ _ _ res_repr])
  finally show ?thesis unfolding d'_def .
qed

lemma stream_repr:
  assumes "\<And>p. slot_of hk ord p < n"
  shows "foldl (hash_phone hk ord (slots_repr n W)) (results_repr n d r) D
    = results_repr n (\<lambda>i b. flipped (slot_entries hk ord i D) (d i b)) (\<lambda>i k. foldl (stream_lane hk ord i (W i k)) (r i k) D)"
proof (induction D arbitrary: d r)
  case (Cons pu D)
  have "slot_entries hk ord i [pu] + slot_entries hk ord i D = slot_entries hk ord i (pu # D)" for i by (simp add: slot_entries_def)
  then show ?case unfolding foldl_Cons hash_phone_repr [OF assms] Cons.IH flipped_flipped by simp
qed (simp add: flipped_def slot_entries_def)

lemma contruct_loop_eq: "contruct_loop step xs i rs = foldl step rs (drop i xs)"
proof (induction step xs i rs rule: contruct_loop.induct)
  case (1 step xs i rs)
  let ?c = "CACHE_LINE_SIZE div 8"
  have d: "drop (i + ?c) xs = drop ?c (drop i xs)" by (simp add: add.commute)
  have "foldl step rs (take ?c (drop i xs) @ drop ?c (drop i xs)) = foldl step (foldl step rs (take ?c (drop i xs))) (drop (i + ?c) xs)"
    unfolding foldl_append d ..
  then have "foldl step (foldl step rs (take ?c (drop i xs))) (drop (i + ?c) xs) = foldl step rs (drop i xs)"
    unfolding append_take_drop_id ..
  then show ?case unfolding contruct_loop.simps [of step xs i rs] Let_def using 1 [OF refl refl]
    by (cases "i + ?c * 2 + ?c < length xs") simp_all
qed

section \<open>Collecting\<close>

text \<open>The last entry of the directory for a phone.\<close>

definition dir_lookup :: "(phone \<times> uuid) list \<Rightarrow> phone \<Rightarrow> uuid" where
  "dir_lookup D q = foldl (\<lambda>r pu. if fst pu = q then snd pu else r) (0, 0) D"

lemma stream_lane_lookup:
  "foldl (stream_lane hk ord i q) (0, 0) D = (if slot_of hk ord q = i then dir_lookup D q else (0, 0))"
  unfolding dir_lookup_def by (induction D rule: rev_induct) (auto simp: stream_lane_def)

lemma or_select: "(if P then U else 0 :: u64) OR (if Q then U else 0) = (if P \<or> Q then U else 0)"
  by simp

lemma ex_less_12: "(\<exists>k < 12. P k) \<longleftrightarrow> P 0 \<or> P 1 \<or> P 2 \<or> P 3 \<or> P 4 \<or> P 5 \<or> P 6 \<or> P 7 \<or> P 8 \<or> P 9 \<or> P 10 \<or> P (11 :: nat)"
  using all_less_12 [of "\<lambda>k. \<not> P k"] by metis

lemma select_lanes:
  assumes "\<forall>k < 12. w k = q \<longrightarrow> r k = (U :: u64)" "a < 12" "b < 12" "c < 12" "d < 12"
  shows "(if w a = q then r a else if w b = q then r b else if w c = q then r c else if w d = q then r d else 0)
    = (if w a = q \<or> w b = q \<or> w c = q \<or> w d = q then U else 0)"
  using assms by auto

definition sel :: "bool \<Rightarrow> u64" where "sel P = (if P then - 1 else 0)"

lemma cmpeq_block:
  "q \<noteq> 0 \<Longrightarrow> mm256_cmpeq_epi64 (mm256_set1_epi64x q) (mm256_and_si256 [0, x, y, z] chain_block_non_dummy_mask)
    = [sel False, sel (x = q), sel (y = q), sel (z = q)]"
  by (simp add: m256_defs chain_block_non_dummy_mask_def UINT64_MAX_def sel_def eq_commute [of q x] eq_commute [of q y] eq_commute [of q z])

lemma blend_sel [simp]: "blend_bytes a b (sel P) = (if P then b else a)"
  by (simp add: sel_def)

lemma blend_block:
  "mm256_blendv_epi8 [l, a, b, c] [d, x, y, z] [sel False, sel P, sel Q, sel R]
    = [l, if P then x else a, if Q then y else b, if R then z else c]"
  by (simp add: mm256_blendv_epi8_def)

lemma list_nth: "[x0, x1, x2, x3] ! 0 = x0" "[x0, x1, x2, x3] ! 1 = x1" "[x0, x1, x2, x3] ! 2 = x2" "[x0, x1, x2, x3] ! 3 = x3"
  by simp_all

lemma collect_word:
  assumes q: "q \<noteq> 0" and r: "\<forall>k < 12. w k = q \<longrightarrow> r k = U"
    and res: "map (\<lambda>b. b ! j) res = [[d 0, r 2, r 1, r 0], [d 1, r 5, r 4, r 3], [d 2, r 8, r 7, r 6], [d 3, r 11, r 10, r 9 :: u64]]"
  shows "hash_slot_collect_result res (map (\<lambda>b. mm256_cmpeq_epi64 (mm256_set1_epi64x q)
      (mm256_and_si256 b chain_block_non_dummy_mask)) (chain_repr w)) j = (if \<exists>k < 12. w k = q then U else 0)"
proof -
  have len: "length res = 4" using arg_cong [OF res, of length] by simp
  have n: "res ! b ! j = [[d 0, r 2, r 1, r 0], [d 1, r 5, r 4, r 3], [d 2, r 8, r 7, r 6], [d 3, r 11, r 10, r 9]] ! b" if "b < 4" for b
    using that len by (metis nth_map res)
  have b: "res ! 0 ! j = [d 0, r 2, r 1, r 0]" "res ! 1 ! j = [d 1, r 5, r 4, r 3]" "res ! 2 ! j = [d 2, r 8, r 7, r 6]"
    "res ! 3 ! j = [d 3, r 11, r 10, r 9]" using n [of 0] n [of 1] n [of 2] n [of 3] by simp_all
  have e: "(map (\<lambda>b. mm256_cmpeq_epi64 (mm256_set1_epi64x q) (mm256_and_si256 b chain_block_non_dummy_mask)) (chain_repr w))
     = [[sel False, sel (w 2 = q), sel (w 1 = q), sel (w 0 = q)], [sel False, sel (w 5 = q), sel (w 4 = q), sel (w 3 = q)],
        [sel False, sel (w 8 = q), sel (w 7 = q), sel (w 6 = q)], [sel False, sel (w 11 = q), sel (w 10 = q), sel (w 9 = q)]]"
    using cmpeq_block [OF q] by (simp add: chain_repr_def)
  have lanes: "(if w 11 = q then r 11 else if w 8 = q then r 8 else if w 5 = q then r 5 else if w 2 = q then r 2 else 0)
      = (if w 11 = q \<or> w 8 = q \<or> w 5 = q \<or> w 2 = q then U else 0)"
    "(if w 10 = q then r 10 else if w 7 = q then r 7 else if w 4 = q then r 4 else if w 1 = q then r 1 else 0)
      = (if w 10 = q \<or> w 7 = q \<or> w 4 = q \<or> w 1 = q then U else 0)"
    "(if w 9 = q then r 9 else if w 6 = q then r 6 else if w 3 = q then r 3 else if w 0 = q then r 0 else 0)
      = (if w 9 = q \<or> w 6 = q \<or> w 3 = q \<or> w 0 = q then U else 0)"
    by (rule select_lanes [OF r]; simp)+
  have "hash_slot_collect_result res (map (\<lambda>b. mm256_cmpeq_epi64 (mm256_set1_epi64x q)
      (mm256_and_si256 b chain_block_non_dummy_mask)) (chain_repr w)) j
    = 0 OR (if w 11 = q \<or> w 8 = q \<or> w 5 = q \<or> w 2 = q then U else 0) OR (if w 10 = q \<or> w 7 = q \<or> w 4 = q \<or> w 1 = q then U else 0)
      OR (if w 9 = q \<or> w 6 = q \<or> w 3 = q \<or> w 0 = q then U else 0)"
    unfolding hash_slot_collect_result_def e Let_def b mm256_setzero_si256_def mm256_extract_epi64_def
      list_nth blend_block lanes ..
  also have "\<dots> = (if \<exists>k < 12. w k = q then U else 0)" unfolding ex_less_12 or_select or.left_neutral by (intro if_cong refl) blast
  finally show ?thesis .
qed

lemma collect_lane:
  assumes q: "q \<noteq> 0" and r: "\<forall>k < 12. w k = q \<longrightarrow> r k = U"
  shows "collect_step q a (chain_repr w, res_repr d r)
    = (if \<exists>k < 12. w k = q then (fst a OR fst U, snd a OR snd U) else a)"
proof -
  have f: "\<forall>k < 12. w k = q \<longrightarrow> fst (r k) = fst U" and s: "\<forall>k < 12. w k = q \<longrightarrow> snd (r k) = snd U" using r by auto
  have m: "[g (chain_repr w ! 0), g (chain_repr w ! 1), g (chain_repr w ! 2), g (chain_repr w ! 3)] = map g (chain_repr w)"
    for g :: "m256i \<Rightarrow> m256i" by (simp add: chain_repr_def)
  show ?thesis
    unfolding collect_step_def Let_def prod.case
      m [of "\<lambda>b. mm256_cmpeq_epi64 (mm256_set1_epi64x q) (mm256_and_si256 b chain_block_non_dummy_mask)"]
    by (subst collect_word [OF q f, where d = "\<lambda>b. fst (d b)"], simp add: res_repr_def,
        subst collect_word [OF q s, where d = "\<lambda>b. snd (d b)"]) (auto simp: res_repr_def)
qed

lemma collect_slots:
  assumes q: "q \<noteq> 0" and r: "\<And>i k. i < n \<Longrightarrow> k < 12 \<Longrightarrow> W i k = q \<Longrightarrow> r i k = (if s = i then U else (0, 0))"
  shows "collect_result (slots_repr n W) (results_repr n d r) q = (if s < n \<and> (\<exists>k < 12. W s k = q) then U else (0, 0))"
proof -
  have "foldl (\<lambda>a i. collect_step q a (chain_repr (W i), res_repr (d i) (r i))) (0, 0) [0..<m]
      = (if s < m \<and> (\<exists>k < 12. W s k = q) then U else (0, 0))" if "m \<le> n" for m
    using that
  proof (induction m)
    case (Suc m)
    let ?a = "if s < m \<and> (\<exists>k < 12. W s k = q) then U else (0, 0)"
    have "collect_step q ?a (chain_repr (W m), res_repr (d m) (r m))
        = (if \<exists>k < 12. W m k = q then (fst ?a OR fst (if s = m then U else (0, 0)), snd ?a OR snd (if s = m then U else (0, 0))) else ?a)"
      using r [of m] Suc.prems by (intro collect_lane [OF q]) auto
    also have "\<dots> = (if s < Suc m \<and> (\<exists>k < 12. W s k = q) then U else (0, 0))" by (auto simp: less_Suc_eq)
    finally show ?case using Suc by simp
  qed simp
  moreover have "zip (slots_repr n W) (results_repr n d r) = map (\<lambda>i. (chain_repr (W i), res_repr (d i) (r i))) [0..<n]"
    by (simp add: slots_repr_def results_repr_def zip_map_map zip_same_conv_map)
  ultimately show ?thesis unfolding collect_result_def by (simp add: foldl_map)
qed

text \<open>
  The number 0 is not told from the dummy lanes, which are cleared to 0 before the comparison: it is in no chain, and its result is what
  the dummy lanes of the last block hold.
\<close>

lemma cmpeq_zero:
  "x \<noteq> 0 \<Longrightarrow> y \<noteq> 0 \<Longrightarrow> z \<noteq> 0 \<Longrightarrow> mm256_cmpeq_epi64 (mm256_set1_epi64x 0) (mm256_and_si256 [0, x, y, z] chain_block_non_dummy_mask)
    = [sel True, sel False, sel False, sel False]"
  by (simp add: m256_defs chain_block_non_dummy_mask_def UINT64_MAX_def sel_def)

lemma blend_zero:
  "mm256_blendv_epi8 [l, a, b, c] [d, x, y, z] [sel True, sel False, sel False, sel False] = [d, a, b, c]"
  by (simp add: mm256_blendv_epi8_def)

lemma collect_word_zero:
  assumes "res ! 0 ! j = [x0, a0, b0, c0]" "res ! 1 ! j = [x1, a1, b1, c1]" "res ! 2 ! j = [x2, a2, b2, c2]" "res ! 3 ! j = [x3, a3, b3, c3]"
  shows "hash_slot_collect_result res (replicate 4 [sel True, sel False, sel False, sel False]) j = x3"
proof -
  have r: "replicate 4 y ! 0 = y" "replicate 4 y ! 1 = y" "replicate 4 y ! 2 = y" "replicate 4 y ! 3 = y" for y :: m256i by simp_all
  show ?thesis
    unfolding hash_slot_collect_result_def Let_def assms mm256_setzero_si256_def mm256_extract_epi64_def r blend_zero list_nth by simp
qed

lemma collect_step_zero:
  assumes "\<forall>k < 12. w k \<noteq> 0"
  shows "collect_step 0 a (chain_repr w, res_repr d r) = (fst a OR fst (d 3), snd a OR snd (d 3))"
proof -
  have c: "[mm256_cmpeq_epi64 (mm256_set1_epi64x 0) (mm256_and_si256 (chain_repr w ! 0) chain_block_non_dummy_mask),
      mm256_cmpeq_epi64 (mm256_set1_epi64x 0) (mm256_and_si256 (chain_repr w ! 1) chain_block_non_dummy_mask),
      mm256_cmpeq_epi64 (mm256_set1_epi64x 0) (mm256_and_si256 (chain_repr w ! 2) chain_block_non_dummy_mask),
      mm256_cmpeq_epi64 (mm256_set1_epi64x 0) (mm256_and_si256 (chain_repr w ! 3) chain_block_non_dummy_mask)]
    = replicate 4 [sel True, sel False, sel False, sel False]"
    using assms by (simp add: all_less_12 chain_repr_def cmpeq_zero numeral_eq_Suc)
  have "hash_slot_collect_result (res_repr d r) (replicate 4 [sel True, sel False, sel False, sel False]) 0 = fst (d 3)"
    "hash_slot_collect_result (res_repr d r) (replicate 4 [sel True, sel False, sel False, sel False]) 1 = snd (d 3)"
    by (auto intro!: collect_word_zero simp: res_repr_def)
  then show ?thesis unfolding collect_step_def Let_def prod.case c by simp
qed

lemma collect_zero:
  assumes "\<And>i k. i < n \<Longrightarrow> k < 12 \<Longrightarrow> W i k \<noteq> 0"
  shows "collect_result (slots_repr n W) (results_repr n d r) 0
    = foldl (\<lambda>a i. (fst a OR fst (d i 3), snd a OR snd (d i 3))) (0, 0) [0..<n]"
proof -
  have "zip (slots_repr n W) (results_repr n d r) = map (\<lambda>i. (chain_repr (W i), res_repr (d i) (r i))) [0..<n]"
    by (simp add: slots_repr_def results_repr_def zip_map_map zip_same_conv_map)
  then show ?thesis unfolding collect_result_def foldl_map
    by (auto simp: foldl_map assms collect_step_zero intro!: foldl_cong)
qed

section \<open>The lookup\<close>

text \<open>Result tables whose usable lanes are all zero: how the tables are allocated, and how a lookup leaves them.\<close>

definition results_clear :: "hash_slot_result list \<Rightarrow> bool" where
  "results_clear rs \<longleftrightarrow> list_all (\<lambda>res. length res = 4
     \<and> list_all (\<lambda>blk. length blk = 2 \<and> list_all (\<lambda>x. length x = 4 \<and> tl x = [0, 0, 0]) blk) res) rs"

lemma clear_block: "length blk = 2 \<Longrightarrow> list_all (\<lambda>x. length x = 4 \<and> tl x = [0, 0, 0 :: u64]) blk
    \<Longrightarrow> blk = [[hd (blk ! 0), 0, 0, 0], [hd (blk ! 1), 0, 0, 0]]"
  by (auto simp: length_Suc_conv numeral_2_eq_2 numeral_eq_Suc)

lemma results_clear_repr: "results_clear rs \<longleftrightarrow> (\<exists>d. rs = results_repr (length rs) d (\<lambda>_ _. (0, 0)))"
proof
  assume c: "results_clear rs"
  define d where "d i b = (hd (rs ! i ! b ! 0), hd (rs ! i ! b ! 1))" for i b
  have "rs ! i = res_repr (d i) (\<lambda>_. (0, 0))" if i: "i < length rs" for i
  proof -
    have l: "length (rs ! i) = 4" and a: "list_all (\<lambda>blk. length blk = 2 \<and> list_all (\<lambda>x. length x = 4 \<and> tl x = [0, 0, 0]) blk) (rs ! i)"
      using c i by (auto simp: results_clear_def list_all_length)
    have b: "rs ! i ! b = [[fst (d i b), 0, 0, 0], [snd (d i b), 0, 0, 0]]" if "b < 4" for b
      using clear_block [of "rs ! i ! b"] a that l by (simp add: d_def list_all_length)
    have "rs ! i = [rs ! i ! 0, rs ! i ! 1, rs ! i ! 2, rs ! i ! 3]"
      using l by (intro nth_equalityI) (auto simp: less_Suc_eq numeral_eq_Suc)
    then show ?thesis using b [of 0] b [of 1] b [of 2] b [of 3] by (simp add: res_repr_def)
  qed
  then show "\<exists>d. rs = results_repr (length rs) d (\<lambda>_ _. (0, 0))"
    by (intro exI [of _ d] nth_equalityI) (simp_all add: results_repr_def)
next
  assume "\<exists>d. rs = results_repr (length rs) d (\<lambda>_ _. (0, 0))"
  then obtain d where d: "rs = results_repr (length rs) d (\<lambda>_ _. (0, 0))" by blast
  show "results_clear rs" by (subst d) (simp add: results_clear_def results_repr_def res_repr_def list_all_iff)
qed

lemma erase_repr:
  "\<exists>d'. map (map (map erase_result)) (results_repr n d r) = results_repr n d' (\<lambda>_ _. (0, 0))"
proof -
  have e: "erase_result [a, x, y, z] = [a XOR - 1, 0, 0, 0]" for a x y z
    by (simp add: erase_result_def m256_defs chain_block_dummy_mask_def UINT64_MAX_def)
  show ?thesis
    by (rule exI [of _ "\<lambda>i b. (fst (d i b) XOR - 1, snd (d i b) XOR - 1)"])
      (simp add: results_repr_def res_repr_def e)
qed

lemma trailing_zeros_power [simp]: "trailing_zeros (2 ^ k) = k"
  by (induction k) (simp_all add: trailing_zeros.simps)

lemma slot_of_bound: "ord < 32 \<Longrightarrow> slot_of hk ord p < 2 ^ ord"
proof -
  assume "ord < 32"
  then have "hash_key_hash hk p ord = take_bit ord (hash_key_hash hk p ord)"
    by (simp add: hash_key_hash_def Let_def take_bit_eq_mask mask_eq_exp_minus_1 push_bit_eq_mult and.assoc flip: mask_eq_exp_minus_1)
  then show ?thesis by (metis take_bit_nat_less_exp unsigned_take_bit_eq)
qed

definition answer :: "hash_key \<Rightarrow> nat \<Rightarrow> (phone \<times> uuid) list \<Rightarrow> phone list \<Rightarrow> phone \<Rightarrow> uuid" where
  "answer hk ord D ps q = (if keeps hk ord ps q then dir_lookup D q else (0, 0))"

text \<open>The answer for the number 0: the dummy lanes of the last blocks of all slots, each inverted once for every directory entry of its slot.\<close>

definition zero_answer :: "hash_key \<Rightarrow> nat \<Rightarrow> (phone \<times> uuid) list \<Rightarrow> hash_slot_result list \<Rightarrow> uuid" where
  "zero_answer hk ord D results = foldl (\<lambda>a i.
     let x = flipped (slot_entries hk ord i D) (results ! i ! 3 ! 0 ! 0, results ! i ! 3 ! 1 ! 0)
     in (fst a OR fst x, snd a OR snd x)) (0, 0) [0..<2 ^ ord]"

definition any_answer :: "hash_key \<Rightarrow> nat \<Rightarrow> (phone \<times> uuid) list \<Rightarrow> hash_slot_result list \<Rightarrow> (phone \<Rightarrow> uuid) \<Rightarrow> phone \<Rightarrow> uuid" where
  "any_answer hk ord D results f q = (if q = 0 then zero_answer hk ord D results else f q)"


lemma lanes_nonzero:
  assumes "length ps < 2 ^ 32" "i < 2 ^ 32" "k < 12"
  shows "lanes_of hk ord ps i k \<noteq> 0"
proof -
  obtain v c where inv: "chain_inv hk ord i ps v c" and f: "fill_slot hk ord ps i = (chain_repr (\<lambda>k. if c \<le> k then - 1 else v k), of_nat c)"
    by (rule fill_slot_repr [OF assms(1,2)])
  have "lanes_of hk ord ps i k = (if c \<le> k then - 1 else v k)" using assms(3) by (simp add: lanes_of_def f lanes_repr)
  moreover have "v k \<in> slot_phones hk ord i ps" if "k < c" using inv assms(3) that unfolding chain_inv_def by auto
  ultimately show ?thesis by (auto simp: slot_phones_def)
qed

lemma fill_count:
  assumes "length ps < 2 ^ 32" "i < 2 ^ 32"
  shows "card (slot_phones hk ord i ps) \<le> unat (snd (fill_slot hk ord ps i))"
    and "card (slot_phones hk ord i ps) \<le> 12 \<Longrightarrow> unat (snd (fill_slot hk ord ps i)) \<le> 12"
    and "distinct ps \<Longrightarrow> unat (snd (fill_slot hk ord ps i)) = card (slot_phones hk ord i ps)"
proof -
  obtain v c where inv: "chain_inv hk ord i ps v c" and f: "fill_slot hk ord ps i = (chain_repr (\<lambda>k. if c \<le> k then - 1 else v k), of_nat c)"
    by (rule fill_slot_repr [OF assms])
  have "c < 2 ^ 32" using inv assms(1) by (simp add: chain_inv_def)
  then have "unat (of_nat c :: u32) = c" by (intro unat_word_of_nat) simp
  then have c: "unat (snd (fill_slot hk ord ps i)) = c" by (simp add: f)
  show "card (slot_phones hk ord i ps) \<le> unat (snd (fill_slot hk ord ps i))"
    "card (slot_phones hk ord i ps) \<le> 12 \<Longrightarrow> unat (snd (fill_slot hk ord ps i)) \<le> 12"
    "distinct ps \<Longrightarrow> unat (snd (fill_slot hk ord ps i)) = card (slot_phones hk ord i ps)"
    using inv unfolding c by (auto simp: chain_inv_def not_less [symmetric])
qed

lemma filled_slots:
  assumes "length ps < 2 ^ 32" "ord < 32"
  shows "map fst (map (fill_slot hk ord ps) [0..<2 ^ ord]) = slots_repr (2 ^ ord) (lanes_of hk ord ps)"
proof -
  have "fst (fill_slot hk ord ps i) = chain_repr (lanes_of hk ord ps i)" if "i < 2 ^ ord" for i
  proof (rule fill_slot_lanes [OF assms(1)])
    have "(2 :: nat) ^ ord \<le> 2 ^ 32" using assms(2) by (intro power_increasing) simp_all
    then show "i < 2 ^ 32" using that by linarith
  qed
  then show ?thesis by (simp add: slots_repr_def)
qed

lemma collect_directory:
  assumes "ord < 32" "q \<noteq> 0"
  shows "collect_result (slots_repr (2 ^ ord) (lanes_of hk ord ps))
      (results_repr (2 ^ ord) d (\<lambda>i k. foldl (stream_lane hk ord i (lanes_of hk ord ps i k)) (0, 0) D)) q = answer hk ord D ps q"
proof -
  have "collect_result (slots_repr (2 ^ ord) (lanes_of hk ord ps))
      (results_repr (2 ^ ord) d (\<lambda>i k. foldl (stream_lane hk ord i (lanes_of hk ord ps i k)) (0, 0) D)) q
    = (if slot_of hk ord q < 2 ^ ord \<and> (\<exists>k < 12. lanes_of hk ord ps (slot_of hk ord q) k = q) then dir_lookup D q else (0, 0))"
    by (rule collect_slots [OF assms(2)]) (simp add: stream_lane_lookup)
  then show ?thesis using slot_of_bound [OF assms(1)] by (simp add: answer_def keeps_def)
qed

lemma slot_index: "i < 2 ^ ord \<Longrightarrow> ord < 32 \<Longrightarrow> i < (2 :: nat) ^ 32"
  using power_strict_increasing [of ord 32 "2 :: nat"] by linarith

lemma collect_all:
  assumes "ord < 32" "length ps < 2 ^ 32" "results = results_repr (2 ^ ord) d (\<lambda>_ _. (0, 0))"
  shows "collect_result (slots_repr (2 ^ ord) (lanes_of hk ord ps))
      (results_repr (2 ^ ord) (\<lambda>i b. flipped (slot_entries hk ord i D) (d i b))
        (\<lambda>i k. foldl (stream_lane hk ord i (lanes_of hk ord ps i k)) (0, 0) D)) q
    = any_answer hk ord D results (answer hk ord D ps) q"
proof (cases "q = 0")
  case True
  have r: "results ! i ! 3 ! 0 ! 0 = fst (d i 3)" "results ! i ! 3 ! 1 ! 0 = snd (d i 3)" if "i < 2 ^ ord" for i
    using that by (simp_all add: assms(3) results_repr_def res_repr_def)
  have "collect_result (slots_repr (2 ^ ord) (lanes_of hk ord ps))
      (results_repr (2 ^ ord) (\<lambda>i b. flipped (slot_entries hk ord i D) (d i b))
        (\<lambda>i k. foldl (stream_lane hk ord i (lanes_of hk ord ps i k)) (0, 0) D)) 0
    = foldl (\<lambda>a i. (fst a OR fst (flipped (slot_entries hk ord i D) (d i 3)), snd a OR snd (flipped (slot_entries hk ord i D) (d i 3))))
        (0, 0) [0..<2 ^ ord]"
    using lanes_nonzero [OF assms(2) slot_index [OF _ assms(1)]] by (intro collect_zero) auto
  also have "\<dots> = zero_answer hk ord D results" unfolding zero_answer_def Let_def by (intro foldl_cong) (auto simp: r [unfolded One_nat_def])
  finally show ?thesis by (simp add: True any_answer_def)
next
  case False
  then show ?thesis using collect_directory [OF assms(1) False] by (simp add: any_answer_def)
qed

lemma hash_lookup_run:
  assumes gen: "hash_key_generate rdrand 10 w = (Some hk, w')" and n: "length slots = 2 ^ ord" "ord < 32"
    and rs: "results_clear results" "length results = length slots" and ps: "length ps < 2 ^ 32"
    and fits: "\<forall>i < 2 ^ ord. snd (fill_slot hk ord ps i) \<le> CHAIN_PHONE_COUNT"
  shows "\<exists>results'. hash_lookup rdrand D ps out slots results w
      = ((None, concat (map (\<lambda>q. uuid_bytes (any_answer hk ord D results (answer hk ord D ps) q)) ps),
          replicate (length slots) (replicate 4 [0, 0, 0, 0]), results'), w')
    \<and> results_clear results' \<and> length results' = length slots"
proof -
  obtain d where d: "results = results_repr (2 ^ ord) d (\<lambda>_ _. (0, 0))" using rs n by (auto simp: results_clear_repr)
  let ?S = "slots_repr (2 ^ ord) (lanes_of hk ord ps)" and ?f = "any_answer hk ord D results (answer hk ord D ps)"
  have c: "cds_contruct_hash D hk ord ?S results
      = results_repr (2 ^ ord) (\<lambda>i b. flipped (slot_entries hk ord i D) (d i b))
          (\<lambda>i k. foldl (stream_lane hk ord i (lanes_of hk ord ps i k)) (0, 0) D)"
    unfolding cds_contruct_hash_def contruct_loop_eq drop_0 d by (rule stream_repr [OF slot_of_bound [OF n(2)]])
  obtain d'' where e: "map (map (map erase_result)) (cds_contruct_hash D hk ord ?S results) = results_repr (2 ^ ord) d'' (\<lambda>_ _. (0, 0))"
    using erase_repr unfolding c by blast
  have a: "map (uuid_bytes \<circ> collect_result ?S (cds_contruct_hash D hk ord ?S results)) ps = map (\<lambda>q. uuid_bytes (?f q)) ps"
    unfolding c o_def collect_all [OF n(2) ps d] ..
  have o: "\<not> list_ex (\<lambda>(_, chain_idx). CHAIN_PHONE_COUNT < chain_idx) (map (fill_slot hk ord ps) [0..<2 ^ ord])"
    using fits by (simp add: list_ex_iff case_prod_beta not_less)
  have z: "map (\<lambda>_. replicate CHAIN_BLOCK_COUNT mm256_setzero_si256) ?S = replicate (length slots) (replicate 4 [0, 0, 0, 0])"
    by (simp add: CHAIN_BLOCK_COUNT_def mm256_setzero_si256_def map_replicate_const slots_repr_def n)
  have "hash_lookup rdrand D ps out slots results w
      = ((None, concat (map (\<lambda>q. uuid_bytes (?f q)) ps), replicate (length slots) (replicate 4 [0, 0, 0, 0]),
          results_repr (2 ^ ord) d'' (\<lambda>_ _. (0, 0))), w')"
    unfolding hash_lookup_def n(1) trailing_zeros_power Let_def filled_slots [OF ps n(2)] gen
    using n(2) o by (simp add: is_power_of_two_def a e z [unfolded n(1)])
  moreover have "results_clear (results_repr (2 ^ ord) d'' (\<lambda>_ _. (0, 0)))"
    unfolding results_clear_repr by (rule exI [of _ d'']) (simp add: results_repr_def)
  moreover have "length (results_repr (2 ^ ord) d'' (\<lambda>_ _. (0, 0))) = length slots" by (simp add: results_repr_def n)
  ultimately show ?thesis by blast
qed

lemma chain_phone_count: "CHAIN_PHONE_COUNT = 16"
  by (simp add: CHAIN_PHONE_COUNT_def CHAIN_BLOCK_COUNT_def CHAIN_BLOCK_PHONE_COUNT_def)

lemma length_uuid_bytes [simp]: "length (uuid_bytes u) = 16"
  by (simp add: uuid_bytes_def)


lemma lookup_fits_all:
  assumes gen: "hash_key_generate rdrand 10 w = (Some hk, w')" and n: "length slots = 2 ^ ord" "ord < 32"
    and rs: "results_clear results" "length results = length slots" and ps: "length ps < 2 ^ 32"
    and fits: "\<forall>i < 2 ^ ord. card (slot_phones hk ord i ps) \<le> 12"
  shows "\<exists>results'. hash_lookup rdrand D ps out slots results w
      = ((None, concat (map (\<lambda>q. uuid_bytes (any_answer hk ord D results (dir_lookup D) q)) ps),
          replicate (length slots) (replicate 4 [0, 0, 0, 0]), results'), w')
    \<and> results_clear results' \<and> length results' = length slots"
proof -
  have "snd (fill_slot hk ord ps i) \<le> CHAIN_PHONE_COUNT" if i: "i < 2 ^ ord" for i
    using fill_count(2) [OF ps slot_index [OF i n(2)], of hk ord] fits i by (simp add: chain_phone_count word_le_nat_alt)
  then have run: "\<forall>i < 2 ^ ord. snd (fill_slot hk ord ps i) \<le> CHAIN_PHONE_COUNT" by blast
  have "answer hk ord D ps q = dir_lookup D q" if "q \<in> set ps" "q \<noteq> 0" for q
    using keeps_small [OF ps that, of hk ord] fits slot_of_bound [OF n(2), of hk q] by (auto simp: answer_def)
  then have e: "map (\<lambda>q. uuid_bytes (any_answer hk ord D results (answer hk ord D ps) q)) ps
      = map (\<lambda>q. uuid_bytes (any_answer hk ord D results (dir_lookup D) q)) ps" by (simp add: any_answer_def)
  show ?thesis using hash_lookup_run [OF gen n rs ps run, of D out] unfolding e .
qed

lemma lookup_overflows:
  assumes gen: "hash_key_generate rdrand 10 w = (Some hk, w')" and n: "length slots = 2 ^ ord" "ord < 32"
    and ps: "length ps < 2 ^ 32" and over: "i < 2 ^ ord" "unat CHAIN_PHONE_COUNT < card (slot_phones hk ord i ps)"
  shows "\<exists>slots'. hash_lookup rdrand D ps out slots results w = ((Some HashTableOverflow, out, slots', results), w')
    \<and> length slots' = length slots"
proof -
  have "list_ex (\<lambda>(_, chain_idx). CHAIN_PHONE_COUNT < chain_idx) (map (fill_slot hk ord ps) [0..<2 ^ ord])"
    using fill_count(1) [OF ps slot_index [OF over(1) n(2)], of hk ord] over
    by (auto simp: list_ex_iff word_less_nat_alt case_prod_beta intro!: bexI [of _ i])
  then show ?thesis unfolding hash_lookup_def n(1) trailing_zeros_power Let_def gen
    using n(2) by (simp add: is_power_of_two_def n(1))
qed

text \<open>A table of one slot, and a generator that always delivers the same word.\<close>

lemma generate_const: "hash_key_generate (\<lambda>w. ((True, 7), Suc w)) 10 0 = (Some (hash_key_set 7 7), 2)"
  by (simp add: numeral_eq_Suc)

lemma zero_results: "results_clear [replicate 4 (replicate 2 (replicate 4 0))]"
  by (simp add: results_clear_def numeral_eq_Suc)

lemma one_slot:
  assumes "n < 100"
  shows "distinct (map of_nat [1..<Suc n] :: phone list)" "(0 :: phone) \<notin> of_nat ` {1..<Suc n}"
    "card (slot_phones hk 0 0 (map of_nat [1..<Suc n])) = n"
proof -
  have u: "unat (of_nat k :: phone) = k" if "k < Suc n" for k using assms that by (intro unat_word_of_nat) simp
  have inj: "inj_on (of_nat :: nat \<Rightarrow> phone) {1..<Suc n}"
  proof (rule inj_onI)
    fix x y assume a: "x \<in> {1..<Suc n}" "y \<in> {1..<Suc n}" and e: "(of_nat x :: phone) = of_nat y"
    then have "unat (of_nat x :: phone) = unat (of_nat y :: phone)" by (simp only: e)
    then show "x = y" using a by (simp only: u atLeastLessThan_iff)
  qed
  then show d: "distinct (map of_nat [1..<Suc n] :: phone list)" by (simp only: distinct_map distinct_upt set_upt)
  show z: "(0 :: phone) \<notin> of_nat ` {1..<Suc n}"
  proof
    assume "(0 :: phone) \<in> of_nat ` {1..<Suc n}"
    then obtain k where k: "1 \<le> k" "k < Suc n" "(0 :: phone) = of_nat k" unfolding image_iff by force
    then show False using u [OF k(2)] unfolding k(3) [symmetric] by simp
  qed
  have "slot_of hk 0 p = 0" for p using slot_of_bound [of 0 hk p] by simp
  then have "slot_phones hk 0 0 (map of_nat [1..<Suc n]) = set (map of_nat [1..<Suc n])" 
    using z by (auto simp: slot_phones_def)
  then show "card (slot_phones hk 0 0 (map of_nat [1..<Suc n])) = n" using distinct_card [OF d] by simp
qed

section \<open>Properties\<close>

text \<open>C7. With a table of \<open>2 ^ ord\<close> slots, of which none gets more than twelve different phones of those asked for, the lookup succeeds
  and writes, for every phone other than 0 and in the order asked, the UUID of the last directory entry of that phone, or
  zero bytes when the directory has none; the chains are zeroed and the result registers are clear for the next lookup. The number 0 is
  taken for a dummy: whatever the directory says of it, its answer is the disjunction of the dummy lanes over all slots, each inverted once
  for every directory entry of its slot.
\<close>

theorem hash_lookup_correct:
  assumes gen: "hash_key_generate rdrand 10 w = (Some hk, w')" and n: "length slots = 2 ^ ord" "ord < 32"
    and rs: "results_clear results" "length results = length slots" and ps: "length ps < 2 ^ 32"
    and fits: "\<forall>i < 2 ^ ord. card (slot_phones hk ord i ps) \<le> 12"
  shows "\<exists>results'. hash_lookup rdrand D ps out slots results w
      = ((None, concat (map (\<lambda>q. uuid_bytes (if q = 0 then zero_answer hk ord D results else dir_lookup D q)) ps),
          replicate (length slots) (replicate 4 [0, 0, 0, 0]), results'), w')
    \<and> results_clear results' \<and> length results' = length slots"
  using lookup_fits_all [OF assms] unfolding any_answer_def .

theorem hash_lookup_correct_witness:
  "\<exists>results'. hash_lookup (\<lambda>w. ((True, 7), Suc w)) [(15, (1, 2)), (16, (3, 4)), (15, (5, 6))] [16, 9, 0, 15] [] [[]]
      [replicate 4 (replicate 2 (replicate 4 0))] 0
    = ((None, uuid_bytes (3, 4) @ uuid_bytes (0, 0) @ uuid_bytes (- 1, - 1) @ uuid_bytes (5, 6), [replicate 4 [0, 0, 0, 0]], results'), 2)
    \<and> results_clear results' \<and> length results' = 1"
proof -
  let ?D = "[(15, (1, 2)), (16, (3, 4)), (15, (5, 6))] :: (phone \<times> uuid) list" and ?R = "[replicate 4 (replicate 2 (replicate 4 0))]"
  have "card (slot_phones (hash_key_set 7 7) 0 0 [16, 9, 0, 15]) \<le> card (set [16, 9, 0, 15 :: phone])"
    by (rule card_mono) (auto simp: slot_phones_def)
  also have "\<dots> \<le> 12" using card_length [of "[16, 9, 0, 15 :: phone]"] by simp
  finally have c: "card (slot_phones (hash_key_set 7 7) 0 0 [16, 9, 0, 15]) \<le> 12" .
  have "slot_of (hash_key_set 7 7) 0 p = 0" for p using slot_of_bound [of 0 "hash_key_set 7 7" p] by simp
  then have z: "zero_answer (hash_key_set 7 7) 0 ?D ?R = (- 1, - 1)" by (simp add: zero_answer_def flipped_def slot_entries_def)
  show ?thesis
    using hash_lookup_correct [of "\<lambda>w. ((True, 7), Suc w)" 0 "hash_key_set 7 7" 2 "[[]]" 0 ?R "[16, 9, 0, 15]" ?D "[]"]
      c generate_const zero_results
    by (simp add: dir_lookup_def z)
qed

text \<open>A table in which some slot gets more than \<open>CHAIN_PHONE_COUNT\<close> of the phones asked for is reported as overflowing, with the
  results and the result registers as they were, so that the lookup can be retried under another key.
\<close>

theorem hash_lookup_overflow:
  assumes gen: "hash_key_generate rdrand 10 w = (Some hk, w')" and n: "length slots = 2 ^ ord" "ord < 32"
    and ps: "length ps < 2 ^ 32" and over: "i < 2 ^ ord" "unat CHAIN_PHONE_COUNT < card (slot_phones hk ord i ps)"
  shows "\<exists>slots'. hash_lookup rdrand D ps out slots results w = ((Some HashTableOverflow, out, slots', results), w')
    \<and> length slots' = length slots"
  by (rule lookup_overflows [OF assms])

theorem hash_lookup_overflow_witness:
  "\<exists>slots'. hash_lookup (\<lambda>w. ((True, 7), Suc w)) [(15, (1, 2))] (map of_nat [1..<18]) [3] [[]] [[]] 0
    = ((Some HashTableOverflow, [3], slots', [[]]), 2) \<and> length slots' = 1"
  using hash_lookup_overflow [of "\<lambda>w. ((True, 7), Suc w)" 0 "hash_key_set 7 7" 2 "[[]]" 0 "map of_nat [1..<18]" 0 "[(15, (1, 2))]" "[3]" "[[]]"]
    one_slot [of 17] generate_const by (simp add: chain_phone_count)



end
