(* ===== verification/Cds_Lookup.thy ===== *)
theory Cds_Lookup imports Hash_Lookup_Correct Sgxsd_Crypto begin

text \<open>
  The caller of the oblivious lookup, \<open>cds_enclave/src/ffi/hash_lookup.rs\<close>: it sizes the table by the number of phones asked for,
  allocates cleared tables and repeats the lookup, under a fresh key each time, while a chain overflows. The release build is
  modelled, in which the \<open>debug_assert\<close> on an overflow does nothing.
\<close>

section \<open>The wrapper\<close>

definition MAX_HASH_TABLE_ORDER :: nat where "MAX_HASH_TABLE_ORDER = 13"
definition MAX_HASH_TABLE_SIZE :: nat where "MAX_HASH_TABLE_SIZE = 2 ^ MAX_HASH_TABLE_ORDER"

text \<open>\<open>usize::checked_next_power_of_two\<close>: the least power of two that is not smaller, if it has 64 bits.\<close>

function next_power_from :: "nat \<Rightarrow> nat \<Rightarrow> nat" where
  "next_power_from k n = (if n \<le> 2 ^ k then 2 ^ k else next_power_from (Suc k) n)"
  by pat_completeness auto
termination
proof (relation "measure (\<lambda>(k, n). n - k)")
  fix k n :: nat assume "\<not> n \<le> 2 ^ k"
  then have "k < n" using less_exp [of k] by linarith
  then show "((Suc k, n), (k, n)) \<in> measure (\<lambda>(k, n). n - k)" by simp
qed simp

declare next_power_from.simps [simp del]

definition checked_next_power_of_two :: "nat \<Rightarrow> nat option" where
  "checked_next_power_of_two n = (let p = next_power_from 0 n in if p < 2 ^ 64 then Some p else None)"

definition zero_slots :: "nat \<Rightarrow> hash_slot list" where
  "zero_slots n = replicate n (replicate 4 [0, 0, 0, 0])"

definition zero_slot_results :: "nat \<Rightarrow> hash_slot_result list" where
  "zero_slot_results n = replicate n (replicate 4 (replicate 2 [0, 0, 0, 0]))"

text \<open>The loop of at most 128 attempts; the status and the bytes of the results.\<close>

fun lookup_attempts :: "('w \<Rightarrow> (bool \<times> u64) \<times> 'w) \<Rightarrow> (phone \<times> uuid) list \<Rightarrow> phone list \<Rightarrow> nat \<Rightarrow> bytes \<Rightarrow> hash_slot list
    \<Rightarrow> hash_slot_result list \<Rightarrow> 'w \<Rightarrow> (sgx_status \<times> bytes) \<times> 'w" where
  "lookup_attempts rdrand in_phones_uuids query_phones 0 results slots slot_results w = ((SGX_ERROR_UNEXPECTED, results), w)"
| "lookup_attempts rdrand in_phones_uuids query_phones (Suc n) results slots slot_results w =
     (case hash_lookup rdrand in_phones_uuids query_phones results slots slot_results w of
        ((None, results, _, _), w) \<Rightarrow> ((SGX_SUCCESS, results), w)
      | ((Some InvalidParameter, results, _, _), w) \<Rightarrow> ((SGX_ERROR_UNEXPECTED, results), w)
      | ((Some RdRand, results, _, _), w) \<Rightarrow> ((SGX_ERROR_UNEXPECTED, results), w)
      | ((Some HashTableOverflow, results, slots, slot_results), w) \<Rightarrow>
          lookup_attempts rdrand in_phones_uuids query_phones n results slots slot_results w)"

definition cds_hash_lookup :: "('w \<Rightarrow> (bool \<times> u64) \<times> 'w) \<Rightarrow> (phone \<times> uuid) list \<Rightarrow> phone list \<Rightarrow> bytes \<Rightarrow> 'w
    \<Rightarrow> (sgx_status \<times> bytes) \<times> 'w" where
  "cds_hash_lookup rdrand in_phones_uuids query_phones query_phone_results w =
     (case checked_next_power_of_two (length query_phones) of
        None \<Rightarrow> ((SGX_ERROR_INVALID_PARAMETER, query_phone_results), w)
      | Some hash_table_slot_count \<Rightarrow>
          if MAX_HASH_TABLE_SIZE < hash_table_slot_count then ((SGX_ERROR_INVALID_PARAMETER, query_phone_results), w)
          else if query_phones = [] then ((SGX_SUCCESS, query_phone_results), w)
          else if length query_phone_results \<noteq> length query_phones * 16 then ((SGX_ERROR_INVALID_PARAMETER, query_phone_results), w)
          else
            lookup_attempts rdrand in_phones_uuids query_phones 128 (replicate (length query_phone_results) 255)
              (zero_slots hash_table_slot_count) (zero_slot_results hash_table_slot_count) w)"

section \<open>Correctness\<close>

text \<open>The size of the table is a power of two, at least the number of phones and less than twice that number.\<close>

lemma next_power_from_bounds:
  assumes "k = 0 \<or> 2 ^ (k - 1) < n"
  shows "\<exists>j \<ge> k. next_power_from k n = 2 ^ j \<and> n \<le> 2 ^ j \<and> (j = 0 \<or> 2 ^ (j - 1) < n)"
  using assms
proof (induction k n rule: next_power_from.induct)
  case (1 k n)
  show ?case
  proof (cases "n \<le> 2 ^ k")
    case True
    then show ?thesis using "1.prems" by (intro exI [of _ k]) (simp add: next_power_from.simps)
  next
    case False
    then obtain j where j: "Suc k \<le> j" "next_power_from (Suc k) n = 2 ^ j" "n \<le> 2 ^ j" "j = 0 \<or> 2 ^ (j - 1) < n"
      using "1.IH" by auto
    then show ?thesis using False by (intro exI [of _ j]) (simp add: next_power_from.simps [of k n])
  qed
qed

lemma table_size:
  assumes "n \<le> MAX_HASH_TABLE_SIZE"
  shows "\<exists>ord \<le> 13. checked_next_power_of_two n = Some (2 ^ ord) \<and> n \<le> 2 ^ ord \<and> 2 ^ ord \<le> MAX_HASH_TABLE_SIZE"
proof -
  obtain j where j: "next_power_from 0 n = 2 ^ j" "n \<le> 2 ^ j" "j = 0 \<or> 2 ^ (j - 1) < n" using next_power_from_bounds [of 0 n] by auto
  have "j \<le> 13"
  proof (rule ccontr)
    assume "\<not> j \<le> 13"
    then have "(2 :: nat) ^ 13 \<le> 2 ^ (j - 1)" by (intro power_increasing) simp_all
    then show False using j(3) assms \<open>\<not> j \<le> 13\<close> by (simp add: MAX_HASH_TABLE_SIZE_def MAX_HASH_TABLE_ORDER_def)
  qed
  then have "(2 :: nat) ^ j \<le> 2 ^ 13" by (intro power_increasing) simp_all
  then show ?thesis using j \<open>j \<le> 13\<close>
    by (intro exI [of _ j]) (simp add: checked_next_power_of_two_def MAX_HASH_TABLE_SIZE_def MAX_HASH_TABLE_ORDER_def)
qed

text \<open>
  What the keys drawn from here on give: the first one of at most \<open>n\<close> that does not overflow a chain leaves no chain with
  more than twelve phones.
\<close>

fun good_draws :: "('w \<Rightarrow> (bool \<times> u64) \<times> 'w) \<Rightarrow> phone list \<Rightarrow> nat \<Rightarrow> nat \<Rightarrow> 'w \<Rightarrow> bool" where
  "good_draws rdrand ps ord 0 w \<longleftrightarrow> False"
| "good_draws rdrand ps ord (Suc n) w \<longleftrightarrow> (case hash_key_generate rdrand 10 w of
     (None, w) \<Rightarrow> False
   | (Some hk, w) \<Rightarrow>
       if \<forall>i < 2 ^ ord. card (slot_phones hk ord i ps) \<le> 12 then True
       else (\<exists>i < 2 ^ ord. unat CHAIN_PHONE_COUNT < card (slot_phones hk ord i ps)) \<and> good_draws rdrand ps ord n w)"

text \<open>What a lookup of \<open>ps\<close> in the directory \<open>D\<close> is to give.\<close>

definition directory_answers :: "(phone \<times> uuid) list \<Rightarrow> phone list \<Rightarrow> bytes" where
  "directory_answers D ps = concat (map (\<lambda>q. uuid_bytes (dir_lookup D q)) ps)"

text \<open>With cleared result tables the dummy lanes hold zeros or ones, so that the answer for the number 0 is one of two.\<close>

definition answers_with :: "uuid \<Rightarrow> (phone \<times> uuid) list \<Rightarrow> phone list \<Rightarrow> bytes" where
  "answers_with u D ps = concat (map (\<lambda>q. uuid_bytes (if q = 0 then u else dir_lookup D q)) ps)"

lemma answers_with_nonzero: "0 \<notin> set ps \<Longrightarrow> answers_with u D ps = directory_answers D ps"
  by (auto simp: answers_with_def directory_answers_def intro!: arg_cong [of _ _ concat])

lemma zero_tables: "results_clear (zero_slot_results n)" "length (zero_slot_results n) = n" "length (zero_slots n) = n"
  by (simp_all add: results_clear_def zero_slot_results_def zero_slots_def list_all_iff)

lemma zero_answer_cleared: "zero_answer hk ord D (zero_slot_results (2 ^ ord)) \<in> {(0, 0), (- 1, - 1)}"
proof -
  let ?step = "\<lambda>a i. let x = flipped (slot_entries hk ord i D)
      (zero_slot_results (2 ^ ord) ! i ! 3 ! 0 ! 0, zero_slot_results (2 ^ ord) ! i ! 3 ! 1 ! 0) in (fst a OR fst x, snd a OR snd x)"
  have "foldl ?step a is \<in> {(0, 0), (- 1, - 1)}" if "a \<in> {(0, 0), (- 1, - 1)}" "set is \<subseteq> {..<2 ^ ord}" for a "is"
    using that
  proof (induction "is" arbitrary: a)
    case (Cons i "is")
    have "zero_slot_results (2 ^ ord) ! i ! 3 ! j ! 0 = 0" if "j < 2" for j using Cons.prems(2) that by (simp add: zero_slot_results_def)
    from this [of 0] this [of 1] have "?step a i \<in> {(0, 0), (- 1, - 1)}" using Cons.prems(1) by (auto simp: flipped_def Let_def)
    then show ?case using Cons by simp
  qed simp
  moreover have "set [0..<2 ^ ord] \<subseteq> {..<2 ^ ord :: nat}" by auto
  ultimately show ?thesis unfolding zero_answer_def by blast
qed

lemma attempts_all:
  assumes "good_draws rdrand ps ord n w" "length slots = 2 ^ ord" "ord < 32" "length ps < 2 ^ 32"
  shows "\<exists>w' u. u \<in> {(0, 0), (- 1, - 1)}
    \<and> lookup_attempts rdrand D ps n out slots (zero_slot_results (2 ^ ord)) w = ((SGX_SUCCESS, answers_with u D ps), w')"
  using assms(1,2)
proof (induction n arbitrary: w slots)
  case (Suc n)
  obtain hk w1 where gen: "hash_key_generate rdrand 10 w = (Some hk, w1)"
    using Suc.prems(1) by (auto split: prod.splits option.splits)
  note n = Suc.prems(2) assms(3)
  have rs: "results_clear (zero_slot_results (2 ^ ord))" "length (zero_slot_results (2 ^ ord)) = length slots" by (simp_all add: zero_tables n(1))
  show ?case
  proof (cases "\<forall>i < 2 ^ ord. card (slot_phones hk ord i ps) \<le> 12")
    case True
    from lookup_fits_all [OF gen n rs assms(4) True, of D out] zero_answer_cleared [of hk ord D] show ?thesis
      by (intro exI [of _ w1] exI [of _ "zero_answer hk ord D (zero_slot_results (2 ^ ord))"]) (auto simp: answers_with_def any_answer_def)
  next
    case False
    have "(\<exists>i < 2 ^ ord. unat CHAIN_PHONE_COUNT < card (slot_phones hk ord i ps)) \<and> good_draws rdrand ps ord n w1"
      using Suc.prems(1) unfolding good_draws.simps gen prod.case option.case if_not_P [OF False] .
    then obtain i where i: "i < 2 ^ ord" "unat CHAIN_PHONE_COUNT < card (slot_phones hk ord i ps)" and g: "good_draws rdrand ps ord n w1"
      by blast
    obtain slots' where h: "hash_lookup rdrand D ps out slots (zero_slot_results (2 ^ ord)) w
        = ((Some HashTableOverflow, out, slots', zero_slot_results (2 ^ ord)), w1)"
      "length slots' = length slots" using lookup_overflows [OF gen n assms(4) i] by blast
    show ?thesis using Suc.IH [OF g, of slots'] n h by simp
  qed
qed simp

text \<open>
  The order of the table for a batch, and the batches that are answered from the directory. The latter is a condition on the input and on the keys drawn,
  not a test of the code: the number 0 is taken for a dummy, and thirteen to sixteen phones in a slot are not seen as an overflow.
\<close>

definition table_order :: "phone list \<Rightarrow> nat" where
  "table_order ps = trailing_zeros (the (checked_next_power_of_two (length ps)))"

definition good_batch :: "('w \<Rightarrow> (bool \<times> u64) \<times> 'w) \<Rightarrow> phone list \<Rightarrow> 'w \<Rightarrow> bool" where
  "good_batch rdrand ps w \<longleftrightarrow> length ps \<le> MAX_HASH_TABLE_SIZE \<and> 0 \<notin> set ps \<and> (ps \<noteq> [] \<longrightarrow> good_draws rdrand ps (table_order ps) 128 w)"

lemma batch_lookup_all:
  assumes "length ps \<le> MAX_HASH_TABLE_SIZE" "ps \<noteq> [] \<longrightarrow> good_draws rdrand ps (table_order ps) 128 w" "length out = length ps * 16"
  shows "\<exists>w' u. u \<in> {(0, 0), (- 1, - 1)} \<and> cds_hash_lookup rdrand D ps out w = ((SGX_SUCCESS, answers_with u D ps), w')"
proof -
  obtain ord where ord: "ord \<le> 13" "checked_next_power_of_two (length ps) = Some (2 ^ ord)" "2 ^ ord \<le> MAX_HASH_TABLE_SIZE"
    using table_size [OF assms(1)] by blast
  show ?thesis
  proof (cases "ps = []")
    case True
    then show ?thesis using ord assms(3) by (intro exI [of _ w] exI [of _ "(0, 0)"]) (simp add: cds_hash_lookup_def answers_with_def)
  next
    case False
    have g: "good_draws rdrand ps ord 128 w" using assms(2) False ord(2) by (simp add: table_order_def)
    have "length ps < 2 ^ 32" using assms(1) by (simp add: MAX_HASH_TABLE_SIZE_def MAX_HASH_TABLE_ORDER_def)
    from attempts_all [OF g _ _ this, of "zero_slots (2 ^ ord)" D "replicate (length out) 255"] show ?thesis
      using ord assms(3) False by (simp add: cds_hash_lookup_def zero_tables)
  qed
qed

lemma batch_lookup:
  assumes "good_batch rdrand ps w" "length out = length ps * 16"
  shows "\<exists>w'. cds_hash_lookup rdrand D ps out w = ((SGX_SUCCESS, directory_answers D ps), w')"
proof -
  have b: "length ps \<le> MAX_HASH_TABLE_SIZE" "0 \<notin> set ps" "ps \<noteq> [] \<longrightarrow> good_draws rdrand ps (table_order ps) 128 w"
    using assms(1) by (auto simp: good_batch_def)
  show ?thesis using batch_lookup_all [OF b(1,3) assms(2), of D] unfolding answers_with_nonzero [OF b(2)] by blast
qed

lemma length_directory_answers [simp]: "length (directory_answers D ps) = 16 * length ps"
  by (induction ps) (simp_all add: directory_answers_def)

lemma directory_answers_append: "directory_answers D (ps @ qs) = directory_answers D ps @ directory_answers D qs"
  by (simp add: directory_answers_def)

text \<open>Twelve phones always fit in one chain: a small batch needs only that the generator delivers.\<close>

lemma small_batch_good:
  assumes "length ps \<le> 12" "0 \<notin> set ps" "\<And>x. fst (fst (rdrand x))"
  shows "good_batch rdrand ps x"
proof -
  have c: "card (slot_phones hk ord i ps) \<le> 12" for hk ord i
    using card_mono [of "set ps" "slot_phones hk ord i ps"] card_length [of ps] assms(1) by (auto simp: slot_phones_def)
  obtain a b w1 where 1: "rdrand x = ((True, a), w1)" using assms(3) [of x] by (metis prod.collapse)
  obtain c w2 where 2: "rdrand w1 = ((True, c), w2)" using assms(3) [of w1] by (metis prod.collapse)
  have "hash_key_generate rdrand 10 x = (Some (hash_key_set a c), w2)" by (simp add: 1 2 numeral_nat(7) eval_nat_numeral)
  then have "good_draws rdrand ps ord (Suc n) x" for ord n using c by simp
  from this [of _ 127] show ?thesis using assms(1,2) by (simp add: good_batch_def MAX_HASH_TABLE_SIZE_def MAX_HASH_TABLE_ORDER_def)
qed

section \<open>Properties\<close>

text \<open>C19. A batch of at most \<open>2 ^ 13\<close> phones is looked up in a table of the least power of two of slots that is not smaller, with cleared tables and
  at most 128 keys. When one of these keys does not overflow and the first such key leaves at most twelve different phones in each slot (with thirteen to
  sixteen the code succeeds as well, with wrong answers), the lookup succeeds, and the answers are those of the directory, in the order of
  the phones, except that the number 0 is answered with only zeros or only ones whatever the directory has for it. A larger batch, or a result buffer of
  another size, is refused with the buffer as it was.\<close>

theorem cds_hash_lookup_correct:
  shows "if length ps \<le> MAX_HASH_TABLE_SIZE \<and> (ps = [] \<or> length out = length ps * 16)
    then (ps \<noteq> [] \<longrightarrow> good_draws rdrand ps (table_order ps) 128 w) \<longrightarrow> length out = length ps * 16
      \<longrightarrow> (\<exists>w' u. u \<in> {(0, 0), (- 1, - 1)} \<and> cds_hash_lookup rdrand D ps out w
            = ((SGX_SUCCESS, concat (map (\<lambda>q. uuid_bytes (if q = 0 then u else dir_lookup D q)) ps)), w'))
    else cds_hash_lookup rdrand D ps out w = ((SGX_ERROR_INVALID_PARAMETER, out), w)"
proof (cases "length ps \<le> MAX_HASH_TABLE_SIZE")
  case True
  obtain ord where ord: "checked_next_power_of_two (length ps) = Some (2 ^ ord)" "2 ^ ord \<le> MAX_HASH_TABLE_SIZE"
    using table_size [OF True] by blast
  show ?thesis
  proof (cases "ps = [] \<or> length out = length ps * 16")
    case c: True
    then show ?thesis using True batch_lookup_all [OF True, of rdrand w out D] by (simp add: answers_with_def)
  next
    case False
    then show ?thesis using True ord by (auto simp: cds_hash_lookup_def)
  qed
next
  case False
  obtain j where "next_power_from 0 (length ps) = 2 ^ j" "length ps \<le> 2 ^ j" using next_power_from_bounds [of 0 "length ps"] by auto
  then show ?thesis using False by (auto simp: cds_hash_lookup_def checked_next_power_of_two_def Let_def)
qed

theorem cds_hash_lookup_correct_witness:
  "\<exists>w'. cds_hash_lookup (\<lambda>w. ((True, 7), Suc w)) [(5, 1, 2)] [5, 6] (replicate 32 0) 0
    = ((SGX_SUCCESS, uuid_bytes (1, 2) @ uuid_bytes (0, 0)), w')"
proof -
  have "good_batch (\<lambda>w. ((True, 7), Suc w)) [5, 6] 0" by (rule small_batch_good) simp_all
  then have "good_draws (\<lambda>w. ((True, 7), Suc w)) [5, 6] (table_order [5, 6]) 128 0" by (simp add: good_batch_def)
  then show ?thesis
    using cds_hash_lookup_correct [of "[5, 6]" "replicate 32 0" "\<lambda>w. ((True, 7), Suc w)" 0 "[(5, 1, 2)]"]
    by (auto simp: dir_lookup_def MAX_HASH_TABLE_SIZE_def MAX_HASH_TABLE_ORDER_def)
qed

end
