(* ===== verification/Cds_Service.thy ===== *)
theory Cds_Service imports Cds_Lookup Sgxsd_Server begin

text \<open>
  The contact discovery service behind the server entry points: \<open>cds_enclave/src/service/main.rs\<close>, with the slices of host memory of
  \<open>sgx_ffi/src/untrusted_slice.rs\<close>, the senders of \<open>sgxsd_ffi/src/ecalls.rs\<close> and the rate-limit fingerprint of
  \<open>cds_enclave/src/lib.rs\<close>. A server collects the phones of all its requests in one list and looks them
  up together when it is terminated; then it answers every sender with its share of the results. Dropping a sender without an
  answer tells the host so. The erasure of freed memory is not visible in this model.
\<close>

section \<open>Host memory\<close>

text \<open>
  What the service calls: the check of addresses, host memory, the processor's generator, and \<open>sgxsd_enclave_server_reply\<close> and
  \<open>sgxsd_enclave_server_noreply\<close>. Host memory does not change during a call. \<open>svc_capacity\<close> is the capacity that \<open>Vec::with_capacity\<close>
  gives.
\<close>

record 'x svc =
  svc_is_outside_enclave :: "u64 \<Rightarrow> nat \<Rightarrow> int"
  svc_read :: "u64 \<Rightarrow> nat \<Rightarrow> 'x \<Rightarrow> bytes"
  svc_rdrand :: "'x \<Rightarrow> (bool \<times> u64) \<times> 'x"
  svc_reply :: "bytes \<Rightarrow> sgxsd_msg_from \<Rightarrow> 'x \<Rightarrow> sgx_status \<times> 'x"
  svc_noreply :: "sgxsd_msg_from \<Rightarrow> 'x \<Rightarrow> 'x"
  svc_capacity :: "nat \<Rightarrow> nat"

datatype untrusted_slice = NonEmpty u64 nat | Empty

definition untrusted_slice_new :: "'x svc \<Rightarrow> u64 \<Rightarrow> nat \<Rightarrow> untrusted_slice option" where
  "untrusted_slice_new v p_data n =
     (if n \<noteq> 0 \<and> p_data \<noteq> 0
      then
        if svc_is_outside_enclave v p_data n \<noteq> 1 then None
        else if p_data + of_nat n < p_data then None
        else Some (NonEmpty p_data n)
      else Some Empty)"

fun untrusted_slice_as_ptr :: "untrusted_slice \<Rightarrow> u64" where
  "untrusted_slice_as_ptr (NonEmpty data n) = data"
| "untrusted_slice_as_ptr Empty = 0"

fun untrusted_slice_read_bytes :: "'x svc \<Rightarrow> untrusted_slice \<Rightarrow> nat \<Rightarrow> 'x \<Rightarrow> bytes option" where
  "untrusted_slice_read_bytes v (NonEmpty data n) read_count x = (if read_count \<le> n then Some (svc_read v data read_count x) else None)"
| "untrusted_slice_read_bytes v Empty read_count x = (if read_count = 0 then Some [] else None)"

section \<open>Requests\<close>

datatype 'a res = Err sgx_status | Ok 'a

definition CDS_ERROR_INVALID_REQUEST_SIZE :: sgx_status where "CDS_ERROR_INVALID_REQUEST_SIZE = SGX_ERROR_OTHER 0x20001"
definition CDS_ERROR_QUERY_COMMITMENT_MISMATCH :: sgx_status where "CDS_ERROR_QUERY_COMMITMENT_MISMATCH = SGX_ERROR_OTHER 0x20002"
definition COMMITMENT_NONCE_SIZE :: nat where "COMMITMENT_NONCE_SIZE = 32"
definition BYTES_PER_PHONE :: nat where "BYTES_PER_PHONE = 8"
definition BYTES_PER_UUID :: nat where "BYTES_PER_UUID = 16"

definition verify_commitment :: "bytes \<Rightarrow> bytes \<Rightarrow> bool" where
  "verify_commitment data expected_commitment \<longleftrightarrow>
     br_sha256_out (br_sha224_update (br_sha256_init zero_context) data) = expected_commitment"

text \<open>\<open>AesGcmKey::new\<close> and \<open>AesGcmKey::decrypt\<close>, in place.\<close>

definition aes_gcm_key_decrypt :: "bytes \<Rightarrow> bytes \<Rightarrow> bytes \<Rightarrow> bytes \<Rightarrow> bytes \<Rightarrow> bytes res" where
  "aes_gcm_key_decrypt key data aad iv mac =
     (if length key \<noteq> 32 \<or> 2 ^ 32 \<le> length data \<or> 2 ^ 32 \<le> length aad then Err SGX_ERROR_INVALID_PARAMETER
      else
        let (res, dst) = sgxsd_aes_gcm_decrypt (Some key) (Some data) (of_nat (length data)) (Some data) (Some iv) (Some aad)
              (of_nat (length aad)) (Some mac)
        in if res = SGX_SUCCESS then Ok (the dst) else Err res)"

definition decode_phone_list :: "'x svc \<Rightarrow> sgxsd_server_handle_call_args \<Rightarrow> bytes \<Rightarrow> 'x \<Rightarrow> bytes res" where
  "decode_phone_list v args request_data x =
     (let q = call_query args; n = unat (query_size q)
      in case untrusted_slice_new v (query_data q) n of
           None \<Rightarrow> Err SGX_ERROR_INVALID_PARAMETER
         | Some query_data_slice \<Rightarrow>
             case untrusted_slice_read_bytes v query_data_slice n x of
               None \<Rightarrow> Err SGX_ERROR_INVALID_PARAMETER
             | Some query_phones \<Rightarrow>
                 if length query_phones < COMMITMENT_NONCE_SIZE then Err CDS_ERROR_INVALID_REQUEST_SIZE
                 else
                   let query_phones_data_len = length query_phones - COMMITMENT_NONCE_SIZE
                   in if length request_data \<noteq> 32 \<or> query_phones_data_len mod BYTES_PER_PHONE \<noteq> 0
                         \<or> query_phones_data_len div BYTES_PER_PHONE \<noteq> unat (query_phone_count args)
                      then Err CDS_ERROR_INVALID_REQUEST_SIZE
                      else
                        case aes_gcm_key_decrypt request_data query_phones [] (query_iv q) (query_mac q) of
                          Err error \<Rightarrow> Err error
                        | Ok query_phones \<Rightarrow>
                            if verify_commitment query_phones (query_commitment args) then Ok query_phones
                            else Err CDS_ERROR_QUERY_COMMITMENT_MISMATCH)"

text \<open>The phones of a decoded request: the 8-byte chunks behind the nonce.\<close>

definition decode_phone :: "bytes \<Rightarrow> phone" where "decode_phone data = le_word data"

definition request_phones :: "bytes \<Rightarrow> phone list" where
  "request_phones data = (let phones_data = drop COMMITMENT_NONCE_SIZE data
     in map (\<lambda>i. decode_phone (take BYTES_PER_PHONE (drop (BYTES_PER_PHONE * i) phones_data))) [0..<length phones_data div BYTES_PER_PHONE])"

section \<open>The server\<close>

record cds_server =
  requests :: "(sgxsd_msg_from \<times> u32) list"
  query_phones :: "phone list"
  query_capacity :: nat

definition server_init :: "'x svc \<Rightarrow> sgxsd_server_init_args option \<Rightarrow> cds_server res" where
  "server_init v args =
     (case args of
        None \<Rightarrow> Err SGX_ERROR_INVALID_PARAMETER
      | Some args \<Rightarrow> Ok \<lparr>requests = [], query_phones = [], query_capacity = svc_capacity v (unat (max_query_phones args))\<rparr>)"

definition decode_request :: "'x svc \<Rightarrow> cds_server \<Rightarrow> sgxsd_server_handle_call_args \<Rightarrow> bytes \<Rightarrow> 'x \<Rightarrow> bytes res" where
  "decode_request v st args request_data x =
     (if query_phone_count args = 0 \<or> query_capacity st - length (query_phones st) < unat (query_phone_count args)
      then Err SGX_ERROR_INVALID_PARAMETER
      else decode_phone_list v args request_data x)"

definition handle_call :: "'x svc \<Rightarrow> cds_server \<Rightarrow> sgxsd_server_handle_call_args option \<Rightarrow> bytes \<Rightarrow> sgxsd_msg_from \<Rightarrow> 'x
    \<Rightarrow> sgx_status \<times> cds_server" where
  "handle_call v st args request_data from x =
     (case args of
        None \<Rightarrow> (SGX_ERROR_INVALID_PARAMETER, st)
      | Some args \<Rightarrow>
          case decode_request v st args request_data x of
            Err error \<Rightarrow> (error, st)
          | Ok request \<Rightarrow>
              let phones = request_phones request
              in if 2 ^ 32 \<le> length phones then (SGX_ERROR_INVALID_PARAMETER, st)
                 else (SGX_SUCCESS, st\<lparr>query_phones := query_phones st @ phones,
                         requests := requests st @ [(from, of_nat (length phones))]\<rparr>))"

text \<open>\<open>SgxsdMsgFrom\<close>: an answer uses the sender up; a sender that is dropped unused gets no reply.\<close>

definition msg_from_reply :: "'x svc \<Rightarrow> sgxsd_msg_from \<Rightarrow> bytes \<Rightarrow> 'x \<Rightarrow> sgx_status \<times> 'x" where
  "msg_from_reply v from msg x =
     (if length msg < 2 ^ 32 then svc_reply v msg from x else (SGX_ERROR_UNEXPECTED, svc_noreply v from x))"

definition drop_requests :: "'x svc \<Rightarrow> (sgxsd_msg_from \<times> u32) list \<Rightarrow> 'x \<Rightarrow> 'x" where
  "drop_requests v rs x = foldl (\<lambda>x r. svc_noreply v (fst r) x) x rs"

text \<open>\<open>slice::chunks\<close>\<close>

function chunks :: "nat \<Rightarrow> 'a list \<Rightarrow> 'a list list" where
  "chunks n xs = (if n = 0 \<or> xs = [] then [] else take n xs # chunks n (drop n xs))"
  by pat_completeness auto
termination by (relation "measure (\<lambda>(n, xs). length xs)") auto

declare chunks.simps [simp del]

text \<open>The lookups, chunk by chunk; every chunk of the result vector starts as zeros.\<close>

fun lookup_chunks :: "'x svc \<Rightarrow> (phone \<times> uuid) list \<Rightarrow> phone list list \<Rightarrow> 'x \<Rightarrow> bytes res \<times> 'x" where
  "lookup_chunks v D [] x = (Ok [], x)"
| "lookup_chunks v D (c # cs) x =
     (let ((status, out), x) = cds_hash_lookup (svc_rdrand v) D c (replicate (length c * BYTES_PER_UUID) 0) x
      in if status \<noteq> SGX_SUCCESS then (Err status, x)
         else
           case lookup_chunks v D cs x of
             (Err error, x) \<Rightarrow> (Err error, x)
           | (Ok rest, x) \<Rightarrow> (Ok (out @ rest), x))"

text \<open>The answers. \<open>None\<close> is a panic: \<open>split_at_mut\<close> beyond the end.\<close>

fun reply_requests :: "'x svc \<Rightarrow> (sgxsd_msg_from \<times> u32) list \<Rightarrow> bytes \<Rightarrow> 'x \<Rightarrow> sgx_status option \<times> 'x" where
  "reply_requests v [] remaining x = (Some SGX_SUCCESS, x)"
| "reply_requests v ((from, count) # rs) remaining x =
     (let n = unat count * BYTES_PER_UUID
      in if length remaining < n then (None, x)
         else
           let (status, x) = msg_from_reply v from (take n remaining) x
           in if status \<noteq> SGX_SUCCESS then (Some status, drop_requests v rs x)
              else reply_requests v rs (drop n remaining) x)"

definition read_directory :: "'x svc \<Rightarrow> u64 \<Rightarrow> u64 \<Rightarrow> nat \<Rightarrow> 'x \<Rightarrow> (phone \<times> uuid) list" where
  "read_directory v phones uuids n x =
     (let P = svc_read v phones (n * 8) x; U = svc_read v uuids (n * 16) x
      in map (\<lambda>i. (le_word (take 8 (drop (8 * i) P)), le_word (take 8 (drop (16 * i) U)), le_word (take 8 (drop (16 * i + 8) U)))) [0..<n])"

definition terminate :: "'x svc \<Rightarrow> cds_server \<Rightarrow> sgxsd_server_terminate_args option \<Rightarrow> 'x \<Rightarrow> sgx_status option \<times> 'x" where
  "terminate v st args x =
     (case args of
        None \<Rightarrow> (Some SGX_ERROR_INVALID_PARAMETER, drop_requests v (requests st) x)
      | Some args \<Rightarrow>
          let n = unat (in_phone_count args)
          in if 2 ^ 64 \<le> n * BYTES_PER_PHONE then (Some SGX_ERROR_INVALID_PARAMETER, drop_requests v (requests st) x)
             else if 2 ^ 64 \<le> n * BYTES_PER_UUID then (Some SGX_ERROR_INVALID_PARAMETER, drop_requests v (requests st) x)
             else
               case (untrusted_slice_new v (in_phones args) (n * BYTES_PER_PHONE), untrusted_slice_new v (in_uuids args) (n * BYTES_PER_UUID)) of
                 (Some phones, Some uuids) \<Rightarrow>
                   if 2 ^ 64 \<le> length (query_phones st) * BYTES_PER_UUID
                   then (Some SGX_ERROR_INVALID_PARAMETER, drop_requests v (requests st) x)
                   else
                     let D = read_directory v (untrusted_slice_as_ptr phones) (untrusted_slice_as_ptr uuids) n x
                     in (case lookup_chunks v D (chunks MAX_HASH_TABLE_SIZE (query_phones st)) x of
                           (Err error, x) \<Rightarrow> (Some error, drop_requests v (requests st) x)
                         | (Ok results, x) \<Rightarrow> reply_requests v (requests st) results x)
               | _ \<Rightarrow> (Some SGX_ERROR_INVALID_PARAMETER, drop_requests v (requests st) x))"

section \<open>Rate-limit fingerprints\<close>

text \<open>
  \<open>sgxsd_enclave_create_ratelimit_fingerprint\<close>: for each phone of the request one byte of its HMAC, with a context that is reset
  after each phone. \<open>fingerprint\<close> is the slice of \<open>fingerprint_size\<close> bytes.
\<close>

fun fingerprint_loop :: "br_hmac_key_context \<Rightarrow> br_hmac_context \<Rightarrow> phone list \<Rightarrow> nat \<Rightarrow> nat \<Rightarrow> bytes \<Rightarrow> sgx_status \<times> bytes" where
  "fingerprint_loop kc ctx [] i fingerprint_size fingerprint = (SGX_SUCCESS, fingerprint)"
| "fingerprint_loop kc ctx (phone # phones) i fingerprint_size fingerprint =
     (if fingerprint_size \<le> i then (SGX_ERROR_INVALID_PARAMETER, fingerprint)
      else
        let ctx = br_hmac_update ctx (le_bytes 8 phone);
            phone_out = br_hmac_out ctx zero_context;
            fingerprint = fingerprint[i := phone_out ! 0];
            ctx = br_hmac_init ctx kc 32
        in fingerprint_loop kc ctx phones (Suc i) fingerprint_size fingerprint)"

definition create_ratelimit_fingerprint ::
  "'x svc \<Rightarrow> bytes \<Rightarrow> sgxsd_server_handle_call_args \<Rightarrow> bytes \<Rightarrow> bytes \<Rightarrow> nat \<Rightarrow> 'x \<Rightarrow> sgx_status \<times> bytes" where
  "create_ratelimit_fingerprint v fingerprint_key call_args request_data fingerprint fingerprint_size x =
     (case decode_phone_list v call_args request_data x of
        Err error \<Rightarrow> (error, fingerprint)
      | Ok request \<Rightarrow>
          let kc = br_hmac_key_init zero_key_context zero_context vtable_sha256 fingerprint_key;
              ctx = br_hmac_init zero_hmac_context kc 32
          in fingerprint_loop kc ctx (request_phones request) 0 fingerprint_size fingerprint)"

section \<open>The abstract service\<close>

text \<open>
  Abstractly a server is a list of senders, each with the phones it asked for. The concrete server keeps all phones in one list
  and only a count for each sender.
\<close>

fun split_requests :: "(sgxsd_msg_from \<times> u32) list \<Rightarrow> phone list \<Rightarrow> (sgxsd_msg_from \<times> phone list) list" where
  "split_requests [] ps = []"
| "split_requests ((from, count) # rs) ps = (from, take (unat count) ps) # split_requests rs (drop (unat count) ps)"

definition abs_server :: "cds_server \<Rightarrow> (sgxsd_msg_from \<times> phone list) list" where
  "abs_server st = split_requests (requests st) (query_phones st)"

definition total :: "(sgxsd_msg_from \<times> u32) list \<Rightarrow> nat" where
  "total rs = sum_list (map (\<lambda>r. unat (snd r)) rs)"

text \<open>The counts add up to the phones collected, which fit in the memory reserved for them at the start.\<close>

definition server_inv :: "cds_server \<Rightarrow> bool" where
  "server_inv st \<longleftrightarrow> total (requests st) = length (query_phones st) \<and> length (query_phones st) \<le> query_capacity st"

text \<open>Answering: each sender in turn, until an answer cannot be sent; the senders after that are told that there is none.\<close>

fun answer_all :: "'x svc \<Rightarrow> (phone \<times> uuid) list \<Rightarrow> (sgxsd_msg_from \<times> phone list) list \<Rightarrow> 'x \<Rightarrow> sgx_status \<times> 'x" where
  "answer_all v D [] x = (SGX_SUCCESS, x)"
| "answer_all v D ((from, ps) # rs) x =
     (let (status, x) = msg_from_reply v from (directory_answers D ps) x
      in if status \<noteq> SGX_SUCCESS then (status, foldl (\<lambda>x r. svc_noreply v (fst r) x) x rs) else answer_all v D rs x)"

lemma total_simps [simp]: "total [] = 0" "total (r # rs) = unat (snd r) + total rs" "total (rs @ rs') = total rs + total rs'"
  by (simp_all add: total_def)

lemma split_requests_append:
  "total rs = length ps \<Longrightarrow> split_requests (rs @ rs') (ps @ ps') = split_requests rs ps @ split_requests rs' ps'"
  by (induction rs ps rule: split_requests.induct) auto

lemma split_requests_senders: "map fst (split_requests rs ps) = map fst rs"
  by (induction rs ps rule: split_requests.induct) auto

lemma drop_requests_abs: "drop_requests v (requests st) x = foldl (\<lambda>x r. svc_noreply v (fst r) x) x (abs_server st)"
proof -
  have f: "foldl (\<lambda>x r. svc_noreply v (fst r) x) x rs = foldl (\<lambda>x f. svc_noreply v f x) x (map fst rs)" for rs :: "(sgxsd_msg_from \<times> 'c) list"
    by (simp add: foldl_map)
  show ?thesis unfolding drop_requests_def abs_server_def f split_requests_senders ..
qed

lemma answers_take_drop:
  assumes "n \<le> length ps"
  shows "take (n * BYTES_PER_UUID) (directory_answers D ps) = directory_answers D (take n ps)"
    "drop (n * BYTES_PER_UUID) (directory_answers D ps) = directory_answers D (drop n ps)"
proof -
  have "directory_answers D ps = directory_answers D (take n ps) @ directory_answers D (drop n ps)"
    by (simp flip: directory_answers_append)
  moreover have "length (directory_answers D (take n ps)) = n * BYTES_PER_UUID" using assms by (simp add: BYTES_PER_UUID_def)
  ultimately show "take (n * BYTES_PER_UUID) (directory_answers D ps) = directory_answers D (take n ps)"
    "drop (n * BYTES_PER_UUID) (directory_answers D ps) = directory_answers D (drop n ps)" by (metis append_eq_conv_conj)+
qed

lemma reply_requests_answers:
  assumes "total rs = length ps"
  shows "reply_requests v rs (directory_answers D ps) x = apfst Some (answer_all v D (split_requests rs ps) x)"
  using assms
proof (induction rs arbitrary: ps x)
  case (Cons r rs)
  obtain sender count where r: "r = (sender, count)" by (cases r)
  have n: "unat count \<le> length ps" "total rs = length (drop (unat count) ps)" using Cons.prems by (simp_all add: r)
  obtain status x' where m: "msg_from_reply v sender (directory_answers D (take (unat count) ps)) x = (status, x')"
    by (metis prod.collapse)
  have d: "drop_requests v rs x' = foldl (\<lambda>x r. svc_noreply v (fst r) x) x' (split_requests rs (drop (unat count) ps))"
    using drop_requests_abs [of v "\<lparr>requests = rs, query_phones = drop (unat count) ps, query_capacity = 0\<rparr>"] by (simp add: abs_server_def)
  show ?case using Cons.IH [OF n(2), of x'] n(1) m d
    by (simp add: r Let_def answers_take_drop) (simp add: BYTES_PER_UUID_def)
qed simp

lemma reply_requests_total:
  assumes "length remaining = total rs * BYTES_PER_UUID"
  shows "fst (reply_requests v rs remaining x) \<noteq> None"
  using assms by (induction v rs remaining x rule: reply_requests.induct) (auto simp: Let_def algebra_simps split: prod.splits)

section \<open>Lookups in chunks\<close>

lemma concat_chunks: "0 < n \<Longrightarrow> concat (chunks n xs) = xs"
proof (induction n xs rule: chunks.induct)
  case (1 n xs)
  then show ?case by (cases "xs = []") (simp_all add: chunks.simps [of n xs] chunks.simps [of n "[]"])
qed

fun good_batches :: "'x svc \<Rightarrow> (phone \<times> uuid) list \<Rightarrow> phone list list \<Rightarrow> 'x \<Rightarrow> bool" where
  "good_batches v D [] x \<longleftrightarrow> True"
| "good_batches v D (c # cs) x \<longleftrightarrow> good_batch (svc_rdrand v) c x
     \<and> good_batches v D cs (snd (cds_hash_lookup (svc_rdrand v) D c (replicate (length c * BYTES_PER_UUID) 0) x))"

lemma lookup_chunks_answers:
  assumes "good_batches v D cs x"
  shows "\<exists>x'. lookup_chunks v D cs x = (Ok (directory_answers D (concat cs)), x')"
  using assms
proof (induction cs arbitrary: x)
  case (Cons c cs)
  obtain x1 where c: "cds_hash_lookup (svc_rdrand v) D c (replicate (length c * BYTES_PER_UUID) 0) x = ((SGX_SUCCESS, directory_answers D c), x1)"
    using batch_lookup [of "svc_rdrand v" c x "replicate (length c * BYTES_PER_UUID) 0" D] Cons.prems by (auto simp: BYTES_PER_UUID_def)
  then obtain x' where "lookup_chunks v D cs x1 = (Ok (directory_answers D (concat cs)), x')" using Cons by auto
  then show ?case using c by (simp add: directory_answers_append)
qed (simp add: directory_answers_def)

lemma hash_lookup_length:
  "hash_lookup rdrand D ps out slots results w = ((None, out', slots', results'), w') \<Longrightarrow> length out' = 16 * length ps"
proof -
  have l: "length (concat (map (uuid_bytes \<circ> f) ps)) = 16 * length ps" for f by (induction ps) simp_all
  show "hash_lookup rdrand D ps out slots results w = ((None, out', slots', results'), w') \<Longrightarrow> length out' = 16 * length ps"
    using l by (auto simp: hash_lookup_def Let_def split: if_splits prod.splits option.splits)
qed

lemma lookup_attempts_length:
  "lookup_attempts rdrand D ps n out slots results w = ((SGX_SUCCESS, out'), w') \<Longrightarrow> length out' = 16 * length ps"
  by (induction n arbitrary: out slots results w)
    (auto dest: hash_lookup_length split: prod.splits option.splits CdsHashLookupError.splits)

lemma cds_hash_lookup_length:
  "cds_hash_lookup rdrand D ps out w = ((SGX_SUCCESS, out'), w') \<Longrightarrow> length out = 16 * length ps \<Longrightarrow> length out' = 16 * length ps"
  by (auto simp: cds_hash_lookup_def dest: lookup_attempts_length split: option.splits if_splits)

lemma lookup_chunks_length: "lookup_chunks v D cs x = (Ok out, x') \<Longrightarrow> length out = length (concat cs) * BYTES_PER_UUID"
  by (induction cs arbitrary: x out)
    (auto simp: Let_def BYTES_PER_UUID_def algebra_simps dest!: cds_hash_lookup_length split: prod.splits if_splits res.splits)

section \<open>Decoding\<close>

text \<open>A query of the host's memory: \<open>ct\<close> lies outside the enclave where the arguments say, with a nonce and the stated number of phones.\<close>

definition query_in_memory :: "'x svc \<Rightarrow> sgxsd_server_handle_call_args \<Rightarrow> bytes \<Rightarrow> 'x \<Rightarrow> bool" where
  "query_in_memory v args ct x \<longleftrightarrow> (let q = call_query args; n = unat (query_size q) in
     query_data q \<noteq> 0 \<and> svc_is_outside_enclave v (query_data q) n = 1 \<and> \<not> query_data q + of_nat n < query_data q
     \<and> svc_read v (query_data q) n x = ct \<and> length ct = n \<and> n = 32 + 8 * unat (query_phone_count args) \<and> length (query_mac q) = 16)"

definition encode_phones :: "phone list \<Rightarrow> bytes" where
  "encode_phones ps = concat (map (le_bytes 8) ps)"

lemma verify_commitment_sha256: "verify_commitment data c \<longleftrightarrow> fips_sha256 data = c"
  using sha256_correct [of "[data]"] by (simp add: verify_commitment_def sgxsd_enclave_sha256_def)

lemma decode_phone_list_eq:
  assumes m: "query_in_memory v args ct x" and key: "length key = 32"
    and iv: "iv = query_iv (call_query args)" and E: "E = aes_encrypt key"
  shows "decode_phone_list v args key x =
    (if query_mac (call_query args) \<noteq> gcm_tag E iv [] ct then Err SGX_ERROR_MAC_MISMATCH
     else if query_commitment args \<noteq> fips_sha256 (gcm_crypt E iv ct) then Err CDS_ERROR_QUERY_COMMITMENT_MISMATCH
     else Ok (gcm_crypt E iv ct))"
proof -
  let ?q = "call_query args"
  have len: "length ct = 32 + 8 * unat (query_phone_count args)" "length ct < 2 ^ 32" "length ct = unat (query_size ?q)" "length (query_mac ?q) = 16"
    using m unat_bound [of "query_size ?q"] by (auto simp: query_in_memory_def Let_def)
  have f: "query_data ?q \<noteq> 0" "svc_is_outside_enclave v (query_data ?q) (unat (query_size ?q)) = 1"
    "\<not> query_data ?q + of_nat (unat (query_size ?q)) < query_data ?q" using m unfolding query_in_memory_def Let_def by blast+
  have "unat (query_size ?q) \<noteq> 0" using len(1,3) by linarith
  then have sl: "untrusted_slice_new v (query_data ?q) (unat (query_size ?q)) = Some (NonEmpty (query_data ?q) (unat (query_size ?q)))"
    unfolding untrusted_slice_new_def using f by simp
  have rd: "svc_read v (query_data ?q) (unat (query_size ?q)) x = ct" using m unfolding query_in_memory_def Let_def by blast
  have d: "sgxsd_aes_gcm_decrypt (Some key) (Some ct) (of_nat (length ct)) (Some ct) (Some iv) (Some []) 0 (Some (query_mac ?q))
    = (if query_mac ?q = gcm_tag E iv [] ct then (SGX_SUCCESS, Some (gcm_crypt E iv ct)) else (SGX_ERROR_MAC_MISMATCH, Some (replicate (length ct) 0)))"
    using decrypt_whole [OF key len(2) refl len(4), of "Some []" 0 iv] by (simp add: readable_def region_def E)
  have a: "aes_gcm_key_decrypt key ct [] iv (query_mac ?q)
    = (if query_mac ?q = gcm_tag E iv [] ct then Ok (gcm_crypt E iv ct) else Err SGX_ERROR_MAC_MISMATCH)"
    using key len(2) d by (simp add: aes_gcm_key_decrypt_def)
  show ?thesis
    using len key a unfolding decode_phone_list_def Let_def sl option.case untrusted_slice_read_bytes.simps rd
    by (auto simp: COMMITMENT_NONCE_SIZE_def BYTES_PER_PHONE_def verify_commitment_sha256 iv)
qed

lemma length_encode_phones [simp]: "length (encode_phones ps) = 8 * length ps"
  by (induction ps) (simp_all add: encode_phones_def)

lemma encode_phones_nth: "i < length ps \<Longrightarrow> take 8 (drop (8 * i) (encode_phones ps)) = le_bytes 8 (ps ! i)"
proof (induction ps arbitrary: i)
  case (Cons p ps)
  then show ?case by (cases i) (simp_all add: encode_phones_def)
qed simp

lemma request_phones_encode: "length nonce = 32 \<Longrightarrow> request_phones (nonce @ encode_phones ps) = ps"
  by (rule nth_equalityI)
    (simp_all add: request_phones_def Let_def COMMITMENT_NONCE_SIZE_def BYTES_PER_PHONE_def decode_phone_def encode_phones_nth le_word_le_bytes)

lemma length_request_phones: "length (request_phones data) = (length data - 32) div 8"
  by (simp add: request_phones_def Let_def COMMITMENT_NONCE_SIZE_def BYTES_PER_PHONE_def)

lemma key_decrypt_cases:
  assumes "length mac = 16"
  shows "aes_gcm_key_decrypt key data [] iv mac \<noteq> Err SGX_SUCCESS"
    and "aes_gcm_key_decrypt key data [] iv mac = Ok d \<Longrightarrow> length d = length data"
  using decrypt_whole [OF _ _ refl assms, of key data "Some []" 0 iv]
  by (auto simp: aes_gcm_key_decrypt_def readable_def split: if_splits)

lemma decode_cases:
  assumes "length (query_mac (call_query args)) = 16"
  shows "decode_phone_list v args rd x \<noteq> Err SGX_SUCCESS"
    and "decode_phone_list v args rd x = Ok data \<Longrightarrow> length data = 32 + 8 * unat (query_phone_count args)"
proof -
  show "decode_phone_list v args rd x \<noteq> Err SGX_SUCCESS"
    using key_decrypt_cases(1) [OF assms]
    by (auto simp: decode_phone_list_def Let_def CDS_ERROR_INVALID_REQUEST_SIZE_def CDS_ERROR_QUERY_COMMITMENT_MISMATCH_def
        split: option.splits res.splits)
  show "length data = 32 + 8 * unat (query_phone_count args)" if ok: "decode_phone_list v args rd x = Ok data"
  proof -
    obtain ct where ct: "\<not> length ct < 32" "(length ct - 32) mod 8 = 0" "(length ct - 32) div 8 = unat (query_phone_count args)"
      and d: "aes_gcm_key_decrypt rd ct [] (query_iv (call_query args)) (query_mac (call_query args)) = Ok data"
      using ok by (auto simp: decode_phone_list_def Let_def COMMITMENT_NONCE_SIZE_def BYTES_PER_PHONE_def split: option.splits res.splits if_splits)
    then show ?thesis using key_decrypt_cases(2) [OF assms d] by (metis add.commute le_add_diff_inverse2 mult_div_mod_eq not_less add_0)
  qed
qed

section \<open>Refinement\<close>

lemma handle_call_refines:
  assumes inv: "server_inv st" and mac: "\<forall>a. args = Some a \<longrightarrow> length (query_mac (call_query a)) = 16"
    and run: "handle_call v st args rd sender x = (r, st')"
  shows "server_inv st' \<and> query_capacity st' = query_capacity st \<and> (if r = SGX_SUCCESS
    then \<exists>a data. args = Some a \<and> decode_phone_list v a rd x = Ok data \<and> abs_server st' = abs_server st @ [(sender, request_phones data)]
    else st' = st)"
proof (cases "r = SGX_SUCCESS")
  case False
  then have "st' = st" using run by (auto simp: handle_call_def Let_def split: option.splits res.splits if_splits)
  then show ?thesis using inv False by simp
next
  case True
  obtain a where a: "args = Some a" using run True by (auto simp: handle_call_def split: option.splits)
  have m: "length (query_mac (call_query a)) = 16" using mac a by simp
  obtain data where dr: "decode_request v st a rd x = Ok data"
  proof (cases "decode_request v st a rd x")
    case (Err e)
    then have "e = SGX_SUCCESS" using run True a by (simp add: handle_call_def)
    then show thesis using Err decode_cases(1) [OF m, of v rd x] by (simp add: decode_request_def split: if_splits)
  qed
  then have dec: "decode_phone_list v a rd x = Ok data"
    and fits: "unat (query_phone_count a) \<le> query_capacity st - length (query_phones st)"
    by (auto simp: decode_request_def not_less split: if_splits)
  have st': "st' = st\<lparr>query_phones := query_phones st @ request_phones data, requests := requests st @ [(sender, of_nat (length (request_phones data)))]\<rparr>"
    using run True a dr by (simp add: handle_call_def Let_def split: if_splits)
  have n: "length (request_phones data) = unat (query_phone_count a)" using decode_cases(2) [OF m dec] by (simp add: length_request_phones)
  have u: "unat (of_nat (length (request_phones data)) :: u32) = length (request_phones data)" by (simp add: n)
  have "abs_server st' = abs_server st @ [(sender, request_phones data)]"
    using split_requests_append [of "requests st" "query_phones st" "[(sender, of_nat (length (request_phones data)))]" "request_phones data"]
      inv u by (simp add: abs_server_def st' server_inv_def)
  moreover have "server_inv st'" using inv u fits n by (simp add: server_inv_def st') arith
  ultimately show ?thesis using True a dec st' by simp
qed

text \<open>Arguments of the termination that describe a directory in host memory.\<close>

definition directory_args :: "'x svc \<Rightarrow> sgxsd_server_terminate_args \<Rightarrow> bool" where
  "directory_args v a \<longleftrightarrow> (let n = unat (in_phone_count a) in n * 16 < 2 ^ 64 \<and> untrusted_slice_new v (in_phones a) (n * 8) \<noteq> None
     \<and> untrusted_slice_new v (in_uuids a) (n * 16) \<noteq> None)"

definition host_directory :: "'x svc \<Rightarrow> sgxsd_server_terminate_args \<Rightarrow> 'x \<Rightarrow> (phone \<times> uuid) list" where
  "host_directory v a x = read_directory v (in_phones a) (in_uuids a) (unat (in_phone_count a)) x"

lemma slice_ptr: "untrusted_slice_new v p n = Some sl \<Longrightarrow> n \<noteq> 0 \<Longrightarrow> untrusted_slice_as_ptr sl = p"
  by (auto simp: untrusted_slice_new_def split: if_splits)

lemma directory_slices:
  assumes "directory_args v a"
  obtains p u where "untrusted_slice_new v (in_phones a) (unat (in_phone_count a) * 8) = Some p"
    "untrusted_slice_new v (in_uuids a) (unat (in_phone_count a) * 16) = Some u"
    "read_directory v (untrusted_slice_as_ptr p) (untrusted_slice_as_ptr u) (unat (in_phone_count a)) x = host_directory v a x"
proof -
  obtain p u where s: "untrusted_slice_new v (in_phones a) (unat (in_phone_count a) * 8) = Some p"
    "untrusted_slice_new v (in_uuids a) (unat (in_phone_count a) * 16) = Some u" using assms by (auto simp: directory_args_def Let_def)
  have "read_directory v (untrusted_slice_as_ptr p) (untrusted_slice_as_ptr u) (unat (in_phone_count a)) x = host_directory v a x"
  proof (cases "unat (in_phone_count a) = 0")
    case True
    then show ?thesis by (simp add: host_directory_def read_directory_def)
  next
    case False
    then show ?thesis using slice_ptr [OF s(1)] slice_ptr [OF s(2)] by (simp add: host_directory_def)
  qed
  then show thesis using that s by blast
qed

lemma terminate_answers:
  assumes inv: "server_inv st" and args: "directory_args v a" and small: "length (query_phones st) * 16 < 2 ^ 64"
    and good: "good_batches v (host_directory v a x) (chunks MAX_HASH_TABLE_SIZE (query_phones st)) x"
  shows "terminate v st (Some a) x = apfst Some (answer_all v (host_directory v a x) (abs_server st)
    (snd (lookup_chunks v (host_directory v a x) (chunks MAX_HASH_TABLE_SIZE (query_phones st)) x)))"
proof -
  obtain p u where s: "untrusted_slice_new v (in_phones a) (unat (in_phone_count a) * 8) = Some p"
    "untrusted_slice_new v (in_uuids a) (unat (in_phone_count a) * 16) = Some u"
    "read_directory v (untrusted_slice_as_ptr p) (untrusted_slice_as_ptr u) (unat (in_phone_count a)) x = host_directory v a x"
    by (rule directory_slices [OF args])
  have ov: "\<not> 2 ^ 64 \<le> unat (in_phone_count a) * 8" "\<not> 2 ^ 64 \<le> unat (in_phone_count a) * 16"
    using args by (auto simp: directory_args_def Let_def)
  have "concat (chunks MAX_HASH_TABLE_SIZE (query_phones st)) = query_phones st"
    by (rule concat_chunks) (simp add: MAX_HASH_TABLE_SIZE_def)
  then obtain x' where l: "lookup_chunks v (host_directory v a x) (chunks MAX_HASH_TABLE_SIZE (query_phones st)) x
      = (Ok (directory_answers (host_directory v a x) (query_phones st)), x')"
    using lookup_chunks_answers [OF good] by auto
  have "reply_requests v (requests st) (directory_answers (host_directory v a x) (query_phones st)) x'
      = apfst Some (answer_all v (host_directory v a x) (abs_server st) x')"
    using reply_requests_answers [of "requests st" "query_phones st"] inv by (simp add: server_inv_def abs_server_def)
  then show ?thesis using s ov small l by (simp add: terminate_def BYTES_PER_PHONE_def BYTES_PER_UUID_def Let_def)
qed

lemma terminate_no_panic:
  assumes "server_inv st"
  shows "fst (terminate v st args x) \<noteq> None"
proof -
  have c: "concat (chunks MAX_HASH_TABLE_SIZE (query_phones st)) = query_phones st"
    by (rule concat_chunks) (simp add: MAX_HASH_TABLE_SIZE_def)
  have "fst (reply_requests v (requests st) out x') \<noteq> None"
    if "lookup_chunks v D (chunks MAX_HASH_TABLE_SIZE (query_phones st)) x = (Ok out, x')" for D out x'
    using reply_requests_total [of out "requests st" v x'] lookup_chunks_length [OF that] assms by (simp add: c server_inv_def)
  then show ?thesis by (auto simp: terminate_def Let_def split: option.splits prod.splits res.splits)
qed

lemma terminate_refused: "\<not> directory_args v a \<Longrightarrow>
    terminate v st (Some a) x = (Some SGX_ERROR_INVALID_PARAMETER, foldl (\<lambda>x r. svc_noreply v (fst r) x) x (abs_server st))"
  by (auto simp: terminate_def directory_args_def Let_def BYTES_PER_PHONE_def BYTES_PER_UUID_def drop_requests_abs split: option.splits)

section \<open>Fingerprints\<close>

definition phone_fingerprint :: "bytes \<Rightarrow> phone \<Rightarrow> u8" where
  "phone_fingerprint key p = rfc2104_hmac fips_sha256 key (le_bytes 8 p) ! 0"

lemma fingerprint_loop_hmac:
  assumes kc: "kc = br_hmac_key_init zero_key_context zero_context vtable_sha256 key" and ctx: "length (hc_buf (hmac_dig ctx)) = 64"
    and n: "length fp = i + m" "length ps \<le> m"
  shows "fingerprint_loop kc (br_hmac_init ctx kc 32) ps i (length fp) fp
    = (SGX_SUCCESS, take i fp @ map (phone_fingerprint key) ps @ drop (i + length ps) fp)"
  using ctx n
proof (induction ps arbitrary: ctx fp i m)
  case (Cons p ps)
  let ?c = "br_hmac_update (br_hmac_init ctx kc 32) (le_bytes 8 p)" and ?b = "phone_fingerprint key p"
  note z = zero_key_context_def zero_hmac_context_def zero_context_def
  have o: "br_hmac_out ?c zero_context ! 0 = ?b"
    using hmac_sha256.hmac_key_rfc2104 [of zero_key_context zero_context ctx zero_context key 32 "[le_bytes 8 p]"] Cons.prems(1)
    by (simp add: kc z phone_fingerprint_def)
  have b: "length (hc_buf (hmac_dig ?c)) = 64"
    using hmac_sha256.hmac_key_buf [of zero_key_context zero_context ctx key 32 "[le_bytes 8 p]"] Cons.prems(1) by (simp add: kc z)
  have l: "length (fp[i := ?b]) = Suc i + (m - 1)" "length ps \<le> m - 1" using Cons.prems(2,3) by auto
  have "fingerprint_loop kc (br_hmac_init ?c kc 32) ps (Suc i) (length (fp[i := ?b])) (fp[i := ?b])
      = (SGX_SUCCESS, take (Suc i) (fp[i := ?b]) @ map (phone_fingerprint key) ps @ drop (Suc i + length ps) (fp[i := ?b]))"
    by (rule Cons.IH [OF b l])
  moreover have "take (Suc i) (fp[i := ?b]) = take i fp @ [?b]" using Cons.prems(2,3) by (simp add: take_Suc_conv_app_nth)
  ultimately show ?case using Cons.prems(2,3) o by (simp add: Let_def)
qed simp

lemma fingerprint_loop_short:
  assumes "length fp < i + length ps" "i \<le> length fp"
  shows "fst (fingerprint_loop kc ctx ps i (length fp) fp) = SGX_ERROR_INVALID_PARAMETER"
  using assms
proof (induction ps arbitrary: ctx fp i)
  case (Cons p ps)
  then show ?case using Cons.IH [of "fp[i := x]" "Suc i" for x] by (auto simp: Let_def)
qed simp

end
