(* ===== verification/Cds_Service_Correct.thy ===== *)
theory Cds_Service_Correct imports Cds_Service begin

text \<open>
  What the service promises: the refinement of the abstract service, that a query built by
  a client is decoded to the phones it was built from, and the rate-limit fingerprints.
\<close>

section \<open>Lookups only draw random numbers\<close>

text \<open>What drawing a random number leaves alone, a lookup of phones leaves alone.\<close>

lemma generate_frame:
  assumes "\<And>x. log (snd (rdrand x)) = log x"
  shows "hash_key_generate rdrand n x = (hk, x') \<Longrightarrow> log x' = log x"
proof (induction n arbitrary: x)
  case (Suc n)
  have "log x1 = log x" if "rdrand x = (q, x1)" for q x x1 using assms [of x] that by simp
  then show ?case using Suc by (fastforce split: prod.splits if_splits)
qed simp

lemma lookup_frame:
  assumes "\<And>x. log (snd (rdrand x)) = log x"
  shows "hash_lookup rdrand D ps out slots results x = (r, x') \<Longrightarrow> log x' = log x"
  by (auto simp: hash_lookup_def Let_def dest: generate_frame [where log = log, OF assms] split: if_splits prod.splits option.splits)

lemma attempts_frame:
  assumes "\<And>x. log (snd (rdrand x)) = log x"
  shows "lookup_attempts rdrand D ps n out slots results x = (r, x') \<Longrightarrow> log x' = log x"
proof (induction n arbitrary: out slots results x)
  case (Suc n)
  then show ?case using lookup_frame [where log = log, OF assms] by (auto split: prod.splits option.splits CdsHashLookupError.splits)
qed simp

lemma chunks_frame:
  assumes "\<And>x. log (snd (svc_rdrand v x)) = log x"
  shows "lookup_chunks v D cs x = (r, x') \<Longrightarrow> log x' = log x"
proof (induction cs arbitrary: x r)
  case (Cons c cs)
  have "log x1 = log x" if "cds_hash_lookup (svc_rdrand v) D ps out x = (q, x1)" for ps out q x1
    using that attempts_frame [where log = log, OF assms] by (auto simp: cds_hash_lookup_def split: option.splits if_splits)
  then show ?case using Cons by (auto simp: Let_def split: prod.splits if_splits res.splits)
qed simp

text \<open>How a termination ends: with all senders dropped, before or after the lookups, or with the answers.\<close>

lemma terminate_ends:
  assumes "terminate v st args x = (Some status, x')"
  obtains "x' = drop_requests v (requests st) x"
  | D cs r x1 where "lookup_chunks v D cs x = (r, x1)" "x' = drop_requests v (requests st) x1"
  | D cs r x1 results where "lookup_chunks v D cs x = (r, x1)" "reply_requests v (requests st) results x1 = (Some status, x')"
  using assms by (auto simp: terminate_def Let_def split: option.splits if_splits prod.splits res.splits)

section \<open>Refinement\<close>

text \<open>An example: the host's memory is constant, every answer is accepted, and the world is the list of the senders contacted.\<close>

definition demo_svc :: "bytes \<Rightarrow> sgxsd_msg_from list svc" where
  "demo_svc mem = \<lparr>svc_is_outside_enclave = (\<lambda>_ _. 1), svc_read = (\<lambda>p n x. take n mem), svc_rdrand = (\<lambda>x. ((True, 7), x)),
     svc_reply = (\<lambda>m f x. (SGX_SUCCESS, x @ [f])), svc_noreply = (\<lambda>f x. x @ [f]), svc_capacity = id\<rparr>"

definition demo_from :: "u64 \<Rightarrow> sgxsd_msg_from" where
  "demo_from t = \<lparr>from_valid = True, from_tag = t, from_server_key = replicate 32 0\<rparr>"

definition demo_server :: cds_server where
  "demo_server = \<lparr>requests = [(demo_from 1, 1), (demo_from 2, 2)], query_phones = [5, 6, 5], query_capacity = 4\<rparr>"

text \<open>C3. The service refines its abstract specification, a list of senders with the phones each asked for. A new server is
  the empty list. A call either fails and changes nothing, or adds its sender with the phones of its query;
  the invariant of the server is kept. A termination with the address of a directory, when the batch is good (\<open>good_batches\<close>: no phone is 0,
  and for each chunk the first lookup key that does not overflow leaves at most twelve different phones in each slot; the code
  checks neither, and answers wrongly otherwise), looks up every phone and answers the senders one after the other, each with the
  directory entries of its own phones, whatever else is in the batch.\<close>

theorem service_refinement:
  assumes "server_inv st" "\<forall>a. args = Some a \<longrightarrow> length (query_mac (call_query a)) = 16"
    and "handle_call v st args key sender x = (r, st')"
    and "directory_args v b" "length (query_phones st') * 16 < 2 ^ 64"
    and "good_batches v (host_directory v b x2) (chunks MAX_HASH_TABLE_SIZE (query_phones st')) x2"
    and "x3 = snd (lookup_chunks v (host_directory v b x2) (chunks MAX_HASH_TABLE_SIZE (query_phones st')) x2)"
  shows "(\<forall>i st0. server_init v (Some i) = Ok st0 \<longrightarrow> server_inv st0 \<and> abs_server st0 = [])
    \<and> server_inv st' \<and> (if r = SGX_SUCCESS
      then \<exists>a data. args = Some a \<and> decode_phone_list v a key x = Ok data \<and> abs_server st' = abs_server st @ [(sender, request_phones data)]
      else st' = st)
    \<and> terminate v st' (Some b) x2 = apfst Some (answer_all v (host_directory v b x2) (abs_server st') x3)"
proof -
  note h = handle_call_refines [OF assms(1-3)]
  then have "terminate v st' (Some b) x2 = apfst Some (answer_all v (host_directory v b x2) (abs_server st') x3)"
    unfolding assms(7) using terminate_answers [OF _ assms(4-6)] by blast
  then show ?thesis using h by (auto simp: server_init_def server_inv_def abs_server_def)
qed

theorem service_refinement_witness:
  "\<exists>x3. terminate (demo_svc []) demo_server (Some \<lparr>in_phones = 0, in_phone_count = 0, in_uuids = 0\<rparr>) []
    = apfst Some (answer_all (demo_svc []) [] [(demo_from 1, [5]), (demo_from 2, [6, 5])] x3)"
proof -
  let ?v = "demo_svc []" and ?b = "\<lparr>in_phones = 0, in_phone_count = 0, in_uuids = 0\<rparr> :: sgxsd_server_terminate_args"
  have inv: "server_inv demo_server" by (simp add: server_inv_def demo_server_def)
  have d: "directory_args ?v ?b" "host_directory ?v ?b [] = []"
    by (simp_all add: directory_args_def untrusted_slice_new_def host_directory_def read_directory_def)
  have c: "chunks MAX_HASH_TABLE_SIZE [5, 6, 5 :: phone] = [[5, 6, 5]]"
    by (simp add: MAX_HASH_TABLE_SIZE_def MAX_HASH_TABLE_ORDER_def chunks.simps [of 8192])
  have "good_batch (svc_rdrand ?v) [5, 6, 5] []" by (rule small_batch_good) (simp_all add: demo_svc_def)
  then have g: "good_batches ?v [] (chunks MAX_HASH_TABLE_SIZE (query_phones demo_server)) []" by (simp add: demo_server_def c)
  have h: "handle_call ?v demo_server None [] (demo_from 3) [] = (SGX_ERROR_INVALID_PARAMETER, demo_server)" by (simp add: handle_call_def)
  have a: "abs_server demo_server = [(demo_from 1, [5]), (demo_from 2, [6, 5])]" by (simp add: abs_server_def demo_server_def)
  have small: "length (query_phones demo_server) * 16 < 2 ^ 64" by (simp add: demo_server_def)
  have "\<exists>x3. terminate ?v demo_server (Some ?b) [] = apfst Some (answer_all ?v [] (abs_server demo_server) x3)"
    using service_refinement [OF inv _ h d(1) small _ refl, of "[]"] g unfolding d(2) by blast
  then show ?thesis unfolding a .
qed

section \<open>Queries\<close>

text \<open>A query as a client builds it: a nonce and the phones, sealed under the query key, with a commitment to the plaintext.\<close>

definition client_query :: "'x svc \<Rightarrow> bytes \<Rightarrow> bytes \<Rightarrow> phone list \<Rightarrow> sgxsd_server_handle_call_args \<Rightarrow> 'x \<Rightarrow> bool" where
  "client_query v key nonce ps args x \<longleftrightarrow> length key = 32 \<and> length nonce = 32
     \<and> (let E = aes_encrypt key; iv = query_iv (call_query args); ct = gcm_crypt E iv (nonce @ encode_phones ps)
        in query_in_memory v args ct x \<and> query_mac (call_query args) = gcm_tag E iv [] ct
           \<and> query_commitment args = fips_sha256 (nonce @ encode_phones ps))"

lemma query_in_memory_cong:
  assumes "query_in_memory v args ct x" "query_data (call_query a) = query_data (call_query args)"
    and "query_size (call_query a) = query_size (call_query args)" "query_phone_count a = query_phone_count args"
    and "length (query_mac (call_query a)) = 16"
  shows "query_in_memory v a ct x"
  using assms(1) unfolding query_in_memory_def Let_def assms(2-5) by blast

lemma client_query_count: "client_query v key nonce ps args x \<Longrightarrow> unat (query_phone_count args) = length ps"
  by (simp add: client_query_def query_in_memory_def Let_def)

lemma client_query_decoded: "client_query v key nonce ps args x \<Longrightarrow> decode_phone_list v args key x = Ok (nonce @ encode_phones ps)"
  using decode_phone_list_eq [of v args _ x key] by (auto simp: client_query_def Let_def decrypt_encrypt)

lemma client_query_handled:
  assumes "client_query v key nonce ps args x" "ps \<noteq> []" "length (query_phones st) + length ps \<le> query_capacity st" "server_inv st"
  shows "\<exists>st'. handle_call v st (Some args) key sender x = (SGX_SUCCESS, st') \<and> server_inv st' \<and> query_capacity st' = query_capacity st
    \<and> abs_server st' = abs_server st @ [(sender, ps)]"
proof -
  note n = client_query_count [OF assms(1)] and d = client_query_decoded [OF assms(1)]
  have nonce: "length nonce = 32" and mac: "length (query_mac (call_query args)) = 16"
    using assms(1) by (auto simp: client_query_def query_in_memory_def Let_def)
  have "query_phone_count args \<noteq> 0" using n assms(2) by (metis length_0_conv unat_0)
  then have "decode_request v st args key x = Ok (nonce @ encode_phones ps)" using d n assms(3) by (simp add: decode_request_def)
  moreover have "length ps < 2 ^ 32" using unat_bound [of "query_phone_count args"] n by simp
  ultimately obtain st' where h: "handle_call v st (Some args) key sender x = (SGX_SUCCESS, st')"
    by (simp add: handle_call_def request_phones_encode [OF nonce] Let_def)
  then show ?thesis using handle_call_refines [OF assms(4) _ h] mac d by (auto simp: request_phones_encode [OF nonce])
qed

text \<open>C6. A query that a client builds is decoded to exactly the phones it was built from, and the server holds them for that sender.
  The same query with another tag is refused as forged, and with another commitment as a mismatch; both leave the server unchanged.\<close>

theorem query_roundtrip:
  assumes "client_query v key nonce ps args x" "ps \<noteq> []" "length (query_phones st) + length ps \<le> query_capacity st" "server_inv st"
  shows "(\<exists>st'. handle_call v st (Some args) key sender x = (SGX_SUCCESS, st') \<and> abs_server st' = abs_server st @ [(sender, ps)])
    \<and> (\<forall>mac. length mac = 16 \<longrightarrow> mac \<noteq> query_mac (call_query args) \<longrightarrow>
         handle_call v st (Some (args\<lparr>call_query := (call_query args)\<lparr>query_mac := mac\<rparr>\<rparr>)) key sender x = (SGX_ERROR_MAC_MISMATCH, st))
    \<and> (\<forall>c. c \<noteq> query_commitment args \<longrightarrow>
         handle_call v st (Some (args\<lparr>query_commitment := c\<rparr>)) key sender x = (CDS_ERROR_QUERY_COMMITMENT_MISMATCH, st))"
proof -
  let ?iv = "query_iv (call_query args)" and ?pt = "nonce @ encode_phones ps"
  let ?ct = "gcm_crypt (aes_encrypt key) ?iv ?pt"
  have q: "length key = 32" "query_in_memory v args ?ct x" "query_mac (call_query args) = gcm_tag (aes_encrypt key) ?iv [] ?ct"
    "query_commitment args = fips_sha256 ?pt" using assms(1) by (auto simp: client_query_def Let_def)
  have n: "query_phone_count args \<noteq> 0" "\<not> query_capacity st - length (query_phones st) < unat (query_phone_count args)"
    using client_query_count [OF assms(1)] assms(2,3) by (metis length_0_conv unat_0, simp)
  have "query_in_memory v (args\<lparr>call_query := (call_query args)\<lparr>query_mac := mac\<rparr>\<rparr>) ?ct x" if "length mac = 16" for mac
    by (rule query_in_memory_cong [OF q(2)]) (simp_all add: that)
  note m = decode_phone_list_eq [OF this q(1) refl refl]
  have "query_in_memory v (args\<lparr>query_commitment := c\<rparr>) ?ct x" for c
    by (rule query_in_memory_cong [OF q(2)]) (use q(2) in \<open>simp_all add: query_in_memory_def Let_def\<close>)
  note c = decode_phone_list_eq [OF this q(1) refl refl]
  show ?thesis
  proof (intro conjI allI impI)
    show "\<exists>st'. handle_call v st (Some args) key sender x = (SGX_SUCCESS, st') \<and> abs_server st' = abs_server st @ [(sender, ps)]"
      using client_query_handled [OF assms] by blast
  qed (use n q(3,4) m c in \<open>simp_all add: handle_call_def decode_request_def decrypt_encrypt\<close>)
qed

text \<open>A query in the example's memory.\<close>

definition demo_query :: "sgxsd_server_handle_call_args" where
  "demo_query = (let E = aes_encrypt (replicate 32 3); pt = replicate 32 9 @ encode_phones [5]; iv = replicate 12 1; ct = gcm_crypt E iv pt
     in \<lparr>query_phone_count = 1, ratelimit_state_size = 0, ratelimit_state_uuid = [], ratelimit_state_data = 0,
          call_query = \<lparr>query_iv = iv, query_mac = gcm_tag E iv [] ct, query_size = 40, query_data = 64\<rparr>,
          query_commitment = fips_sha256 pt\<rparr>)"

definition demo_mem :: bytes where
  "demo_mem = gcm_crypt (aes_encrypt (replicate 32 3)) (replicate 12 1) (replicate 32 9 @ encode_phones [5])"

lemma demo_query_ok: "client_query (demo_svc demo_mem) (replicate 32 3) (replicate 32 9) [5] demo_query x"
  by (simp add: client_query_def query_in_memory_def demo_query_def demo_mem_def demo_svc_def Let_def)

definition demo_empty :: cds_server where "demo_empty = \<lparr>requests = [], query_phones = [], query_capacity = 4\<rparr>"

theorem query_roundtrip_witness:
  "\<exists>st'. handle_call (demo_svc demo_mem) demo_empty (Some demo_query) (replicate 32 3) (demo_from 1) [] = (SGX_SUCCESS, st')
    \<and> abs_server st' = [(demo_from 1, [5])]"
  using query_roundtrip [OF demo_query_ok, of demo_empty "demo_from 1" "[]"]
  by (simp add: demo_empty_def server_inv_def abs_server_def)

section \<open>Rate-limit fingerprints\<close>

text \<open>C20. The fingerprint of a client's query has one byte for each phone, in order: the first byte of the HMAC-SHA256 of the phone under
  the fingerprint key. The rest of the buffer is as before. A buffer with fewer bytes than the query has phones is refused.\<close>

theorem ratelimit_fingerprint_correct:
  assumes "client_query v key nonce ps args x"
  shows "if length ps \<le> length fp
    then create_ratelimit_fingerprint v fkey args key fp (length fp) x = (SGX_SUCCESS, map (phone_fingerprint fkey) ps @ drop (length ps) fp)
    else fst (create_ratelimit_fingerprint v fkey args key fp (length fp) x) = SGX_ERROR_INVALID_PARAMETER"
proof -
  have nonce: "length nonce = 32" using assms by (simp add: client_query_def)
  let ?kc = "br_hmac_key_init zero_key_context zero_context vtable_sha256 fkey"
  have c: "create_ratelimit_fingerprint v fkey args key fp (length fp) x
      = fingerprint_loop ?kc (br_hmac_init zero_hmac_context ?kc 32) ps 0 (length fp) fp"
    by (simp add: create_ratelimit_fingerprint_def client_query_decoded [OF assms] request_phones_encode [OF nonce] Let_def)
  have "length (hc_buf (hmac_dig zero_hmac_context)) = 64" by (simp add: zero_hmac_context_def zero_context_def)
  then show ?thesis
    using fingerprint_loop_hmac [OF refl, of zero_hmac_context fp 0 "length fp" ps fkey] fingerprint_loop_short [of fp 0 ps] c by auto
qed

theorem ratelimit_fingerprint_correct_witness:
  "create_ratelimit_fingerprint (demo_svc demo_mem) (replicate 32 1) demo_query (replicate 32 3) [0, 8] 2 []
    = (SGX_SUCCESS, [phone_fingerprint (replicate 32 1) 5, 8])"
  using ratelimit_fingerprint_correct [OF demo_query_ok, of "[0, 8]" "replicate 32 1" "[]"] by (simp add: numeral_2_eq_2)

end
