(* ===== verification/Sgxsd_Reply.thy ===== *)
theory Sgxsd_Reply imports Sgxsd_Ecalls begin

text \<open>
  Replies of \<open>c_src/sgxsd-enclave.c\<close>: what \<open>sgxsd_enclave_server_reply\<close> and \<open>sgxsd_enclave_server_noreply\<close> hand to the
  outgoing call and what they erase.
\<close>

text \<open>The IV of a reply is never the zero IV of the negotiation response, which uses the same key.\<close>

lemma reply_iv:
  assumes "length iv = 12"
  shows "length (iv[0 := iv ! 0 OR 1]) = 12" "iv[0 := iv ! 0 OR 1] \<noteq> replicate 12 (0 :: u8)"
proof -
  show "length (iv[0 := iv ! 0 OR 1]) = 12" using assms by simp
  have "bit (iv[0 := iv ! 0 OR 1] ! 0) 0" using assms by (simp add: bit_or_iff)
  moreover have "\<not> bit (replicate 12 (0 :: u8) ! 0) 0" by simp
  ultimately show "iv[0 := iv ! 0 OR 1] \<noteq> replicate 12 (0 :: u8)" by metis
qed

lemma encrypt_reply:
  assumes "length key = 32" "unat n = length m"
  shows "sgxsd_aes_gcm_encrypt (Some key) (Some m) n (Some m) (Some iv) None 0 (Some (replicate 16 0))
    = (SGX_SUCCESS, Some (gcm_crypt (aes_encrypt key) iv m), Some (gcm_tag (aes_encrypt key) iv [] (gcm_crypt (aes_encrypt key) iv m)))"
proof -
  have "n = of_nat (length m)" unfolding assms(2) [symmetric] by simp
  moreover have "length m < 2 ^ 32" using assms(2) unat_bound [of n] by simp
  ultimately show ?thesis using encrypt_whole [of key m m "replicate 16 0" iv] assms(1) by simp
qed

lemma server_reply_sent:
  assumes "from_valid from" "length (from_server_key from) = 32" "buf_data buf = Some m" "unat (buf_size buf) = length m"
    and "sgx_read_rand e 12 s = ((SGX_SUCCESS, iv), s1)" "iv' = iv[0 := iv ! 0 OR 1]"
    and "ct = gcm_crypt (aes_encrypt (from_server_key from)) iv' m"
    and "env_ocall_reply e (Some \<lparr>hdr_iv = iv', hdr_mac = gcm_tag (aes_encrypt (from_server_key from)) iv' [] ct,
        hdr_pending_request_id = env_stack_prid e (world s)\<rparr>) (Some ct) (of_nat (length m)) (from_tag from) (world s1)
      = ((ocall_res, reply_res), w)"
  shows "sgxsd_enclave_server_reply e buf (Some from) s
      = ((if ocall_res = SGX_SUCCESS then reply_res else ocall_res,
          buf\<lparr>buf_data := Some (replicate (length m) 0)\<rparr>, Some zero_msg_from), s1\<lparr>world := w\<rparr>)"
proof -
  have n: "(ucast (buf_size buf) :: u64) = of_nat (length m)" unfolding assms(4) [symmetric] by (simp add: of_nat_unat)
  have "sgxsd_enclave_server_reply_noerase e buf (Some from) s
      = ((if ocall_res = SGX_SUCCESS then reply_res else ocall_res, buf\<lparr>buf_data := Some ct\<rparr>), s1\<lparr>world := w\<rparr>)"
    unfolding sgxsd_enclave_server_reply_noerase_def option.case Let_def SGXSD_AES_GCM_IV_SIZE_def SGXSD_AES_GCM_MAC_SIZE_def
      assms(3,5) prod.case assms(6) [symmetric] encrypt_reply [OF assms(2,4)] assms(7) [symmetric] n
    using assms(1,8) by (simp add: sgxsd_ocall_reply_def assms(3) n)
  moreover have "length ct = length m" by (simp add: assms(7))
  ultimately show ?thesis
    by (simp add: sgxsd_enclave_server_reply_def erase_buf_def assms(4) memcpy_at_whole)
qed

text \<open>C10. Replying to a valid sender encrypts the reply under the server key of its request, with a random IV
  whose lowest bit is set, so that it differs from the IV of the negotiation response, and passes
  exactly that ciphertext, its tag and the sender's tag to the outgoing call once. Whatever the
  outgoing call answers, the reply buffer then holds zeros and the sender is erased, so that a
  second reply or refusal is \<open>SGX_ERROR_INVALID_STATE\<close>. The pending-request field of the header that leaves the
  enclave is whatever the stack held before.\<close>

theorem server_reply_correct:
  assumes "from_valid from" "length (from_server_key from) = 32" "buf_data buf = Some m" "unat (buf_size buf) = length m"
    and "sgx_read_rand e 12 s = ((SGX_SUCCESS, iv), s1)" "iv' = iv[0 := iv ! 0 OR 1]"
    and "ct = gcm_crypt (aes_encrypt (from_server_key from)) iv' m"
    and "env_ocall_reply e (Some \<lparr>hdr_iv = iv', hdr_mac = gcm_tag (aes_encrypt (from_server_key from)) iv' [] ct,
        hdr_pending_request_id = env_stack_prid e (world s)\<rparr>) (Some ct) (of_nat (length m)) (from_tag from) (world s1)
      = ((ocall_res, reply_res), w)"
  shows "sgxsd_enclave_server_reply e buf (Some from) s
      = ((if ocall_res = SGX_SUCCESS then reply_res else ocall_res,
          buf\<lparr>buf_data := Some (replicate (length m) 0)\<rparr>, Some zero_msg_from), s1\<lparr>world := w\<rparr>)
    \<and> iv' \<noteq> replicate 12 0 \<and> gcm_crypt (aes_encrypt (from_server_key from)) iv' ct = m
    \<and> (\<forall>b s. sgxsd_enclave_server_reply e b (Some zero_msg_from) s
        = ((SGX_ERROR_INVALID_STATE, erase_buf b, Some zero_msg_from), s))
    \<and> (\<forall>s. sgxsd_enclave_server_noreply e (Some zero_msg_from) s = ((SGX_ERROR_INVALID_STATE, Some zero_msg_from), s))"
proof -
  have iv: "length iv = 12" using sgx_read_rand_frame [OF assms(5)] by blast
  have "iv' \<noteq> replicate 12 0" unfolding assms(6) by (rule reply_iv(2) [OF iv])
  then show ?thesis using server_reply_sent [OF assms]
    by (simp add: assms(7) decrypt_encrypt sgxsd_enclave_server_reply_def sgxsd_enclave_server_reply_noerase_def
        sgxsd_enclave_server_noreply_def zero_msg_from_def)
qed

theorem server_reply_correct_witness:
  "\<exists>s'. sgxsd_enclave_server_reply demo_env \<lparr>buf_data = Some [1, 2], buf_size = 2\<rparr>
      (Some \<lparr>from_valid = True, from_tag = 7, from_server_key = replicate 32 5\<rparr>) demo_state
    = ((SGX_SUCCESS, \<lparr>buf_data = Some [0, 0], buf_size = 2\<rparr>, Some zero_msg_from), s')"
proof -
  let ?b = "\<lparr>buf_data = Some [1, 2], buf_size = 2\<rparr>" and ?f = "\<lparr>from_valid = True, from_tag = 7, from_server_key = replicate 32 5\<rparr>"
  have e: "env_ocall_reply demo_env h d n t w = ((SGX_SUCCESS, SGX_SUCCESS), w + 1)" for h d n t w by (simp add: demo_env_def)
  show ?thesis
    using server_reply_correct [OF _ _ _ _ demo_read_rand refl refl e, of ?f ?b "[1, 2]" demo_state] by simp
qed

end
