(* ===== verification/Cds_Enclave.thy ===== *)
theory Cds_Enclave imports Cds_Service_Correct Sgxsd_Reply begin

text \<open>
  The whole enclave: the service as the server callbacks of the core. The callbacks of \<open>sgxsd_ffi/src/ecalls.rs\<close> keep a server
  in a box; the address of the box is the state pointer that the core stores in the descriptor. The core's reply function is what the service calls
  to answer.
\<close>

section \<open>Composition\<close>

record 'w cds_world =
  cw_boxes :: "u64 \<Rightarrow> cds_server option"
  cw_next :: u64
  cw_host :: 'w

text \<open>What is below the enclave: the environment of the core, host memory, the processor's generator, the vectors.\<close>

record 'w platform =
  plat_env :: "'w cds_world env"
  plat_read :: "u64 \<Rightarrow> nat \<Rightarrow> 'w \<Rightarrow> bytes"
  plat_rdrand :: "'w \<Rightarrow> (bool \<times> u64) \<times> 'w"
  plat_capacity :: "nat \<Rightarrow> nat"

definition run_state :: "bytes \<Rightarrow> 'w \<Rightarrow> 'w sgxsd_state" where
  "run_state rand w = (initial_state w)\<lparr>g_read_rand_state := rand\<rparr>"

definition enclave_svc :: "'w platform \<Rightarrow> (bytes \<times> 'w cds_world) svc" where
  "enclave_svc P = \<lparr>
     svc_is_outside_enclave = env_is_outside_enclave (plat_env P),
     svc_read = (\<lambda>p n (rand, w). plat_read P p n (cw_host w)),
     svc_rdrand = (\<lambda>(rand, w). let (r, h) = plat_rdrand P (cw_host w) in (r, (rand, w\<lparr>cw_host := h\<rparr>))),
     svc_reply = (\<lambda>msg from (rand, w).
       let ((res, _, _), s) = sgxsd_enclave_server_reply (plat_env P) \<lparr>buf_data = Some msg, buf_size = of_nat (length msg)\<rparr> (Some from)
             (run_state rand w)
       in (res, (g_read_rand_state s, world s))),
     svc_noreply = (\<lambda>from (rand, w).
       let (_, s) = sgxsd_enclave_server_noreply (plat_env P) (Some from) (run_state rand w) in (g_read_rand_state s, world s)),
     svc_capacity = plat_capacity P\<rparr>"

text \<open>
  \<open>Box::into_raw\<close> and \<open>Box::from_raw\<close>: a server is stored under a fresh address, and taken out again. An address without a server, which would be a dangling pointer,
  and a panic, which aborts the enclave, give \<open>SGX_ERROR_UNEXPECTED\<close>; the properties show that neither arises.
\<close>

definition server_init_cb :: "'w platform \<Rightarrow> sgxsd_server_init_args option \<Rightarrow> u64 \<Rightarrow> bytes \<times> 'w cds_world
    \<Rightarrow> (sgx_status \<times> u64) \<times> bytes \<times> 'w cds_world" where
  "server_init_cb P args old x =
     (case server_init (enclave_svc P) args of
        Err err \<Rightarrow> ((err, old), x)
      | Ok new_state \<Rightarrow> ((SGX_SUCCESS, cw_next (snd x)),
          (fst x, (snd x)\<lparr>cw_boxes := (cw_boxes (snd x))(cw_next (snd x) \<mapsto> new_state), cw_next := cw_next (snd x) + 1\<rparr>)))"

definition server_handle_call_cb :: "'w platform \<Rightarrow> sgxsd_server_handle_call_args option \<Rightarrow> bytes \<Rightarrow> sgxsd_msg_from \<Rightarrow> u64
    \<Rightarrow> bytes \<times> 'w cds_world \<Rightarrow> (sgx_status \<times> u64) \<times> bytes \<times> 'w cds_world" where
  "server_handle_call_cb P args msg from p_state x =
     (case cw_boxes (snd x) p_state of
        None \<Rightarrow> ((SGX_ERROR_UNEXPECTED, p_state), x)
      | Some st \<Rightarrow>
          let (res, st) = handle_call (enclave_svc P) st args msg from x
          in ((res, p_state), (fst x, (snd x)\<lparr>cw_boxes := (cw_boxes (snd x))(p_state \<mapsto> st)\<rparr>)))"

definition server_terminate_cb :: "'w platform \<Rightarrow> sgxsd_server_terminate_args option \<Rightarrow> u64 \<Rightarrow> bytes \<times> 'w cds_world
    \<Rightarrow> sgx_status \<times> bytes \<times> 'w cds_world" where
  "server_terminate_cb P args p_state x =
     (case cw_boxes (snd x) p_state of
        None \<Rightarrow> (SGX_ERROR_UNEXPECTED, x)
      | Some st \<Rightarrow>
          let (res, x) = terminate (enclave_svc P) st args (fst x, (snd x)\<lparr>cw_boxes := (cw_boxes (snd x))(p_state := None)\<rparr>)
          in (case res of None \<Rightarrow> SGX_ERROR_UNEXPECTED | Some status \<Rightarrow> status, x))"

definition cds_env :: "'w platform \<Rightarrow> 'w cds_world env" where
  "cds_env P = (plat_env P)\<lparr>env_server_init := server_init_cb P, env_server_handle_call := server_handle_call_cb P,
     env_server_terminate := server_terminate_cb P\<rparr>"

section \<open>Calls and termination\<close>

lemma cds_env_simps [simp]:
  "env_server_handle_call (cds_env P) = server_handle_call_cb P" "env_server_terminate (cds_env P) = server_terminate_cb P"
  "env_server_init (cds_env P) = server_init_cb P"
  by (simp_all add: cds_env_def)

lemma cds_call:
  assumes "enclave_inv s" "g_node_initialized s" "unat h < SGXSD_ENCLAVE_MAX_SERVERS" "sd_valid (get_desc (unat h) s)"
    and "wf_hdr hdr" "open_id (g_pending_request_id_key s) (hdr_pending_request_id hdr) = Some k" "live_requests s k = Some prk"
    and "data = gcm_crypt (aes_encrypt (client_key_of prk)) (hdr_iv hdr) key"
    and "hdr_mac hdr = gcm_tag (aes_encrypt (client_key_of prk)) (hdr_iv hdr) (prid_bytes (hdr_pending_request_id hdr)) data"
    and "cw_boxes (world s) (sd_state (get_desc (unat h) s)) = Some st" "server_inv st"
    and "client_query (enclave_svc P) key nonce ps a (g_read_rand_state s, world s)" "ps \<noteq> []"
    and "length (query_phones st) + length ps \<le> query_capacity st"
  shows "\<exists>s' st'. sgxsd_enclave_server_call (cds_env P) (Some a) (Some hdr) (Some data) 32 t h s
      = ((SGX_SUCCESS, Some (replicate 32 0)), s')
    \<and> sd_valid (get_desc (unat h) s') \<and> cw_boxes (world s') (sd_state (get_desc (unat h) s')) = Some st' \<and> server_inv st'
    \<and> abs_server st' = abs_server st @ [(\<lparr>from_valid = True, from_tag = t, from_server_key = server_key_of prk\<rparr>, ps)]
    \<and> cw_host (world s') = cw_host (world s) \<and> live_requests s' = (live_requests s)(k := None)"
proof -
  let ?p = "sd_state (get_desc (unat h) s)" and ?f = "\<lparr>from_valid = True, from_tag = t, from_server_key = server_key_of prk\<rparr>"
  have key: "length key = 32" using assms(12) by (simp add: client_query_def)
  obtain st' where h: "handle_call (enclave_svc P) st (Some a) key ?f (g_read_rand_state s, world s) = (SGX_SUCCESS, st')"
    and st': "server_inv st'" "abs_server st' = abs_server st @ [(?f, ps)]"
    using client_query_handled [OF assms(12-14,11)] by blast
  let ?w = "(world s)\<lparr>cw_boxes := (cw_boxes (world s))(?p \<mapsto> st')\<rparr>"
  have c: "env_server_handle_call (cds_env P) (Some a) key ?f ?p (g_read_rand_state s, world s) = ((SGX_SUCCESS, ?p), g_read_rand_state s, ?w)"
    by (simp add: server_handle_call_cb_def assms(10) h)
  have k: "0 < length key" "length key < 2 ^ 32" "unat (32 :: u64) = length key" by (simp_all add: key)
  from server_call_delivered [OF assms(1-5) k assms(6-9) c] st' show ?thesis by (auto simp: key)
qed

lemma cds_stop:
  assumes "enclave_inv s" "g_node_initialized s" "unat h < SGXSD_ENCLAVE_MAX_SERVERS" "sd_valid (get_desc (unat h) s)"
    and "cw_boxes (world s) (sd_state (get_desc (unat h) s)) = Some st" "server_inv st"
    and "x = (g_read_rand_state s, (world s)\<lparr>cw_boxes := (cw_boxes (world s))(sd_state (get_desc (unat h) s) := None)\<rparr>)"
    and "directory_args (enclave_svc P) b" "length (query_phones st) * 16 < 2 ^ 64"
    and "D = host_directory (enclave_svc P) b x" "good_batches (enclave_svc P) D (chunks MAX_HASH_TABLE_SIZE (query_phones st)) x"
    and "answer_all (enclave_svc P) D (abs_server st) (snd (lookup_chunks (enclave_svc P) D (chunks MAX_HASH_TABLE_SIZE (query_phones st)) x))
      = (status, rand, w)"
  shows "\<exists>s'. sgxsd_enclave_server_stop (cds_env P) (Some b) h s = (status, s') \<and> world s' = w \<and> get_desc (unat h) s' = zero_server_desc"
proof -
  let ?d = "get_desc (unat h) s"
  have wf: "wf_state s" and free: "locks_free s" using assms(1) by (simp_all add: enclave_inv_def)
  have len: "unat h < length (g_server_states s)" using assms(3) wf_states_length [OF wf] by simp
  have d: "?d = \<lparr>sd_valid = True, sd_lock = 0, sd_state = sd_state ?d\<rparr>"
    using free len assms(4) by (simp add: locks_free_def sgxsd_server_state_desc.equality)
  have t: "terminate (enclave_svc P) st (Some b) x = (Some status, rand, w)"
    using terminate_answers [OF assms(6,8,9) assms(11) [unfolded assms(10)]] assms(12) by (simp add: assms(10))
  have c: "env_server_terminate (cds_env P) (Some b) (sd_state ?d) (g_read_rand_state s, world s) = (status, rand, w)"
    using t by (simp add: server_terminate_cb_def assms(5,7))
  show ?thesis using stop_eq [OF assms(2) len assms(3) d c] len by (simp add: set_desc_def get_desc_def)
qed

text \<open>The reply of the service is the reply of the core.\<close>

lemma enclave_reply:
  assumes "from_valid from" "length (from_server_key from) = 32" "length m < 2 ^ 32"
    and "env_read_rand (plat_env P) 12 w = ((SGX_SUCCESS, iv0), w1)" "iv = (fixed 12 iv0)[0 := fixed 12 iv0 ! 0 OR 1]"
    and "ct = gcm_crypt (aes_encrypt (from_server_key from)) iv m"
    and "env_ocall_reply (plat_env P) (Some \<lparr>hdr_iv = iv, hdr_mac = gcm_tag (aes_encrypt (from_server_key from)) iv [] ct,
        hdr_pending_request_id = env_stack_prid (plat_env P) w\<rparr>) (Some ct) (of_nat (length m)) (from_tag from) w1
      = ((ocall_res, reply_res), w2)"
  shows "msg_from_reply (enclave_svc P) from m (rand, w) = (if ocall_res = SGX_SUCCESS then reply_res else ocall_res, rand, w2)"
proof -
  let ?s = "run_state rand w" and ?s1 = "(run_state rand w)\<lparr>world := w1\<rparr>"
  have r: "sgx_read_rand (plat_env P) 12 ?s = ((SGX_SUCCESS, fixed 12 iv0), ?s1)"
    using assms(4) by (simp add: sgx_read_rand_def run_state_def initial_state_def)
  have w: "world ?s = w" "world ?s1 = w1" "g_read_rand_state ?s = rand" by (simp_all add: run_state_def initial_state_def)
  have n: "unat (of_nat (length m) :: u32) = length m" using assms(3) by (simp add: unat_of_nat)
  have "sgxsd_enclave_server_reply (plat_env P) \<lparr>buf_data = Some m, buf_size = of_nat (length m)\<rparr> (Some from) ?s
      = ((if ocall_res = SGX_SUCCESS then reply_res else ocall_res,
          \<lparr>buf_data = Some m, buf_size = of_nat (length m)\<rparr>\<lparr>buf_data := Some (replicate (length m) 0)\<rparr>, Some zero_msg_from), ?s1\<lparr>world := w2\<rparr>)"
    by (rule server_reply_sent [OF assms(1,2) _ _ r assms(5,6)]) (simp_all add: n w assms(7))
  then show ?thesis using assms(3) by (simp add: msg_from_reply_def enclave_svc_def w)
qed

section \<open>Whom the enclave contacts\<close>

text \<open>
  The senders that the core hands to the service: valid, with the server key of a request. The outgoing calls so far, as the list of
  the tags they were made under: only the outgoing call of a reply adds to it.
\<close>

definition sender_ready :: "sgxsd_msg_from \<Rightarrow> bool" where
  "sender_ready f \<longleftrightarrow> from_valid f \<and> length (from_server_key f) = 32"

definition ocall_log :: "'w platform \<Rightarrow> ('w cds_world \<Rightarrow> u64 list) \<Rightarrow> bool" where
  "ocall_log P log \<longleftrightarrow> (\<forall>hdr data n t w. log (snd (env_ocall_reply (plat_env P) hdr data n t w)) = log w @ [t])
     \<and> (\<forall>n w. log (snd (env_read_rand (plat_env P) n w)) = log w)
     \<and> (\<forall>w. log (w\<lparr>cw_host := snd (plat_rdrand P (cw_host w))\<rparr>) = log w)"

lemma sender_ready_kept:
  assumes "\<forall>(f, n) \<in> set (requests st). sender_ready f" "sender_ready sender" "handle_call v st args msg sender x = (r, st')"
  shows "\<forall>(f, n) \<in> set (requests st'). sender_ready f"
  using assms by (auto simp: handle_call_def Let_def split: option.splits res.splits if_splits)

lemma rdrand_log:
  assumes "ocall_log P log"
  shows "log (snd (snd (svc_rdrand (enclave_svc P) x))) = log (snd x)"
  using assms by (auto simp: ocall_log_def enclave_svc_def Let_def split: prod.splits) (metis snd_conv)

lemma noreply_log:
  assumes "ocall_log P log" "sender_ready f"
  shows "log (snd (svc_noreply (enclave_svc P) f x)) = log (snd x) @ [from_tag f]"
  using assms by (cases x) (auto simp: ocall_log_def enclave_svc_def sgxsd_enclave_server_noreply_def sgxsd_ocall_reply_def sender_ready_def
    run_state_def initial_state_def split: prod.splits, metis snd_conv)

text \<open>An answer is sent, unless there is no random number for its IV.\<close>

lemma reply_log:
  assumes "ocall_log P log" "sender_ready f" "msg_from_reply (enclave_svc P) f m x = (r, x')"
  shows "log (snd x') = log (snd x) @ [from_tag f]
    \<or> r \<noteq> SGX_SUCCESS \<and> (\<exists>w. fst (fst (env_read_rand (plat_env P) 12 w)) = r) \<and> log (snd x') = log (snd x)"
proof (cases "length m < 2 ^ 32")
  case True
  obtain rand w where x: "x = (rand, w)" by (rule prod.exhaust)
  obtain res iv0 w1 where q: "env_read_rand (plat_env P) 12 w = ((res, iv0), w1)" by (metis prod.exhaust)
  have w1: "log w1 = log w" using assms(1) q unfolding ocall_log_def by (metis snd_conv)
  show ?thesis
  proof (cases "res = SGX_SUCCESS")
    case ok: True
    let ?iv = "(fixed 12 iv0)[0 := fixed 12 iv0 ! 0 OR 1]" and ?E = "aes_encrypt (from_server_key f)"
    obtain o_res r_res w2 where o: "env_ocall_reply (plat_env P) (Some \<lparr>hdr_iv = ?iv, hdr_mac = gcm_tag ?E ?iv [] (gcm_crypt ?E ?iv m),
        hdr_pending_request_id = env_stack_prid (plat_env P) w\<rparr>) (Some (gcm_crypt ?E ?iv m)) (of_nat (length m)) (from_tag f) w1
      = ((o_res, r_res), w2)" by (metis prod.exhaust)
    have "log w2 = log w1 @ [from_tag f]" using assms(1) o unfolding ocall_log_def by (metis snd_conv)
    moreover have "x' = (rand, w2)"
      using enclave_reply [OF _ _ True q [unfolded ok] refl refl o, of rand] assms(2,3) by (simp add: x sender_ready_def)
    ultimately show ?thesis by (simp add: x w1)
  next
    case False
    have "sgx_read_rand (plat_env P) 12 (run_state rand w) = ((res, fixed 12 iv0), (run_state rand w)\<lparr>world := w1\<rparr>)"
      using q by (simp add: sgx_read_rand_def run_state_def initial_state_def)
    then have "msg_from_reply (enclave_svc P) f m x = (res, rand, w1)"
      using False True assms(2) by (simp add: x msg_from_reply_def enclave_svc_def sgxsd_enclave_server_reply_def
        sgxsd_enclave_server_reply_noerase_def SGXSD_AES_GCM_IV_SIZE_def sender_ready_def run_state_def)
    then show ?thesis using False q assms(3) w1 by (auto simp: x intro!: exI [of _ w])
  qed
next
  case False
  then show ?thesis using noreply_log [OF assms(1,2), of x] assms(3) by (auto simp: msg_from_reply_def)
qed

lemma drop_log:
  assumes "ocall_log P log"
  shows "\<forall>(f, n) \<in> set rs. sender_ready f \<Longrightarrow> log (snd (drop_requests (enclave_svc P) rs x)) = log (snd x) @ map (from_tag \<circ> fst) rs"
proof (induction rs arbitrary: x)
  case (Cons q rs)
  have q: "sender_ready (fst q)" and rs: "\<forall>(f, n) \<in> set rs. sender_ready f" using Cons.prems by (cases q; simp)+
  have "drop_requests (enclave_svc P) (q # rs) x = drop_requests (enclave_svc P) rs (svc_noreply (enclave_svc P) (fst q) x)"
    by (simp add: drop_requests_def)
  then show ?case using noreply_log [OF assms q, of x] Cons.IH [OF rs, of "svc_noreply (enclave_svc P) (fst q) x"] by simp
qed (simp add: drop_requests_def)

text \<open>The tags under which the senders of a batch are contacted: all of them, or all but one, for which there was no random number.\<close>

definition contacted :: "'w platform \<Rightarrow> sgxsd_msg_from list \<Rightarrow> sgx_status \<Rightarrow> u64 list \<Rightarrow> bool" where
  "contacted P senders status ts \<longleftrightarrow> ts = map from_tag senders
     \<or> (status \<noteq> SGX_SUCCESS \<and> (\<exists>w. fst (fst (env_read_rand (plat_env P) 12 w)) = status)
        \<and> (\<exists>pre f post. senders = pre @ f # post \<and> ts = map from_tag (pre @ post)))"

lemma contacted_but_one:
  assumes "status \<noteq> SGX_SUCCESS" "fst (fst (env_read_rand (plat_env P) 12 w)) = status"
  shows "contacted P (pre @ f # post) status (map from_tag (pre @ post))"
  unfolding contacted_def by (intro disjI2 conjI exI [of _ w] exI [of _ pre] exI [of _ f] exI [of _ post] assms refl)

lemma contacted_Cons: "contacted P senders status ts \<Longrightarrow> contacted P (f # senders) status (from_tag f # ts)"
  unfolding contacted_def [of P senders]
proof (elim disjE conjE exE)
  fix w pre g post
  assume c: "status \<noteq> SGX_SUCCESS" "fst (fst (env_read_rand (plat_env P) 12 w)) = status"
    "senders = pre @ g # post" "ts = map from_tag (pre @ post)"
  show ?thesis using contacted_but_one [OF c(1,2), of "f # pre" g post] unfolding c(3,4) by simp
qed (simp add: contacted_def)

lemma replies_log:
  assumes "ocall_log P log"
  shows "\<forall>(f, n) \<in> set rs. sender_ready f \<Longrightarrow> reply_requests (enclave_svc P) rs remaining x = (Some r, x')
    \<Longrightarrow> \<exists>ts. log (snd x') = log (snd x) @ ts \<and> contacted P (map fst rs) r ts"
proof (induction rs arbitrary: remaining x)
  case Nil
  then show ?case by (simp add: contacted_def)
next
  case (Cons q rs)
  obtain f n where q: "q = (f, n)" by (rule prod.exhaust)
  obtain r1 x1 where m: "msg_from_reply (enclave_svc P) f (take (unat n * BYTES_PER_UUID) remaining) x = (r1, x1)" by (rule prod.exhaust)
  have f: "sender_ready f" and rs: "\<forall>(f, n) \<in> set rs. sender_ready f" using Cons.prems(1) by (auto simp: q)
  note l = reply_log [OF assms f m]
  show ?case
  proof (cases "r1 = SGX_SUCCESS")
    case True
    then have "reply_requests (enclave_svc P) rs (drop (unat n * BYTES_PER_UUID) remaining) x1 = (Some r, x')"
      using Cons.prems(2) m by (simp add: q Let_def split: if_splits)
    from Cons.IH [OF rs this] obtain ts where ts: "log (snd x') = log (snd x1) @ ts" "contacted P (map fst rs) r ts" by blast
    have "log (snd x') = log (snd x) @ from_tag f # ts" using l True ts(1) by simp
    then show ?thesis using contacted_Cons [OF ts(2), of f] by (auto simp: q)
  next
    case False
    then have e: "r = r1" "x' = drop_requests (enclave_svc P) rs x1" using Cons.prems(2) m by (auto simp: q Let_def split: if_splits)
    have "contacted P (map fst rs) r (map (from_tag \<circ> fst) rs)" by (simp add: contacted_def)
    then have all: "contacted P (f # map fst rs) r (from_tag f # map (from_tag \<circ> fst) rs)" by (rule contacted_Cons)
    note d = drop_log [OF assms rs, of x1, folded e(2)]
    from l show ?thesis
    proof
      assume "log (snd x1) = log (snd x) @ [from_tag f]"
      then show ?thesis using d all by (intro exI [of _ "from_tag f # map (from_tag \<circ> fst) rs"]) (simp add: q)
    next
      assume a: "r1 \<noteq> SGX_SUCCESS \<and> (\<exists>w. fst (fst (env_read_rand (plat_env P) 12 w)) = r1) \<and> log (snd x1) = log (snd x)"
      then obtain w where "fst (fst (env_read_rand (plat_env P) 12 w)) = r1" by blast
      from contacted_but_one [OF False this, of "[]" f "map fst rs"] show ?thesis
        using a d by (intro exI [of _ "map (from_tag \<circ> fst) rs"]) (simp add: q e(1))
    qed
  qed
qed

lemma terminate_log:
  assumes "ocall_log P log" "\<forall>(f, n) \<in> set (requests st). sender_ready f" "terminate (enclave_svc P) st args x = (Some status, x')"
  shows "\<exists>ts. log (snd x') = log (snd x) @ ts \<and> contacted P (map fst (requests st)) status ts"
proof -
  have all: "contacted P (map fst (requests st)) status (map (from_tag \<circ> fst) (requests st))" by (simp add: contacted_def)
  note frame = chunks_frame [where log = "\<lambda>x. log (snd x)", OF rdrand_log [OF assms(1)]]
  from assms(3) show ?thesis
  proof (rule terminate_ends)
    assume "x' = drop_requests (enclave_svc P) (requests st) x"
    then show ?thesis using drop_log [OF assms(1,2), of x] all by blast
  next
    fix D cs r x1 assume l: "lookup_chunks (enclave_svc P) D cs x = (r, x1)" and x': "x' = drop_requests (enclave_svc P) (requests st) x1"
    then show ?thesis using drop_log [OF assms(1,2), of x1] all frame [OF l] by metis
  next
    fix D cs r x1 results
    assume l: "lookup_chunks (enclave_svc P) D cs x = (r, x1)" and "reply_requests (enclave_svc P) (requests st) results x1 = (Some status, x')"
    then show ?thesis using replies_log [OF assms(1,2)] frame [OF l] by metis
  qed
qed

text \<open>C4. Every sender is contacted at most once, and at most one is left out. Whatever the arguments of a termination and however it
  ends, it does not panic, and it makes one outgoing call for each request that the server holds, under the tag of the request
  and in the order of arrival: the answer, or the notice that there is none. No request is answered twice, and none is forgotten when
  the arguments are refused, a lookup fails or an outgoing call reports an error. The only exception: when there is no random number for the
  IV of an answer, the termination fails with the status of the generator, and for that one sender no call is made.
  Every sender is one that the core hands over: valid, with a 32-byte key.\<close>

theorem each_sender_contacted:
  assumes "server_inv st" "ocall_log P log" "\<forall>(f, n) \<in> set (requests st). sender_ready f"
  shows "\<exists>status x' ts. terminate (enclave_svc P) st args x = (Some status, x') \<and> log (snd x') = log (snd x) @ ts
    \<and> (ts = map from_tag (map fst (abs_server st))
       \<or> (status \<noteq> SGX_SUCCESS \<and> (\<exists>w. fst (fst (env_read_rand (plat_env P) 12 w)) = status)
          \<and> (\<exists>pre f post. map fst (abs_server st) = pre @ f # post \<and> ts = map from_tag (pre @ post))))"
proof -
  obtain status x' where t: "terminate (enclave_svc P) st args x = (Some status, x')"
    using terminate_no_panic [OF assms(1), of "enclave_svc P" args x] by (metis not_None_eq prod.collapse)
  have m: "map fst (abs_server st) = map fst (requests st)" by (simp add: abs_server_def split_requests_senders)
  show ?thesis using terminate_log [OF assms(2,3) t] t unfolding m contacted_def by blast
qed

text \<open>An example: a host that keeps the tags of the outgoing calls, with a directory of one entry.\<close>

definition log_plat :: "u64 list platform" where
  "log_plat = \<lparr>
     plat_env = \<lparr>env_read_rand = (\<lambda>n w. ((SGX_SUCCESS, replicate n 5), w)), env_is_outside_enclave = (\<lambda>a n. 1),
       env_create_report = (\<lambda>qe d w. ((SGX_SUCCESS, d), w)), env_calloc = (\<lambda>n m w. (True, w)),
       env_ocall_reply = (\<lambda>h d n t w. ((SGX_SUCCESS, if t = 1 then SGX_ERROR_UNEXPECTED else SGX_SUCCESS), w\<lparr>cw_host := cw_host w @ [t]\<rparr>)),
       env_server_init = (\<lambda>a p x. ((SGX_SUCCESS, p), x)), env_server_handle_call = (\<lambda>a m f p x. ((SGX_SUCCESS, p), x)),
       env_server_terminate = (\<lambda>a p x. (SGX_SUCCESS, x)), env_create_ratelimit_fingerprint = (\<lambda>k a m f fp n x. ((SGX_SUCCESS, fp), x)),
       env_stack_prid = (\<lambda>w. \<lparr>prid_data = replicate 8 1, prid_iv = replicate 12 1, prid_mac = replicate 16 1\<rparr>)\<rparr>,
     plat_read = (\<lambda>p n h. if p = 128 then le_bytes 8 (5 :: phone) else le_bytes 8 (1 :: u64) @ le_bytes 8 (2 :: u64)),
     plat_rdrand = (\<lambda>h. ((True, 7), h)),
     plat_capacity = id\<rparr>"

theorem each_sender_contacted_witness:
  "\<exists>status x'. terminate (enclave_svc log_plat) demo_server (Some \<lparr>in_phones = 128, in_phone_count = 1, in_uuids = 256\<rparr>)
      ([], \<lparr>cw_boxes = \<lambda>_. None, cw_next = 1, cw_host = []\<rparr>) = (Some status, x') \<and> cw_host (snd x') = [1, 2]"
proof -
  let ?w = "\<lparr>cw_boxes = \<lambda>_. None, cw_next = 1, cw_host = []\<rparr> :: u64 list cds_world"
  have log: "ocall_log log_plat cw_host" by (simp add: ocall_log_def log_plat_def)
  have inv: "server_inv demo_server" "\<forall>(f, n) \<in> set (requests demo_server). sender_ready f"
    "map from_tag (map fst (abs_server demo_server)) = [1, 2]"
    by (simp_all add: server_inv_def demo_server_def sender_ready_def demo_from_def abs_server_def)
  have rand: "fst (fst (env_read_rand (plat_env log_plat) 12 w)) = SGX_SUCCESS" for w by (simp add: log_plat_def)
  show ?thesis
    using each_sender_contacted [OF inv(1) log inv(2), of "Some \<lparr>in_phones = 128, in_phone_count = 1, in_uuids = 256\<rparr>" "([], ?w)"]
    unfolding inv(3) rand by auto
qed

section \<open>From a query to its answer\<close>

lemma split_requests_phones: "total rs = length ps \<Longrightarrow> concat (map snd (split_requests rs ps)) = ps"
  by (induction rs ps rule: split_requests.induct) auto

lemma abs_server_phones: "server_inv st \<Longrightarrow> concat (map snd (abs_server st)) = query_phones st"
  by (simp add: server_inv_def abs_server_def split_requests_phones)

lemma end_to_end:
  assumes "enclave_inv s" "g_node_initialized s" "unat h < SGXSD_ENCLAVE_MAX_SERVERS" "sd_valid (get_desc (unat h) s)"
    and "wf_hdr hdr" "open_id (g_pending_request_id_key s) (hdr_pending_request_id hdr) = Some k" "live_requests s k = Some prk"
    and "data = gcm_crypt (aes_encrypt (client_key_of prk)) (hdr_iv hdr) key"
    and "hdr_mac hdr = gcm_tag (aes_encrypt (client_key_of prk)) (hdr_iv hdr) (prid_bytes (hdr_pending_request_id hdr)) data"
    and "cw_boxes (world s) (sd_state (get_desc (unat h) s)) = Some st" "server_inv st" "abs_server st = []"
    and "client_query (enclave_svc P) key nonce ps a (g_read_rand_state s, world s)" "ps \<noteq> []" "length ps \<le> query_capacity st"
    and "length ps * 16 < 2 ^ 32"
    and "sgxsd_enclave_server_call (cds_env P) (Some a) (Some hdr) (Some data) 32 t h s = (out, s1)"
    and "x1 = (g_read_rand_state s1, (world s1)\<lparr>cw_boxes := (cw_boxes (world s1))(sd_state (get_desc (unat h) s1) := None)\<rparr>)"
    and "directory_args (enclave_svc P) b" "D = host_directory (enclave_svc P) b x1"
    and "good_batches (enclave_svc P) D (chunks MAX_HASH_TABLE_SIZE ps) x1"
    and "lookup_chunks (enclave_svc P) D (chunks MAX_HASH_TABLE_SIZE ps) x1 = (looked_up, rand, w)"
    and "env_read_rand (plat_env P) 12 w = ((SGX_SUCCESS, iv0), w1)" "iv = (fixed 12 iv0)[0 := fixed 12 iv0 ! 0 OR 1]"
    and "E = aes_encrypt (server_key_of prk)" "ct = gcm_crypt E iv (directory_answers D ps)"
    and "env_ocall_reply (plat_env P) (Some \<lparr>hdr_iv = iv, hdr_mac = gcm_tag E iv [] ct,
        hdr_pending_request_id = env_stack_prid (plat_env P) w\<rparr>) (Some ct) (of_nat (16 * length ps)) t w1 = ((ocall_res, reply_res), w2)"
  shows "out = (SGX_SUCCESS, Some (replicate 32 0)) \<and> live_requests s1 k = None
    \<and> (\<exists>s2. sgxsd_enclave_server_stop (cds_env P) (Some b) h s1 = (if ocall_res = SGX_SUCCESS then reply_res else ocall_res, s2)
        \<and> world s2 = w2 \<and> get_desc (unat h) s2 = zero_server_desc)
    \<and> gcm_crypt E iv ct = directory_answers D ps"
proof -
  let ?v = "enclave_svc P" and ?f = "\<lparr>from_valid = True, from_tag = t, from_server_key = server_key_of prk\<rparr>"
  have ph: "query_phones st = []" using abs_server_phones [OF assms(11)] assms(12) by simp
  then have cap: "length (query_phones st) + length ps \<le> query_capacity st" using assms(15) by simp
  obtain st' where call: "out = (SGX_SUCCESS, Some (replicate 32 0))" "sd_valid (get_desc (unat h) s1)"
      "cw_boxes (world s1) (sd_state (get_desc (unat h) s1)) = Some st'" "server_inv st'" "abs_server st' = [(?f, ps)]"
      "live_requests s1 k = None"
    using cds_call [OF assms(1-11,13,14) cap, of t] assms(12,17) by auto
  have adv: "advance s s1" using server_call_whole_advance [OF assms(1) _ assms(17)] assms(5) by simp
  then have s1: "enclave_inv s1" "g_node_initialized s1" using assms(2) by (auto simp: advance_def later_def)
  have q: "query_phones st' = ps" using abs_server_phones [OF call(4)] call(5) by simp
  have r: "msg_from_reply ?v ?f (directory_answers D ps) (rand, w) = (if ocall_res = SGX_SUCCESS then reply_res else ocall_res, rand, w2)"
    using assms(16,25-27) by (intro enclave_reply [OF _ _ _ assms(23,24)]) (simp_all add: length_keys)
  have "answer_all ?v D (abs_server st') (snd (lookup_chunks ?v D (chunks MAX_HASH_TABLE_SIZE (query_phones st')) x1))
      = (if ocall_res = SGX_SUCCESS then reply_res else ocall_res, rand, w2)" using r by (simp add: call(5) q assms(22))
  from cds_stop [OF s1 assms(3) call(2-4) assms(18,19) _ assms(20) _ this] assms(16,21) call(1,6)
  show ?thesis by (simp add: q assms(25,26) decrypt_encrypt)
qed

text \<open>C2. The whole way of a query. A client with a live request seals its query key under the client key of the request; the host holds
  its query. The call to a started server that holds no other request, and has room for the phones, succeeds, uses up the request and
  erases the message. Stopping the server, when the batch is good (\<open>good_batches\<close>: no phone is 0, and for each chunk the first lookup key that
  does not overflow leaves at most twelve different phones in each slot, which the code does not check) and the generator delivers an IV, then looks the phones up in the host's directory and passes to the outgoing call, once, under
  the tag of the call, a ciphertext that decrypts under the server key of the same request to the directory's answers for
  exactly the phones of the query, in their order. The status is that of the outgoing call, and the descriptor is cleared.\<close>

theorem cds_end_to_end:
  assumes "enclave_inv s" "g_node_initialized s" "unat h < SGXSD_ENCLAVE_MAX_SERVERS" "sd_valid (get_desc (unat h) s)"
    and "wf_hdr hdr" "open_id (g_pending_request_id_key s) (hdr_pending_request_id hdr) = Some k" "live_requests s k = Some prk"
    and "data = gcm_crypt (aes_encrypt (client_key_of prk)) (hdr_iv hdr) key"
    and "hdr_mac hdr = gcm_tag (aes_encrypt (client_key_of prk)) (hdr_iv hdr) (prid_bytes (hdr_pending_request_id hdr)) data"
    and "cw_boxes (world s) (sd_state (get_desc (unat h) s)) = Some st" "server_inv st" "abs_server st = []"
    and "client_query (enclave_svc P) key nonce ps a (g_read_rand_state s, world s)" "ps \<noteq> []" "length ps \<le> query_capacity st"
    and "length ps * 16 < 2 ^ 32"
    and "sgxsd_enclave_server_call (cds_env P) (Some a) (Some hdr) (Some data) 32 t h s = (out, s1)"
    and "x1 = (g_read_rand_state s1, (world s1)\<lparr>cw_boxes := (cw_boxes (world s1))(sd_state (get_desc (unat h) s1) := None)\<rparr>)"
    and "directory_args (enclave_svc P) b" "D = host_directory (enclave_svc P) b x1"
    and "good_batches (enclave_svc P) D (chunks MAX_HASH_TABLE_SIZE ps) x1"
    and "lookup_chunks (enclave_svc P) D (chunks MAX_HASH_TABLE_SIZE ps) x1 = (looked_up, rand, w)"
    and "env_read_rand (plat_env P) 12 w = ((SGX_SUCCESS, iv0), w1)" "iv = (fixed 12 iv0)[0 := fixed 12 iv0 ! 0 OR 1]"
    and "E = aes_encrypt (server_key_of prk)" "ct = gcm_crypt E iv (directory_answers D ps)"
    and "env_ocall_reply (plat_env P) (Some \<lparr>hdr_iv = iv, hdr_mac = gcm_tag E iv [] ct,
        hdr_pending_request_id = env_stack_prid (plat_env P) w\<rparr>) (Some ct) (of_nat (16 * length ps)) t w1 = ((ocall_res, reply_res), w2)"
  shows "out = (SGX_SUCCESS, Some (replicate 32 0)) \<and> live_requests s1 k = None
    \<and> (\<exists>s2. sgxsd_enclave_server_stop (cds_env P) (Some b) h s1 = (if ocall_res = SGX_SUCCESS then reply_res else ocall_res, s2)
        \<and> world s2 = w2 \<and> get_desc (unat h) s2 = zero_server_desc)
    \<and> gcm_crypt E iv ct = directory_answers D ps"
  using assms by (rule end_to_end)

text \<open>An example: a host with one query and a directory of one entry, every call accepted.\<close>

definition demo_plat :: "nat platform" where
  "demo_plat = \<lparr>
     plat_env = \<lparr>env_read_rand = (\<lambda>n w. ((SGX_SUCCESS, replicate n 0), w)), env_is_outside_enclave = (\<lambda>a n. 1),
       env_create_report = (\<lambda>qe d w. ((SGX_SUCCESS, d), w)), env_calloc = (\<lambda>n m w. (True, w)),
       env_ocall_reply = (\<lambda>h d n t w. ((SGX_SUCCESS, SGX_SUCCESS), w\<lparr>cw_host := cw_host w + 1\<rparr>)),
       env_server_init = (\<lambda>a p x. ((SGX_SUCCESS, p), x)), env_server_handle_call = (\<lambda>a m f p x. ((SGX_SUCCESS, p), x)),
       env_server_terminate = (\<lambda>a p x. (SGX_SUCCESS, x)), env_create_ratelimit_fingerprint = (\<lambda>k a m f fp n x. ((SGX_SUCCESS, fp), x)),
       env_stack_prid = (\<lambda>w. \<lparr>prid_data = replicate 8 1, prid_iv = replicate 12 1, prid_mac = replicate 16 1\<rparr>)\<rparr>,
     plat_read = (\<lambda>p n h. if p = 64 then demo_mem else if p = 128 then le_bytes 8 (5 :: phone) else le_bytes 8 (1 :: u64) @ le_bytes 8 (2 :: u64)),
     plat_rdrand = (\<lambda>h. ((True, 7), h)),
     plat_capacity = id\<rparr>"

definition rehost :: "'v \<Rightarrow> 'w sgxsd_state \<Rightarrow> 'v sgxsd_state" where
  "rehost w s = \<lparr>g_node_initialized = g_node_initialized s, g_read_rand_state = g_read_rand_state s, g_dh_keypair = g_dh_keypair s,
     g_new_dh_keypair = g_new_dh_keypair s, g_pending_requests = g_pending_requests s,
     g_pending_requests_table_order = g_pending_requests_table_order s, g_last_pending_request_id_val = g_last_pending_request_id_val s,
     g_pending_request_id_key = g_pending_request_id_key s, g_server_states = g_server_states s, world = w\<rparr>"

lemma rehost_simps:
  "g_node_initialized (rehost w s) = g_node_initialized s" "get_desc i (rehost w s) = get_desc i s"
  "g_pending_request_id_key (rehost w s) = g_pending_request_id_key s" "live_requests (rehost w s) = live_requests s"
  "enclave_inv (rehost w s) = enclave_inv s" "world (rehost w s) = w"
  by (simp_all add: rehost_def get_desc_def live_requests_def enclave_inv_def wf_state_def locks_free_def fun_eq_iff split: option.split)

lemma demo_plat_query: "client_query (enclave_svc demo_plat) (replicate 32 3) (replicate 32 9) [5] demo_query x"
  by (cases x) (simp add: client_query_def query_in_memory_def demo_query_def demo_mem_def demo_plat_def enclave_svc_def Let_def)

lemma demo_plat_rdrand: "fst (fst (svc_rdrand (enclave_svc demo_plat) x))"
  by (cases x) (simp add: demo_plat_def enclave_svc_def)

lemma demo_plat_args: "directory_args (enclave_svc demo_plat) \<lparr>in_phones = 128, in_phone_count = 1, in_uuids = 256\<rparr>"
  by (simp add: directory_args_def untrusted_slice_new_def enclave_svc_def demo_plat_def)

lemma demo_chunk: "chunks MAX_HASH_TABLE_SIZE [5 :: phone] = [[5]]"
  by (simp add: MAX_HASH_TABLE_SIZE_def MAX_HASH_TABLE_ORDER_def chunks.simps [of 8192])

theorem cds_end_to_end_witness:
  "\<exists>s s1 s2 hdr data. sgxsd_enclave_server_call (cds_env demo_plat) (Some demo_query) (Some hdr) (Some data) 32 7 0 s
      = ((SGX_SUCCESS, Some (replicate 32 0)), s1)
    \<and> sgxsd_enclave_server_stop (cds_env demo_plat) (Some \<lparr>in_phones = 128, in_phone_count = 1, in_uuids = 256\<rparr>) 0 s1 = (SGX_SUCCESS, s2)"
proof -
  let ?P = demo_plat and ?v = "enclave_svc demo_plat" and ?b = "\<lparr>in_phones = 128, in_phone_count = 1, in_uuids = 256\<rparr>"
  obtain s0 prk prid where d: "steps demo_env (initial_state 0) s0" "g_node_initialized s0" "sd_valid (get_desc 0 s0)" "enclave_inv s0"
    "wf_prid prid" "open_id (g_pending_request_id_key s0) prid = Some 1" "live_requests s0 1 = Some prk" by (rule demo_live)
  define w0 :: "nat cds_world" where "w0 = \<lparr>cw_boxes = \<lambda>_. Some demo_empty, cw_next = 1, cw_host = 0\<rparr>"
  let ?s = "rehost w0 s0" and ?hdr = "demo_hdr prk prid (replicate 32 3)"
  define data where "data = gcm_crypt (aes_encrypt (client_key_of prk)) (hdr_iv ?hdr) (replicate 32 3)"
  obtain out s1 where run: "sgxsd_enclave_server_call (cds_env ?P) (Some demo_query) (Some ?hdr) (Some data) 32 7 0 ?s = (out, s1)"
    by (rule prod.exhaust)
  define x1 where "x1 = (g_read_rand_state s1, (world s1)\<lparr>cw_boxes := (cw_boxes (world s1))(sd_state (get_desc (unat (0 :: u64)) s1) := None)\<rparr>)"
  define D where "D = host_directory ?v ?b x1"
  have "good_batch (svc_rdrand ?v) [5] x1" by (rule small_batch_good) (simp_all add: demo_plat_rdrand)
  then have g: "good_batches ?v D (chunks MAX_HASH_TABLE_SIZE [5]) x1" by (simp add: demo_chunk)
  obtain looked rand w where l: "lookup_chunks ?v D (chunks MAX_HASH_TABLE_SIZE [5]) x1 = (looked, rand, w)" by (rule prod_cases3)
  define w1 where "w1 = w\<lparr>cw_host := cw_host w + 1\<rparr>"
  have e: "env_read_rand (plat_env ?P) 12 w = ((SGX_SUCCESS, replicate 12 0), w)"
    "env_ocall_reply (plat_env ?P) hd dt n t w = ((SGX_SUCCESS, SGX_SUCCESS), w1)" for hd dt n t
    by (simp_all add: demo_plat_def w1_def)
  have b: "cw_boxes (world ?s) (sd_state (get_desc (unat (0 :: u64)) ?s)) = Some demo_empty" by (simp add: rehost_simps w0_def)
  have st: "server_inv demo_empty" "abs_server demo_empty = []" "length [5 :: phone] \<le> query_capacity demo_empty"
    by (simp_all add: demo_empty_def server_inv_def abs_server_def)
  have h: "unat (0 :: u64) < SGXSD_ENCLAVE_MAX_SERVERS" by (simp add: SGXSD_ENCLAVE_MAX_SERVERS_def)
  have s: "enclave_inv ?s" "g_node_initialized ?s" "sd_valid (get_desc (unat (0 :: u64)) ?s)"
    "open_id (g_pending_request_id_key ?s) (hdr_pending_request_id ?hdr) = Some 1" "live_requests ?s 1 = Some prk"
    using d by (simp_all add: rehost_simps demo_hdr_def)
  have m: "hdr_mac ?hdr = gcm_tag (aes_encrypt (client_key_of prk)) (hdr_iv ?hdr) (prid_bytes (hdr_pending_request_id ?hdr)) data"
    by (simp add: demo_hdr_def data_def)
  have ps: "[5 :: phone] \<noteq> []" "length [5 :: phone] * 16 < 2 ^ 32" by simp_all
  note r = cds_end_to_end [OF s(1,2) h s(3) wf_demo_hdr [OF d(5)] s(4,5) data_def m b st(1,2) demo_plat_query ps(1) st(3) ps(2) run x1_def
      demo_plat_args D_def g l e(1) refl refl refl e(2)]
  then show ?thesis using run by auto
qed

end
