(* ===== verification/Directory_Map.thy ===== *)
theory Directory_Map imports Hash_Lookup_Correct "HOL-Library.Log_Nat" begin

text \<open>
  The directory that the host serves to the enclave: \<open>jni/cds_jni/src/directory_map_native/internal_buffers.rs\<close>, a hash table with linear probing
  and deletion marks, and \<open>jni/cds_jni/src/directory_map_native.rs\<close>, which keeps one table for changes and one that is served. Numbers and identifiers
  lie in the tables in big-endian byte order, so that the enclave can compare them with the bytes that clients send.
\<close>

section \<open>Numbers of the language\<close>

text \<open>\<open>u64::to_be\<close> and \<open>u64::from_be\<close> on a little-endian machine.\<close>

definition to_be :: "u64 \<Rightarrow> u64" where "to_be x = le_word (be_bytes 8 x)"

text \<open>
  The load factors are 32-bit floating point numbers; the conversion to 64 bits keeps their value. \<open>f64_near\<close> is the 64-bit floating point number nearest
  to a rational of at least one, ties to even, and \<open>f64_trunc\<close> the conversion to \<open>usize\<close> of the number nearest to a rational, which cuts off the fraction and
  stays in the range.
\<close>

datatype f32 = Fin rat | NegZero | Inf bool | NaN

fun f32_val :: "f32 \<Rightarrow> rat option" where
  "f32_val (Fin x) = Some x"
| "f32_val NegZero = Some 0"
| "f32_val _ = None"

definition f32_less :: "f32 \<Rightarrow> f32 \<Rightarrow> bool" where
  "f32_less x y \<longleftrightarrow>
     (case (f32_val x, f32_val y) of
        (Some a, Some b) \<Rightarrow> a < b
      | (Some a, None) \<Rightarrow> y = Inf True
      | (None, Some b) \<Rightarrow> x = Inf False
      | (None, None) \<Rightarrow> x = Inf False \<and> y = Inf True)"

definition f32_eq :: "f32 \<Rightarrow> f32 \<Rightarrow> bool" where
  "f32_eq x y \<longleftrightarrow> x \<noteq> NaN \<and> (x = y \<or> f32_val x \<noteq> None \<and> f32_val x = f32_val y)"

definition f32_ge :: "f32 \<Rightarrow> f32 \<Rightarrow> bool" where "f32_ge x y \<longleftrightarrow> f32_less y x \<or> f32_eq x y"

definition f64_ulp :: "rat \<Rightarrow> rat" where
  "f64_ulp x = (let e = int (floorlog 2 (nat \<lfloor>x\<rfloor>)) - 53 in if 0 \<le> e then 2 ^ nat e else 1 / 2 ^ nat (- e))"

definition round_even :: "rat \<Rightarrow> int" where
  "round_even y = (let n = \<lfloor>y\<rfloor>; r = y - of_int n in if r < 1 / 2 \<or> r = 1 / 2 \<and> even n then n else n + 1)"

definition f64_near :: "rat \<Rightarrow> rat" where "f64_near x = of_int (round_even (x / f64_ulp x)) * f64_ulp x"

definition f64_of_nat :: "nat \<Rightarrow> rat" where "f64_of_nat n = (if n = 0 then 0 else f64_near (of_nat n))"

definition f64_trunc :: "rat \<Rightarrow> nat" where
  "f64_trunc x = (if x < 1 then of_bool (1 - 1 / 2 ^ 54 \<le> x) else min (nat \<lfloor>f64_near x\<rfloor>) (2 ^ 64 - 1))"

text \<open>\<open>(n as f64 * f as f64) as usize\<close> and \<open>(n as f64 / f as f64) as usize\<close>, for factors that \<open>new\<close> accepts: a number of the unit interval or no number.\<close>

fun mul_trunc :: "nat \<Rightarrow> f32 \<Rightarrow> nat" where
  "mul_trunc n (Fin f) = f64_trunc (f64_of_nat n * f)"
| "mul_trunc n _ = 0"

fun div_trunc :: "nat \<Rightarrow> f32 \<Rightarrow> nat" where
  "div_trunc n (Fin f) = (if f = 0 then (if n = 0 then 0 else 2 ^ 64 - 1) else f64_trunc (f64_of_nat n / f))"
| "div_trunc n _ = 0"

text \<open>\<open>x -= 1\<close> on \<open>usize\<close>, without overflow checks.\<close>

definition usize_dec :: "nat \<Rightarrow> nat" where "usize_dec n = (if n = 0 then 2 ^ 64 - 1 else n - 1)"

text \<open>Vectors of more than \<open>isize::MAX\<close> bytes panic; the identifiers take 16 bytes each.\<close>

definition vec_too_large :: "nat \<Rightarrow> bool" where "vec_too_large n \<longleftrightarrow> 2 ^ 63 \<le> n * 16"

section \<open>The table\<close>

definition FREE_E164 :: phone where "FREE_E164 = 0"
definition DELETED_E164 :: phone where "DELETED_E164 = 0xFFFFFFFFFFFFFFFF"
definition FREE_UUID :: uuid where "FREE_UUID = (0, 0)"

datatype internal_buffers_error = InvalidE164 phone | BufferFull nat nat | InvalidMinimumLoadFactor f32 | InvalidMaximumLoadFactor f32
  | InvalidLoadFactorTuple f32 f32 | IoError

text \<open>How a method ends: with a panic, an error or a value.\<close>

datatype 'a outcome = Panic | Fail internal_buffers_error | Done 'a

record internal_buffers =
  min_load_factor :: f32
  max_load_factor :: f32
  element_count :: nat
  used_slot_count :: nat
  e164s_buffer :: "phone list"
  uuids_buffer :: "uuid list"

text \<open>\<open>Vec::with_capacity\<close> may reserve more than it is asked for: \<open>cap_e\<close> and \<open>cap_u\<close> are the capacities of the two vectors.\<close>

definition buffers_new :: "(nat \<Rightarrow> nat) \<Rightarrow> (nat \<Rightarrow> nat) \<Rightarrow> nat \<Rightarrow> f32 \<Rightarrow> f32 \<Rightarrow> internal_buffers outcome" where
  "buffers_new cap_e cap_u capacity min_lf max_lf =
     (if f32_less (Fin 1) min_lf \<or> f32_less min_lf (Fin 0) then Fail (InvalidMinimumLoadFactor min_lf)
      else if f32_less (Fin 1) max_lf \<or> f32_less max_lf (Fin 0) then Fail (InvalidMaximumLoadFactor max_lf)
      else if f32_ge min_lf max_lf then Fail (InvalidLoadFactorTuple min_lf max_lf)
      else if vec_too_large capacity then Panic
      else Done \<lparr>min_load_factor = min_lf, max_load_factor = max_lf, element_count = 0, used_slot_count = 0,
             e164s_buffer = replicate (cap_e capacity) FREE_E164, uuids_buffer = replicate (cap_u capacity) FREE_UUID\<rparr>)"

definition capacity :: "internal_buffers \<Rightarrow> nat" where "capacity b = length (e164s_buffer b)"

definition hash_element :: "nat \<Rightarrow> phone \<Rightarrow> nat" where "hash_element slot_count e164 = unat e164 mod slot_count"

text \<open>
  The slots in the order in which a loop visits them that starts at \<open>start\<close>, goes round at the end of the table and stops when it is back at its start.
\<close>

definition slots_from :: "nat \<Rightarrow> nat \<Rightarrow> nat list" where "slots_from slot_count start = [start..<slot_count] @ [0..<start]"

datatype probe = Found nat | Vacant nat | Wrapped

text \<open>The first loop of \<open>add_to_buffer\<close>.\<close>

fun probe_vacant :: "phone list \<Rightarrow> phone \<Rightarrow> nat list \<Rightarrow> probe" where
  "probe_vacant es e [] = Wrapped"
| "probe_vacant es e (slot_index # slots) =
     (if es ! slot_index \<noteq> FREE_E164 \<and> es ! slot_index \<noteq> DELETED_E164
      then if es ! slot_index = e then Found slot_index else probe_vacant es e slots
      else Vacant slot_index)"

text \<open>The second loop of \<open>add_to_buffer\<close>, and the loop of \<open>remove_from_buffer\<close>.\<close>

fun probe_key :: "phone list \<Rightarrow> phone \<Rightarrow> nat list \<Rightarrow> probe" where
  "probe_key es e [] = Wrapped"
| "probe_key es e (slot_index # slots) =
     (if es ! slot_index \<noteq> FREE_E164
      then if es ! slot_index = e then Found slot_index else probe_key es e slots
      else Vacant slot_index)"

text \<open>The value is the old key of the slot, with the new buffers. The remainder of a division by zero panics.\<close>

definition add_to_buffer :: "phone list \<Rightarrow> uuid list \<Rightarrow> phone \<Rightarrow> uuid \<Rightarrow> bool \<Rightarrow> (phone \<times> phone list \<times> uuid list) outcome" where
  "add_to_buffer es us e164 uuid convert_uuid =
     (let slot_count = length es
      in if slot_count \<noteq> length us then Panic
         else if slot_count = 0 then Panic
         else
           let start_slot_index = hash_element slot_count e164;
               e164 = to_be e164;
               uuid = (if convert_uuid then (to_be (fst uuid), to_be (snd uuid)) else uuid)
           in case probe_vacant es e164 (slots_from slot_count start_slot_index) of
                Found i \<Rightarrow> Done (to_be e164, es, us[i := uuid])
              | Wrapped \<Rightarrow> Panic
              | Vacant free_slot_index \<Rightarrow>
                  case probe_key es e164 (slots_from slot_count free_slot_index) of
                    Found i \<Rightarrow> Done (to_be e164, es, us[i := uuid])
                  | _ \<Rightarrow> Done (to_be (es ! free_slot_index), es[free_slot_index := e164], us[free_slot_index := uuid]))"

definition remove_from_buffer :: "phone list \<Rightarrow> uuid list \<Rightarrow> phone \<Rightarrow> (bool \<times> phone list \<times> uuid list) outcome" where
  "remove_from_buffer es us e164 =
     (let slot_count = length es
      in if slot_count \<noteq> length us then Panic
         else if slot_count = 0 then Panic
         else
           case probe_key es (to_be e164) (slots_from slot_count (hash_element slot_count e164)) of
             Found i \<Rightarrow> Done (True, es[i := DELETED_E164], us[i := FREE_UUID])
           | _ \<Rightarrow> Done (False, es, us))"

text \<open>The loop of \<open>rehash\<close> over the old slots.\<close>

fun rehash_loop :: "(phone \<times> uuid) list \<Rightarrow> phone list \<Rightarrow> uuid list \<Rightarrow> nat \<Rightarrow> (phone list \<times> uuid list \<times> nat) outcome" where
  "rehash_loop [] es us new_used = Done (es, us, new_used)"
| "rehash_loop ((raw, uuid) # olds) es us new_used =
     (let e164 = to_be raw
      in if e164 \<noteq> FREE_E164 \<and> e164 \<noteq> DELETED_E164
         then
           case add_to_buffer es us e164 uuid False of
             Done (old, es, us) \<Rightarrow> rehash_loop olds es us (if old = FREE_E164 then new_used + 1 else new_used)
           | Fail err \<Rightarrow> Fail err
           | Panic \<Rightarrow> Panic
         else rehash_loop olds es us new_used)"

definition rehash :: "internal_buffers \<Rightarrow> internal_buffers outcome" where
  "rehash b =
     (let new_slot_count = max (div_trunc (element_count b) (min_load_factor b)) (capacity b)
      in if vec_too_large new_slot_count then Panic
         else
         case rehash_loop (zip (e164s_buffer b) (uuids_buffer b)) (replicate new_slot_count FREE_E164) (replicate new_slot_count FREE_UUID) 0 of
           Done (es, us, used) \<Rightarrow> Done (b\<lparr>e164s_buffer := es, uuids_buffer := us, used_slot_count := used\<rparr>)
         | Fail err \<Rightarrow> Fail err
         | Panic \<Rightarrow> Panic)"

text \<open>The counters after \<open>add_to_buffer\<close>.\<close>

definition count_added :: "internal_buffers \<Rightarrow> phone \<Rightarrow> bool \<Rightarrow> phone list \<Rightarrow> uuid list \<Rightarrow> internal_buffers" where
  "count_added b old_e164 added es us = b\<lparr>e164s_buffer := es, uuids_buffer := us,
     used_slot_count := (if old_e164 = FREE_E164 then used_slot_count b + 1 else used_slot_count b),
     element_count := (if added then element_count b + 1 else element_count b)\<rparr>"

definition buffers_insert :: "internal_buffers \<Rightarrow> phone \<Rightarrow> uuid \<Rightarrow> (bool \<times> internal_buffers) outcome" where
  "buffers_insert b e164 uuid =
     (if e164 = DELETED_E164 \<or> e164 = FREE_E164 then Fail (InvalidE164 e164)
      else
        let cap = capacity b
        in case (if element_count b = cap then rehash b else Done b) of
             Panic \<Rightarrow> Panic
           | Fail err \<Rightarrow> Fail err
           | Done b \<Rightarrow>
               if cap < element_count b then Fail (BufferFull (element_count b) cap)
               else
                 case add_to_buffer (e164s_buffer b) (uuids_buffer b) e164 uuid True of
                   Panic \<Rightarrow> Panic
                 | Fail err \<Rightarrow> Fail err
                 | Done (old_e164, es, us) \<Rightarrow>
                     let added = old_e164 \<noteq> e164;
                         b = count_added b old_e164 added es us
                     in if mul_trunc (capacity b) (max_load_factor b) \<le> used_slot_count b
                        then
                          case rehash b of
                            Done b \<Rightarrow> Done (added, b)
                          | Fail err \<Rightarrow> Fail err
                          | Panic \<Rightarrow> Panic
                        else Done (added, b))"

definition buffers_remove :: "internal_buffers \<Rightarrow> phone \<Rightarrow> (bool \<times> internal_buffers) outcome" where
  "buffers_remove b e164 =
     (if e164 = DELETED_E164 \<or> e164 = FREE_E164 then Fail (InvalidE164 e164)
      else
        case remove_from_buffer (e164s_buffer b) (uuids_buffer b) e164 of
          Panic \<Rightarrow> Panic
        | Fail err \<Rightarrow> Fail err
        | Done (removed, es, us) \<Rightarrow>
            Done (removed, b\<lparr>e164s_buffer := es, uuids_buffer := us, element_count := (if removed then usize_dec (element_count b) else element_count b)\<rparr>))"

text \<open>\<open>Vec::resize\<close>; \<open>copy_from_slice\<close> panics when the lengths differ.\<close>

definition resize :: "nat \<Rightarrow> 'a \<Rightarrow> 'a list \<Rightarrow> 'a list" where "resize n x xs = take n xs @ replicate (n - length xs) x"

definition copy_from :: "internal_buffers \<Rightarrow> internal_buffers \<Rightarrow> internal_buffers outcome" where
  "copy_from self src =
     (let src_capacity = capacity src;
          es = (if capacity self \<noteq> src_capacity then resize src_capacity FREE_E164 (e164s_buffer self) else e164s_buffer self);
          us = (if capacity self \<noteq> src_capacity then resize src_capacity FREE_UUID (uuids_buffer self) else uuids_buffer self)
      in if length es \<noteq> length (e164s_buffer src) \<or> length us \<noteq> length (uuids_buffer src) then Panic
         else Done (self\<lparr>min_load_factor := min_load_factor src, max_load_factor := max_load_factor src, element_count := element_count src,
                used_slot_count := used_slot_count src, e164s_buffer := e164s_buffer src, uuids_buffer := uuids_buffer src\<rparr>))"

text \<open>Saving and loading. A stream is the list of its bytes; an exhausted one is an error, which leaves what was read so far.\<close>

definition u32_be :: "nat \<Rightarrow> bytes" where "u32_be n = be_bytes 4 (of_nat n :: u32)"

definition write_to :: "internal_buffers \<Rightarrow> bytes" where
  "write_to b = u32_be (capacity b) @ u32_be (element_count b) @ u32_be (used_slot_count b)
     @ concat (map (le_bytes 8) (e164s_buffer b)) @ concat (map uuid_bytes (uuids_buffer b))"

fun read_words :: "nat \<Rightarrow> bytes \<Rightarrow> u64 list" where
  "read_words 0 bs = []"
| "read_words (Suc n) bs = le_word (take 8 bs) # read_words n (drop 8 bs)"

fun pairs :: "'a list \<Rightarrow> ('a \<times> 'a) list" where
  "pairs (x # y # zs) = (x, y) # pairs zs"
| "pairs _ = []"

definition clear_to_capacity :: "internal_buffers \<Rightarrow> nat \<Rightarrow> internal_buffers" where
  "clear_to_capacity b cap = b\<lparr>e164s_buffer := resize cap FREE_E164 (take 0 (e164s_buffer b)), uuids_buffer := resize cap FREE_UUID (take 0 (uuids_buffer b))\<rparr>"

text \<open>Bytes that are missing at the end of the stream are left as they were: zero, after \<open>clear_to_capacity\<close>.\<close>

definition padded :: "nat \<Rightarrow> bytes \<Rightarrow> bytes" where "padded n bs = take n (bs @ replicate n 0)"

definition read_from :: "internal_buffers \<Rightarrow> bytes \<Rightarrow> unit outcome \<times> internal_buffers" where
  "read_from b stream =
     (if length stream < 12 then (Fail IoError, b)
      else
        let cap = unat (be_word (take 4 stream) :: u32);
            elements = unat (be_word (take 4 (drop 4 stream)) :: u32);
            used = unat (be_word (take 4 (drop 8 stream)) :: u32);
            stream = drop 12 stream;
            b = (clear_to_capacity b cap)\<lparr>element_count := elements, used_slot_count := used\<rparr>
        in if length stream < cap * 8
           then (Fail IoError, b\<lparr>e164s_buffer := read_words cap (padded (cap * 8) stream)\<rparr>)
           else
             let b = b\<lparr>e164s_buffer := read_words cap (take (cap * 8) stream),
                       uuids_buffer := pairs (read_words (2 * cap) (padded (cap * 16) (drop (cap * 8) stream)))\<rparr>
             in (if length (drop (cap * 8) stream) < cap * 16 then Fail IoError else Done (), b))"

section \<open>The map of the service\<close>

record directory_map =
  dm_changed :: bool
  dm_building :: internal_buffers
  dm_serving :: internal_buffers

definition directory_map_new :: "(nat \<Rightarrow> nat) \<Rightarrow> (nat \<Rightarrow> nat) \<Rightarrow> nat \<Rightarrow> f32 \<Rightarrow> f32 \<Rightarrow> directory_map outcome" where
  "directory_map_new cap_e cap_u n min_lf max_lf =
     (case buffers_new cap_e cap_u n min_lf max_lf of
        Done b \<Rightarrow> Done \<lparr>dm_changed = False, dm_building = b, dm_serving = b\<rparr>
      | Fail err \<Rightarrow> Fail err
      | Panic \<Rightarrow> Panic)"

definition directory_insert :: "directory_map \<Rightarrow> phone \<Rightarrow> uuid \<Rightarrow> (bool \<times> directory_map) outcome" where
  "directory_insert m e164 uuid =
     (case buffers_insert (dm_building m) e164 uuid of
        Done (added, b) \<Rightarrow> Done (added, m\<lparr>dm_building := b, dm_changed := dm_changed m \<or> added\<rparr>)
      | Fail err \<Rightarrow> Fail err
      | Panic \<Rightarrow> Panic)"

definition directory_remove :: "directory_map \<Rightarrow> phone \<Rightarrow> (bool \<times> directory_map) outcome" where
  "directory_remove m e164 =
     (case buffers_remove (dm_building m) e164 of
        Done (removed, b) \<Rightarrow> Done (removed, m\<lparr>dm_building := b, dm_changed := dm_changed m \<or> removed\<rparr>)
      | Fail err \<Rightarrow> Fail err
      | Panic \<Rightarrow> Panic)"

definition directory_commit :: "directory_map \<Rightarrow> (bool \<times> directory_map) outcome" where
  "directory_commit m =
     (if \<not> dm_changed m then Done (False, m)
      else
        let building = dm_serving m; serving = dm_building m
        in case copy_from building serving of
             Done b \<Rightarrow> Done (True, m\<lparr>dm_serving := serving, dm_building := b, dm_changed := False\<rparr>)
           | Fail err \<Rightarrow> Fail err
           | Panic \<Rightarrow> Panic)"

definition directory_size :: "directory_map \<Rightarrow> nat" where "directory_size m = element_count (dm_serving m)"

definition directory_capacity :: "directory_map \<Rightarrow> nat" where "directory_capacity m = capacity (dm_serving m)"

definition borrow_serving_buffers :: "directory_map \<Rightarrow> phone list \<times> uuid list" where
  "borrow_serving_buffers m = (e164s_buffer (dm_serving m), uuids_buffer (dm_serving m))"

definition directory_read_from :: "directory_map \<Rightarrow> bytes \<Rightarrow> unit outcome \<times> directory_map" where
  "directory_read_from m stream =
     (let (res, b) = read_from (dm_building m) stream
      in (res, m\<lparr>dm_building := b, dm_changed := (if res = Done () then True else dm_changed m)\<rparr>))"

definition directory_write_to :: "directory_map \<Rightarrow> bytes" where
  "directory_write_to m = write_to (dm_serving m)"

end
