(* ===== verification/Directory_Float.thy ===== *)
theory Directory_Float imports Directory_Map begin

text \<open>
  Rounding to 64-bit floating point numbers: the bounds on the capacities that \<open>rehash\<close> computes.
\<close>

lemma f64_ulp_pos [simp]: "0 < f64_ulp x"
  by (simp add: f64_ulp_def Let_def)

lemma floorlog_range:
  fixes x :: rat
  assumes "1 \<le> x" defines "k \<equiv> floorlog 2 (nat \<lfloor>x\<rfloor>)"
  shows "0 < k" "2 ^ (k - 1) \<le> x" "x < 2 ^ k"
proof -
  have n: "0 < nat \<lfloor>x\<rfloor>" using assms(1) by simp
  have b: "2 ^ (k - 1) \<le> nat \<lfloor>x\<rfloor>" "nat \<lfloor>x\<rfloor> < 2 ^ k" using floorlog_bounds [OF n, of 2] by (simp_all add: k_def)
  show "0 < k" using n b(2) by (cases "k = 0") simp_all
  have "of_nat (nat \<lfloor>x\<rfloor>) \<le> x" using assms(1) by simp
  moreover have "(2 :: rat) ^ (k - 1) \<le> of_nat (nat \<lfloor>x\<rfloor>)" using b(1) by (metis of_nat_le_iff of_nat_numeral of_nat_power)
  ultimately show "2 ^ (k - 1) \<le> x" by linarith
  have "\<lfloor>x\<rfloor> < 2 ^ k" using b(2) assms(1) by (simp add: nat_less_iff)
  then show "x < 2 ^ k" by (metis floor_less_iff of_int_numeral of_int_power)
qed

lemma f64_ulp_small: "floorlog 2 (nat \<lfloor>x\<rfloor>) \<le> 53 \<Longrightarrow> f64_ulp x = 1 / 2 ^ (53 - floorlog 2 (nat \<lfloor>x\<rfloor>))"
  by (cases "floorlog 2 (nat \<lfloor>x\<rfloor>) = 53") (auto simp: f64_ulp_def Let_def nat_diff_distrib)

lemma f64_ulp_low:
  assumes "1 \<le> x" shows "2 ^ 52 * f64_ulp x \<le> x"
proof -
  let ?k = "floorlog 2 (nat \<lfloor>x\<rfloor>)"
  note r = floorlog_range [OF assms]
  have "2 ^ 52 * f64_ulp x = 2 ^ (?k - 1)"
  proof (cases "53 \<le> ?k")
    case True
    then have "52 + nat (int ?k - 53) = ?k - 1" by simp
    then have "(2 :: rat) ^ 52 * 2 ^ nat (int ?k - 53) = 2 ^ (?k - 1)" by (metis power_add)
    then show ?thesis using True by (simp add: f64_ulp_def Let_def)
  next
    case False
    then have "52 = (?k - 1) + (53 - ?k)" using r(1) by simp
    then have q: "(2 :: rat) ^ 52 = 2 ^ (?k - 1) * 2 ^ (53 - ?k)" by (metis power_add)
    have "(2 :: rat) ^ 52 * (1 / 2 ^ (53 - ?k)) = 2 ^ (?k - 1)" unfolding q by simp
    moreover have "f64_ulp x = 1 / 2 ^ (53 - ?k)" using False by (intro f64_ulp_small) simp
    ultimately show ?thesis by (simp only:)
  qed
  then show ?thesis using r(2) by simp
qed

lemma round_even_ge: "of_int k \<le> y \<Longrightarrow> k \<le> round_even y"
  by (auto simp: round_even_def Let_def le_floor_iff intro: order_trans [of _ "\<lfloor>y\<rfloor>"])

lemma round_even_le: "of_int (round_even y) \<le> y + 1 / 2"
  by (auto simp: round_even_def Let_def) linarith+

lemma f64_near_half: "f64_near x \<le> x + f64_ulp x / 2"
proof -
  have "f64_near x \<le> (x / f64_ulp x + 1 / 2) * f64_ulp x" unfolding f64_near_def
    by (rule mult_right_mono [OF round_even_le]) (simp add: less_imp_le)
  also have "\<dots> = x + f64_ulp x / 2" by (simp add: distrib_right less_imp_neq [OF f64_ulp_pos, symmetric])
  finally show ?thesis .
qed

lemma f64_near_le:
  assumes "1 \<le> x" shows "f64_near x \<le> 2 * x"
proof -
  have "f64_ulp x \<le> 2 ^ 52 * f64_ulp x" by simp
  then have "f64_ulp x \<le> x" using f64_ulp_low [OF assms] by (rule order_trans)
  then show ?thesis using f64_near_half [of x] assms by simp
qed

lemma f64_near_ge:
  assumes "1 \<le> x" "of_nat m \<le> x" "m < 2 ^ 53"
  shows "of_nat m \<le> f64_near x"
proof -
  let ?k = "floorlog 2 (nat \<lfloor>x\<rfloor>)" and ?u = "f64_ulp x"
  have pos: "0 < ?u" by simp
  show ?thesis
  proof (cases "53 < ?k")
    case True
    then have "2 ^ 1 \<le> (2 :: rat) ^ nat (int ?k - 53)" by (intro power_increasing) simp_all
    then have u: "2 \<le> ?u" using True by (simp add: f64_ulp_def Let_def)
    have "of_int (2 ^ 52) \<le> x / ?u" using f64_ulp_low [OF assms(1)] pos by (simp add: pos_le_divide_eq)
    then have "2 ^ 52 \<le> round_even (x / ?u)" by (rule round_even_ge)
    then have "(2 ^ 52 :: rat) \<le> of_int (round_even (x / ?u))" by (metis of_int_le_iff of_int_numeral of_int_power)
    then have "2 ^ 52 * 2 \<le> f64_near x" unfolding f64_near_def using u by (intro mult_mono) simp_all
    moreover have "(of_nat m :: rat) < 2 ^ 53" using assms(3) by (metis of_nat_less_iff of_nat_numeral of_nat_power)
    ultimately show ?thesis by simp
  next
    case False
    then have "?k \<le> 53" by simp
    then have u: "?u = 1 / 2 ^ (53 - ?k)" by (rule f64_ulp_small)
    have "of_int (int m * 2 ^ (53 - ?k)) \<le> x / ?u" using assms(2) by (simp add: u)
    then have "int m * 2 ^ (53 - ?k) \<le> round_even (x / ?u)" by (rule round_even_ge)
    then have "of_int (int m * 2 ^ (53 - ?k)) \<le> (of_int (round_even (x / ?u)) :: rat)" by (simp only: of_int_le_iff)
    then have "of_int (int m * 2 ^ (53 - ?k)) * ?u \<le> f64_near x" unfolding f64_near_def by (rule mult_right_mono) (simp add: less_imp_le)
    then show ?thesis by (simp add: u)
  qed
qed

lemma f64_of_nat_exact:
  assumes "n < 2 ^ 53" shows "f64_of_nat n = of_nat n"
proof (cases "n = 0")
  case False
  let ?k = "floorlog 2 (nat \<lfloor>of_nat n :: rat\<rfloor>)"
  have x: "1 \<le> (of_nat n :: rat)" using False by simp
  have "(of_nat n :: rat) < 2 ^ 53" using assms by (metis of_nat_less_iff of_nat_numeral of_nat_power)
  then have "(2 :: rat) ^ (?k - 1) < 2 ^ 53" using floorlog_range(2) [OF x] by linarith
  then have "?k \<le> 53" using power_less_imp_less_exp [of "2 :: rat" "?k - 1" 53] by simp
  then have u: "f64_ulp (of_nat n) = 1 / 2 ^ (53 - ?k)" by (rule f64_ulp_small)
  have "(of_nat n :: rat) / f64_ulp (of_nat n) = of_int (int n * 2 ^ (53 - ?k))" by (simp add: u)
  then have "f64_near (of_nat n) = of_int (int n * 2 ^ (53 - ?k)) * f64_ulp (of_nat n)" by (simp add: f64_near_def round_even_def del: of_int_mult)
  then show ?thesis using False by (simp add: f64_of_nat_def u)
qed (simp add: f64_of_nat_def)

text \<open>The quotient of the number of entries and the load factor, in full precision for tables that fit into memory.\<close>

lemma div_trunc_ge:
  assumes "0 < f" "n < 2 ^ 53" "m < 2 ^ 53" "0 < m" "of_nat m * f \<le> of_nat n"
  shows "m \<le> div_trunc n (Fin f)"
proof -
  let ?x = "of_nat n / f"
  have m: "of_nat m \<le> ?x" using assms(1,5) by (simp add: pos_le_divide_eq)
  then have x: "1 \<le> ?x" using assms(4) by (metis of_nat_1 of_nat_le_iff order_trans Suc_leI One_nat_def)
  have "of_nat m \<le> f64_near ?x" by (rule f64_near_ge [OF x m assms(3)])
  then have "int m \<le> \<lfloor>f64_near ?x\<rfloor>" by (simp add: le_floor_iff)
  then have "m \<le> nat \<lfloor>f64_near ?x\<rfloor>" by (simp add: le_nat_iff)
  then show ?thesis using assms(1,3) x by (simp add: f64_of_nat_exact [OF assms(2)] f64_trunc_def)
qed

lemma div_trunc_le:
  assumes "0 < f" "n < 2 ^ 53" "of_nat n \<le> of_nat m * f"
  shows "div_trunc n (Fin f) \<le> 2 * m + 1"
proof -
  let ?x = "of_nat n / f"
  have m: "?x \<le> of_nat m" using assms(1,3) by (simp add: pos_divide_le_eq)
  show ?thesis
  proof (cases "?x < 1")
    case False
    then have "f64_near ?x \<le> of_int (2 * int m)" using f64_near_le [of ?x] m by simp
    then have "\<lfloor>f64_near ?x\<rfloor> \<le> 2 * int m" by (metis floor_mono floor_of_int)
    then show ?thesis using assms(1) False by (simp add: f64_of_nat_exact [OF assms(2)] f64_trunc_def)
  qed (use assms(1) in \<open>simp add: f64_of_nat_exact [OF assms(2)] f64_trunc_def\<close>)
qed

end
