(* ===== verification/Directory_Correct.thy ===== *)
theory Directory_Correct imports Directory_Float begin

text \<open>
  The tables of \<open>Directory_Map\<close> are maps from numbers to identifiers: what every operation does to the map, that the searches find every entry, that
  a table whose starting capacity suits its load factor never panics, and what the enclave finds in the table that is served.
\<close>

section \<open>Byte order\<close>

lemma to_be_to_be [simp]: "to_be (to_be x) = x"
  by (simp add: to_be_def be_bytes_def le_bytes_le_word le_word_le_bytes)

lemma to_be_eq_iff [simp]: "to_be x = to_be y \<longleftrightarrow> x = y"
  by (metis to_be_to_be)

lemma to_be_FREE [simp]: "to_be FREE_E164 = FREE_E164"
  by (simp add: to_be_def FREE_E164_def be_bytes_def le_bytes_def numeral_eq_Suc)

lemma to_be_DELETED [simp]: "to_be DELETED_E164 = DELETED_E164"
  by code_simp

lemma to_be_special [simp]: "to_be x = FREE_E164 \<longleftrightarrow> x = FREE_E164" "to_be x = DELETED_E164 \<longleftrightarrow> x = DELETED_E164"
  by (metis to_be_to_be to_be_FREE) (metis to_be_to_be to_be_DELETED)

lemma FREE_DELETED [simp]: "FREE_E164 \<noteq> DELETED_E164" "DELETED_E164 \<noteq> FREE_E164"
  by (simp_all add: FREE_E164_def DELETED_E164_def)

definition uuid_be :: "uuid \<Rightarrow> uuid" where "uuid_be u = (to_be (fst u), to_be (snd u))"

lemma uuid_be_uuid_be [simp]: "uuid_be (uuid_be u) = u"
  by (simp add: uuid_be_def)

section \<open>Searching\<close>

definition live :: "phone \<Rightarrow> bool" where "live e \<longleftrightarrow> e \<noteq> FREE_E164 \<and> e \<noteq> DELETED_E164"

lemma live_to_be [simp]: "live (to_be e) \<longleftrightarrow> live e"
  by (simp add: live_def)

lemma not_live [simp]: "\<not> live FREE_E164" "\<not> live DELETED_E164"
  by (simp_all add: live_def)

lemma slots_from_rotate: "s \<le> n \<Longrightarrow> slots_from n s = rotate s [0..<n]"
  by (cases "s = n") (auto simp: slots_from_def rotate_drop_take)

lemma set_slots_from [simp]: "s \<le> n \<Longrightarrow> set (slots_from n s) = {..<n}"
  by (auto simp: slots_from_def)

lemma distinct_slots_from [simp]: "distinct (slots_from n s)"
  by (auto simp: slots_from_def)

lemma slots_from_turn:
  assumes "slots_from n s = pre @ j # post" "s < n"
  shows "slots_from n j = j # post @ pre"
proof -
  let ?k = "length pre"
  have r: "rotate s [0..<n] = pre @ j # post" using assms by (simp add: slots_from_rotate)
  then have k: "?k < n" by (metis length_append length_rotate length_upt less_add_same_cancel1 list.size(4) minus_nat.diff_0 add_Suc_right zero_less_Suc)
  have "rotate s [0..<n] ! ?k = (s + ?k) mod n" using k by (simp add: nth_rotate)
  then have j: "j = (?k + s) mod n" using r by (simp add: add.commute)
  have "rotate ?k (pre @ j # post) = j # post @ pre" by (simp add: rotate_append)
  then have "rotate ((?k + s) mod n) [0..<n] = j # post @ pre" using rotate_conv_mod [of "?k + s" "[0..<n]"] by (simp add: r rotate_rotate [symmetric])
  then show ?thesis using j k by (simp add: slots_from_rotate less_imp_le)
qed

lemma probe_vacant_Found: "probe_vacant es e ss = Found i \<Longrightarrow> probe_key es e ss = Found i"
  by (induction ss) (auto split: if_splits)

lemma probe_vacant_Vacant:
  "probe_vacant es e ss = Vacant j \<Longrightarrow> \<exists>pre post. ss = pre @ j # post \<and> (\<forall>i \<in> set pre. live (es ! i) \<and> es ! i \<noteq> e) \<and> \<not> live (es ! j)"
proof (induction ss)
  case (Cons s ss)
  show ?case
  proof (cases "live (es ! s)")
    case True
    then have "probe_vacant es e ss = Vacant j" "es ! s \<noteq> e" using Cons.prems by (auto simp: live_def split: if_splits)
    then obtain pre post where "ss = pre @ j # post" "\<forall>i \<in> set pre. live (es ! i) \<and> es ! i \<noteq> e" "\<not> live (es ! j)" using Cons.IH by auto
    then show ?thesis using True \<open>es ! s \<noteq> e\<close> by (intro exI [of _ "s # pre"] exI [of _ post]) auto
  next
    case False
    then show ?thesis using Cons.prems by (intro exI [of _ "[]"] exI [of _ ss]) (auto simp: live_def)
  qed
qed simp

lemma probe_vacant_Wrapped: "probe_vacant es e ss = Wrapped \<longleftrightarrow> (\<forall>i \<in> set ss. live (es ! i) \<and> es ! i \<noteq> e)"
  by (induction ss) (auto simp: live_def)

lemma probe_key_skip: "\<forall>i \<in> set pre. es ! i \<noteq> FREE_E164 \<and> es ! i \<noteq> e \<Longrightarrow> probe_key es e (pre @ ss) = probe_key es e ss"
  by (induction pre) auto

lemma probe_key_append: "probe_key es e (xs @ ys) = (case probe_key es e xs of Wrapped \<Rightarrow> probe_key es e ys | r \<Rightarrow> r)"
  by (induction xs) auto

text \<open>The second search of \<open>add_to_buffer\<close> gives what a search for the key from the start gives.\<close>

lemma second_search:
  assumes "probe_vacant es e (slots_from n s) = Vacant j" "s < n"
  shows "probe_key es e (slots_from n j) = probe_key es e (slots_from n s)"
proof -
  obtain pre post where p: "slots_from n s = pre @ j # post" "\<forall>i \<in> set pre. live (es ! i) \<and> es ! i \<noteq> e"
    using probe_vacant_Vacant [OF assms(1)] by blast
  then have q: "\<forall>i \<in> set pre. es ! i \<noteq> FREE_E164 \<and> es ! i \<noteq> e" by (auto simp: live_def)
  have "probe_key es e (slots_from n s) = probe_key es e (j # post)" unfolding p(1) by (rule probe_key_skip [OF q])
  moreover have "probe_key es e pre = Wrapped" using probe_key_skip [OF q, of "[]"] by simp
  ultimately show ?thesis using slots_from_turn [OF p(1) assms(2)] probe_key_append [of es e "j # post" pre] by (auto split: probe.splits)
qed

lemma probe_key_Found: "probe_key es e ss = Found i \<Longrightarrow> i \<in> set ss \<and> es ! i = e"
  by (induction ss) (auto split: if_splits)

lemma probe_key_cong: "(\<And>i. i \<in> set ss \<Longrightarrow> es ! i = es' ! i) \<Longrightarrow> probe_key es e ss = probe_key es' e ss"
  by (induction ss) auto

lemma probe_key_update:
  assumes "probe_key es e ss = Found i" "es ! j \<noteq> e" "x \<noteq> e" "x \<noteq> FREE_E164" "j < length es"
  shows "probe_key (es[j := x]) e ss = Found i"
  using assms(1)
proof (induction ss)
  case (Cons s ss)
  then show ?case using assms(2-5) by (cases "s = j") (auto split: if_splits)
qed simp

section \<open>Tables as maps\<close>

text \<open>The slots in the order in which a key is searched, from the slot that its number hashes to.\<close>

definition home :: "phone list \<Rightarrow> phone \<Rightarrow> nat list" where "home es e = slots_from (length es) (hash_element (length es) (to_be e))"

text \<open>Every key is found by the search, and the slots without a key hold no identifier.\<close>

definition table :: "phone list \<Rightarrow> uuid list \<Rightarrow> bool" where
  "table es us \<longleftrightarrow> length us = length es \<and> 0 < length es
     \<and> (\<forall>i < length es. live (es ! i) \<longrightarrow> probe_key es (es ! i) (home es (es ! i)) = Found i)
     \<and> (\<forall>i < length es. \<not> live (es ! i) \<longrightarrow> us ! i = FREE_UUID)"

definition table_map :: "phone list \<Rightarrow> uuid list \<Rightarrow> phone \<rightharpoonup> uuid" where
  "table_map es us p = (if live p then map_option uuid_be (map_of (zip es us) (to_be p)) else None)"

lemma home_update [simp]: "home (es[i := x]) e = home es e"
  by (simp add: home_def)

lemma hash_less: "0 < n \<Longrightarrow> hash_element n e < n"
  by (simp add: hash_element_def)

lemma set_home: "table es us \<Longrightarrow> set (home es e) = {..<length es}"
  by (simp add: home_def table_def hash_less less_imp_le)

lemma table_unique: "table es us \<Longrightarrow> i < length es \<Longrightarrow> j < length es \<Longrightarrow> live (es ! i) \<Longrightarrow> es ! i = es ! j \<Longrightarrow> i = j"
  unfolding table_def by (metis probe.inject(1))

lemma table_search: "table es us \<Longrightarrow> i < length es \<Longrightarrow> live (es ! i) \<Longrightarrow> probe_key es (es ! i) (home es (es ! i)) = Found i"
  by (simp add: table_def)

lemma table_map_at:
  assumes "table es us" "i < length es" "es ! i = to_be p" "live p"
  shows "table_map es us p = Some (uuid_be (us ! i))"
proof -
  have l: "length es = length us" using assms by (simp add: table_def)
  have "to_be p \<in> set es" using assms by (metis nth_mem)
  then obtain w where w: "map_of (zip es us) (to_be p) = Some w" using l by (metis map_of_zip_is_Some)
  then have "(to_be p, w) \<in> set (zip es us)" by (rule map_of_SomeD)
  then obtain k where k: "k < length es" "es ! k = to_be p" "us ! k = w" using l by (auto simp: in_set_zip)
  then have "k = i" using table_unique [OF assms(1), of k i] assms by simp
  then show ?thesis using w k(3) assms(4) by (simp add: table_map_def)
qed

lemma table_map_None: "to_be p \<notin> set es \<Longrightarrow> table_map es us p = None"
  by (auto simp: table_map_def map_of_eq_None_iff dest: set_zip_leftD)

lemma table_map_live: "table_map es us p \<noteq> None \<Longrightarrow> live p"
  by (auto simp: table_map_def split: if_splits)

lemma table_map_dom: "table es us \<Longrightarrow> p \<in> dom (table_map es us) \<longleftrightarrow> live p \<and> to_be p \<in> set es"
proof
  assume "p \<in> dom (table_map es us)"
  then show "live p \<and> to_be p \<in> set es" by (metis domIff table_map_None table_map_live)
next
  assume "table es us" "live p \<and> to_be p \<in> set es"
  then show "p \<in> dom (table_map es us)" using table_map_at [of es us _ p] unfolding in_set_conv_nth by auto
qed

text \<open>A change of one slot changes the map at the old and the new key only.\<close>

lemma table_map_slot:
  assumes t: "table es us" "table (es[j := e]) (us[j := u])" and "j < length es" "live p"
  shows "table_map (es[j := e]) (us[j := u]) p
    = (if to_be p = e then Some (uuid_be u) else if to_be p = es ! j then None else table_map es us p)"
proof -
  have l: "length us = length es" using t(1) by (simp add: table_def)
  consider (new) "to_be p = e" | (old) "to_be p \<noteq> e" "to_be p = es ! j" | (other) i where "to_be p \<noteq> e" "to_be p \<noteq> es ! j" "i < length es" "es ! i = to_be p"
    | (none) "to_be p \<noteq> e" "to_be p \<notin> set es" unfolding in_set_conv_nth by metis
  then show ?thesis
  proof cases
    case new
    then show ?thesis using table_map_at [OF t(2), of j p] assms(3,4) l by simp
  next
    case old
    have "to_be p \<notin> set (es[j := e])"
    proof
      assume "to_be p \<in> set (es[j := e])"
      then obtain i where "i < length es" "es[j := e] ! i = to_be p" unfolding in_set_conv_nth by auto
      moreover then have "i \<noteq> j" using old(1) by auto
      ultimately have "i \<noteq> j" "es ! i = es ! j" "i < length es" using old(2) by simp_all
      then show False using table_unique [OF t(1), of i j] old(2) assms(3,4) by (metis live_to_be)
    qed
    then show ?thesis using old table_map_None by simp
  next
    case other
    then have "i \<noteq> j" by metis
    then show ?thesis using table_map_at [OF t(2), of i p] table_map_at [OF t(1), of i p] other assms(4) by simp
  next
    case none
    then have "to_be p \<notin> set (es[j := e])" using set_update_subset_insert [of es j e] by auto
    then show ?thesis using none table_map_None [of p] by simp
  qed
qed

lemma search_Found: "table es us \<Longrightarrow> live p \<Longrightarrow> p \<in> dom (table_map es us) \<longleftrightarrow> (\<exists>i. probe_key es (to_be p) (home es (to_be p)) = Found i)"
proof
  assume a: "table es us" "live p" "p \<in> dom (table_map es us)"
  then obtain i where "i < length es" "es ! i = to_be p" by (auto simp: table_map_dom in_set_conv_nth)
  then show "\<exists>i. probe_key es (to_be p) (home es (to_be p)) = Found i" using table_search [OF a(1), of i] a(2) by auto
next
  assume a: "table es us" "live p" "\<exists>i. probe_key es (to_be p) (home es (to_be p)) = Found i"
  then obtain i where "i \<in> set (home es (to_be p))" "es ! i = to_be p" using probe_key_Found by blast
  then show "p \<in> dom (table_map es us)" using a by (simp add: table_map_dom set_home) (metis nth_mem)
qed

text \<open>The three changes of a table: an identifier is replaced, an entry is put into a vacant slot, an entry is deleted.\<close>

lemma table_replace:
  assumes "table es us" "i < length es" "es ! i = to_be p" "live p"
  shows "table es (us[i := u])" "table_map es (us[i := u]) = (table_map es us)(p \<mapsto> uuid_be u)"
proof -
  have e: "es[i := to_be p] = es" using assms(3) by (metis list_update_id)
  show t: "table es (us[i := u])" using assms by (auto simp: table_def nth_list_update)
  have "table_map es (us[i := u]) q = ((table_map es us)(p \<mapsto> uuid_be u)) q" for q
  proof (cases "live q")
    case True
    then show ?thesis using table_map_slot [OF assms(1) _ assms(2) True, of "to_be p" u] t assms(3) by (auto simp: e)
  next
    case False
    then show ?thesis using assms(4) by (auto simp: table_map_def)
  qed
  then show "table_map es (us[i := u]) = (table_map es us)(p \<mapsto> uuid_be u)" by (rule ext)
qed

lemma table_put:
  assumes "table es us" "j < length es" "\<not> live (es ! j)" "live p" "to_be p \<notin> set es"
    and "probe_key (es[j := to_be p]) (to_be p) (home es (to_be p)) = Found j"
  shows "table (es[j := to_be p]) (us[j := u])" "table_map (es[j := to_be p]) (us[j := u]) = (table_map es us)(p \<mapsto> uuid_be u)"
proof -
  let ?e = "to_be p"
  have l: "length us = length es" "0 < length es" using assms(1) by (simp_all add: table_def)
  have s: "probe_key (es[j := ?e]) (es ! i) (home es (es ! i)) = Found i" if "i < length es" "live (es ! i)" for i
  proof (rule probe_key_update [OF table_search [OF assms(1) that]])
    show "es ! j \<noteq> es ! i" using assms(3) that(2) by metis
    show "?e \<noteq> es ! i" using assms(5) that(1) by (metis nth_mem)
    show "?e \<noteq> FREE_E164" using assms(4) by (auto simp: live_def)
  qed (rule assms(2))
  show t: "table (es[j := ?e]) (us[j := u])" unfolding table_def
    using assms(1,2,4,6) s l by (auto simp: table_def nth_list_update)
  have "table_map (es[j := ?e]) (us[j := u]) q = ((table_map es us)(p \<mapsto> uuid_be u)) q" for q
  proof (cases "live q")
    case True
    then have "to_be q \<noteq> es ! j" using assms(3) by (metis live_to_be)
    then show ?thesis using table_map_slot [OF assms(1) t assms(2) True] by simp
  next
    case False
    then show ?thesis using assms(4) by (auto simp: table_map_def)
  qed
  then show "table_map (es[j := ?e]) (us[j := u]) = (table_map es us)(p \<mapsto> uuid_be u)" by (rule ext)
qed

lemma table_delete:
  assumes "table es us" "i < length es" "es ! i = to_be p" "live p"
  shows "table (es[i := DELETED_E164]) (us[i := FREE_UUID])" "table_map (es[i := DELETED_E164]) (us[i := FREE_UUID]) = (table_map es us)(p := None)"
proof -
  have l: "length us = length es" "0 < length es" using assms(1) by (simp_all add: table_def)
  have s: "probe_key (es[i := DELETED_E164]) (es ! j) (home es (es ! j)) = Found j" if "j < length es" "live (es ! j)" "j \<noteq> i" for j
  proof (rule probe_key_update [OF table_search [OF assms(1) that(1,2)]])
    show "es ! i \<noteq> es ! j" using table_unique [OF assms(1) that(1) assms(2) that(2)] that(3) by metis
    show "DELETED_E164 \<noteq> es ! j" using that(2) by auto
  qed (simp_all add: assms(2))
  show t: "table (es[i := DELETED_E164]) (us[i := FREE_UUID])" unfolding table_def
    using assms(1,2) s l by (auto simp: table_def nth_list_update)
  have "table_map (es[i := DELETED_E164]) (us[i := FREE_UUID]) q = ((table_map es us)(p := None)) q" for q
  proof (cases "live q")
    case True
    then have "to_be q \<noteq> DELETED_E164" by (simp add: live_def)
    then show ?thesis using table_map_slot [OF assms(1) t assms(2) True] assms(3) by simp
  next
    case False
    then show ?thesis by (auto simp: table_map_def)
  qed
  then show "table_map (es[i := DELETED_E164]) (us[i := FREE_UUID]) = (table_map es us)(p := None)" by (rule ext)
qed

lemma table_replicate:
  assumes "0 < n" shows "table (replicate n FREE_E164) (replicate n FREE_UUID)" "table_map (replicate n FREE_E164) (replicate n FREE_UUID) = Map.empty"
proof -
  show "table (replicate n FREE_E164) (replicate n FREE_UUID)" using assms by (simp add: table_def)
  show "table_map (replicate n FREE_E164) (replicate n FREE_UUID) = Map.empty"
    by (rule ext) (auto simp: table_map_def live_def map_of_eq_None_iff dest!: set_zip_leftD)
qed

section \<open>Adding and removing\<close>

definition lives :: "phone list \<Rightarrow> nat" where "lives es = length (filter live es)"
definition used :: "phone list \<Rightarrow> nat" where "used es = length (filter (\<lambda>e. e \<noteq> FREE_E164) es)"

lemma length_filter_update:
  "j < length xs \<Longrightarrow> length (filter P (xs[j := x])) + of_bool (P (xs ! j)) = length (filter P xs) + of_bool (P x)"
proof (induction xs arbitrary: j)
  case (Cons y ys)
  then show ?case
  proof (cases j)
    case (Suc i)
    then show ?thesis using Cons.IH [of i] Cons.prems by simp
  qed simp
qed simp

lemma lives_update: "j < length es \<Longrightarrow> lives (es[j := e]) + of_bool (live (es ! j)) = lives es + of_bool (live e)"
  unfolding lives_def by (rule length_filter_update)

lemma used_update: "j < length es \<Longrightarrow> used (es[j := e]) + of_bool (es ! j \<noteq> FREE_E164) = used es + of_bool (e \<noteq> FREE_E164)"
  unfolding used_def by (rule length_filter_update)

lemma lives_full: "lives es = length es \<longleftrightarrow> (\<forall>i < length es. live (es ! i))"
  by (simp add: lives_def filter_id_conv flip: all_set_conv_all_nth) (metis filter_True length_filter_less order_less_irrefl)

lemma lives_le: "lives es \<le> length es"
  by (simp add: lives_def)

lemma add_present:
  assumes "table es us" "live p" "p \<in> dom (table_map es us)"
  shows "\<exists>us'. add_to_buffer es us p u c = Done (p, es, us') \<and> table es us'
    \<and> table_map es us' = (table_map es us)(p \<mapsto> uuid_be (if c then uuid_be u else u))"
proof -
  let ?u = "if c then uuid_be u else u" and ?ss = "home es (to_be p)"
  have n: "length us = length es" "0 < length es" using assms(1) by (simp_all add: table_def)
  obtain i where i: "probe_key es (to_be p) ?ss = Found i" using assms search_Found by blast
  then have e: "i < length es" "es ! i = to_be p" using probe_key_Found [OF i] set_home [OF assms(1)] by auto
  have h: "hash_element (length es) p < length es" using n by (simp add: hash_less)
  have "add_to_buffer es us p u c = Done (p, es, us[i := ?u])"
  proof (cases "probe_vacant es (to_be p) ?ss")
    case (Found k)
    then show ?thesis using probe_vacant_Found [OF Found] i n by (simp add: add_to_buffer_def home_def uuid_be_def Let_def)
  next
    case (Vacant j)
    then have "probe_key es (to_be p) (slots_from (length es) j) = Found i" using second_search [of es "to_be p"] h i by (simp add: home_def)
    then show ?thesis using Vacant n by (simp add: add_to_buffer_def home_def uuid_be_def Let_def)
  next
    case Wrapped
    then show ?thesis using e set_home [OF assms(1)] by (auto simp: probe_vacant_Wrapped)
  qed
  then show ?thesis using table_replace [OF assms(1) e assms(2)] by blast
qed

lemma add_absent:
  assumes "table es us" "live p" "p \<notin> dom (table_map es us)" "lives es < length es"
  shows "\<exists>old es' us'. add_to_buffer es us p u c = Done (old, es', us') \<and> length es' = length es \<and> table es' us'
    \<and> table_map es' us' = (table_map es us)(p \<mapsto> uuid_be (if c then uuid_be u else u))
    \<and> old \<noteq> p \<and> lives es' = Suc (lives es) \<and> used es' = (if old = FREE_E164 then Suc (used es) else used es)"
proof -
  let ?u = "if c then uuid_be u else u" and ?e = "to_be p" and ?ss = "home es (to_be p)"
  have n: "length us = length es" "0 < length es" using assms(1) by (simp_all add: table_def)
  have a: "?e \<notin> set es" using assms(1-3) by (simp add: table_map_dom)
  have h: "hash_element (length es) p < length es" using n by (simp add: hash_less)
  have k: "\<nexists>i. probe_key es ?e ?ss = Found i" using assms(1-3) search_Found by blast
  obtain j where j: "probe_vacant es ?e ?ss = Vacant j"
  proof (cases "probe_vacant es ?e ?ss")
    case (Found i) then show ?thesis using probe_vacant_Found k by blast
  next
    case Wrapped
    then have "\<forall>i < length es. live (es ! i)" using set_home [OF assms(1)] by (auto simp: probe_vacant_Wrapped)
    then show ?thesis using lives_full [of es] assms(4) by simp
  qed
  obtain pre post where p: "?ss = pre @ j # post" "\<forall>i \<in> set pre. live (es ! i) \<and> es ! i \<noteq> ?e" "\<not> live (es ! j)"
    using probe_vacant_Vacant [OF j] by blast
  have "distinct ?ss" by (simp add: home_def)
  then have nj: "j \<notin> set pre" and jn: "j < length es" using set_home [OF assms(1), of ?e] unfolding p(1) by auto
  have le: "p \<noteq> FREE_E164" "live ?e" using assms(2) by (auto simp: live_def)
  have "probe_key (es[j := ?e]) ?e ?ss = Found j" unfolding p(1)
  proof (subst probe_key_skip)
    have "es[j := ?e] ! i = es ! i" if "i \<in> set pre" for i using that nj by (metis nth_list_update_neq)
    then show "\<forall>i \<in> set pre. es[j := ?e] ! i \<noteq> FREE_E164 \<and> es[j := ?e] ! i \<noteq> ?e" using p(2) by (simp add: live_def)
  qed (simp add: jn le)
  note put = table_put [OF assms(1) jn p(3) assms(2) a this, of ?u]
  have r: "add_to_buffer es us p u c = Done (to_be (es ! j), es[j := ?e], us[j := ?u])"
    using j k second_search [of es ?e "length es" _ j] h n
    by (auto simp: add_to_buffer_def home_def uuid_be_def Let_def split: probe.splits)
  have "lives (es[j := ?e]) = Suc (lives es)" using lives_update [OF jn, of ?e] p(3) le by simp
  moreover have "used (es[j := ?e]) = (if to_be (es ! j) = FREE_E164 then Suc (used es) else used es)" using used_update [OF jn, of ?e] le by auto
  moreover have "to_be (es ! j) \<noteq> p" using p(3) assms(2) by (metis live_to_be)
  ultimately show ?thesis using r put by simp
qed

lemma add_full:
  assumes "table es us" "live p" "p \<notin> dom (table_map es us)" "lives es = length es"
  shows "add_to_buffer es us p u c = Panic"
proof -
  have n: "length us = length es" "0 < length es" using assms(1) by (simp_all add: table_def)
  have "to_be p \<notin> set es" using assms(1-3) by (simp add: table_map_dom)
  then have "es ! i \<noteq> to_be p" if "i < length es" for i using that by (metis nth_mem)
  then have "probe_vacant es (to_be p) (home es (to_be p)) = Wrapped"
    using assms(4) set_home [OF assms(1)] by (auto simp: probe_vacant_Wrapped lives_full)
  then show ?thesis using n by (simp add: add_to_buffer_def home_def Let_def)
qed

lemma remove_from_buffer_correct:
  assumes "table es us" "live p"
  shows "\<exists>es' us'. remove_from_buffer es us p = Done (p \<in> dom (table_map es us), es', us') \<and> length es' = length es \<and> table es' us'
    \<and> table_map es' us' = (table_map es us)(p := None) \<and> lives es' + of_bool (p \<in> dom (table_map es us)) = lives es \<and> used es' = used es"
proof (cases "probe_key es (to_be p) (home es (to_be p))")
  case (Found i)
  have n: "length us = length es" "0 < length es" using assms(1) by (simp_all add: table_def)
  have e: "i < length es" "es ! i = to_be p" using probe_key_Found [OF Found] set_home [OF assms(1)] by auto
  have d: "p \<in> dom (table_map es us)" using Found assms search_Found by blast
  have "lives (es[i := DELETED_E164]) + 1 = lives es" using lives_update [OF e(1), of DELETED_E164] e(2) assms(2) by simp
  moreover have "used (es[i := DELETED_E164]) = used es" using used_update [OF e(1), of DELETED_E164] e(2) assms(2) by (simp add: live_def)
  ultimately show ?thesis using Found n d table_delete [OF assms(1) e assms(2)] by (simp add: remove_from_buffer_def home_def)
next
  case (Vacant j)
  then have d: "p \<notin> dom (table_map es us)" using assms search_Found by fastforce
  then have "(table_map es us)(p := None) = table_map es us" by auto
  then show ?thesis using Vacant d assms(1) by (simp add: remove_from_buffer_def home_def table_def)
next
  case Wrapped
  then have d: "p \<notin> dom (table_map es us)" using assms search_Found by fastforce
  then have "(table_map es us)(p := None) = table_map es us" by auto
  then show ?thesis using Wrapped d assms(1) by (simp add: remove_from_buffer_def home_def table_def)
qed

section \<open>Rehashing\<close>

text \<open>The entries that the loop of \<open>rehash\<close> adds, and what it leaves.\<close>

definition live_pairs :: "(phone \<times> uuid) list \<Rightarrow> (phone \<times> uuid) list" where "live_pairs olds = filter (\<lambda>x. live (fst x)) olds"

fun put_all :: "(phone \<times> uuid) list \<Rightarrow> (phone \<rightharpoonup> uuid) \<Rightarrow> (phone \<rightharpoonup> uuid)" where
  "put_all [] m = m"
| "put_all ((e, u) # xs) m = put_all xs (m(to_be e \<mapsto> uuid_be u))"

lemma rehash_loop_correct:
  assumes "table es us" "lives es + length (live_pairs olds) \<le> length es" "distinct (map fst (live_pairs olds))"
    and "\<forall>x \<in> set (live_pairs olds). to_be (fst x) \<notin> dom (table_map es us)" "used es = lives es" "k = lives es"
  shows "\<exists>es' us'. rehash_loop olds es us k = Done (es', us', lives es') \<and> length es' = length es \<and> table es' us'
    \<and> table_map es' us' = put_all (live_pairs olds) (table_map es us) \<and> used es' = lives es' \<and> lives es' = lives es + length (live_pairs olds)"
  using assms
proof (induction olds arbitrary: es us k)
  case Nil
  then show ?case by (simp add: live_pairs_def)
next
  case (Cons x olds)
  obtain raw u where x: "x = (raw, u)" by (rule prod.exhaust)
  show ?case
  proof (cases "live raw")
    case False
    then have "live_pairs (x # olds) = live_pairs olds" by (simp add: live_pairs_def x)
    moreover have "rehash_loop (x # olds) es us k = rehash_loop olds es us k" using False by (auto simp: x live_def Let_def)
    ultimately show ?thesis using Cons.IH [of es us k] Cons.prems by simp
  next
    case True
    then have lp: "live_pairs (x # olds) = (raw, u) # live_pairs olds" by (simp add: live_pairs_def x)
    have p: "live (to_be raw)" "to_be raw \<notin> dom (table_map es us)" "lives es < length es" using Cons.prems True by (simp_all add: lp)
    obtain old es1 us1 where a: "add_to_buffer es us (to_be raw) u False = Done (old, es1, us1)" "length es1 = length es" "table es1 us1"
        "table_map es1 us1 = (table_map es us)(to_be raw \<mapsto> uuid_be u)" "lives es1 = Suc (lives es)"
        "used es1 = (if old = FREE_E164 then Suc (used es) else used es)"
      using add_absent [OF Cons.prems(1) p, of u False] by auto
    have ul: "lives es1 \<le> used es1" unfolding lives_def used_def by (induction es1) (auto simp: live_def)
    then have o: "old = FREE_E164" "used es1 = lives es1" using a(5,6) Cons.prems(5) by (auto split: if_splits)
    have "\<forall>y \<in> set (live_pairs olds). to_be (fst y) \<notin> dom (table_map es1 us1)"
      using Cons.prems(3,4) by (auto simp: lp a(4))
    moreover have "lives es1 + length (live_pairs olds) \<le> length es1" "distinct (map fst (live_pairs olds))" "Suc k = lives es1"
      using Cons.prems(2,3,6) by (simp_all add: lp a(2,5))
    ultimately obtain es' us' where "rehash_loop olds es1 us1 (Suc k) = Done (es', us', lives es')" "length es' = length es1" "table es' us'"
        "table_map es' us' = put_all (live_pairs olds) (table_map es1 us1)" "used es' = lives es'" "lives es' = lives es1 + length (live_pairs olds)"
      using Cons.IH [OF a(3) _ _ _ o(2)] by blast
    then show ?thesis using a o True lp by (simp add: x live_def)
  qed
qed

lemma put_all_map:
  "distinct (map fst xs) \<Longrightarrow> put_all xs m = (\<lambda>p. case map_of xs (to_be p) of None \<Rightarrow> m p | Some u \<Rightarrow> Some (uuid_be u))"
proof (induction xs m rule: put_all.induct)
  case (2 e u xs m)
  have "map_of xs e = None" using 2(2) by (simp add: map_of_eq_None_iff)
  moreover have "to_be p = e \<longleftrightarrow> p = to_be e" for p by auto
  moreover have "put_all xs (m(to_be e \<mapsto> uuid_be u))
      = (\<lambda>p. case map_of xs (to_be p) of None \<Rightarrow> (m(to_be e \<mapsto> uuid_be u)) p | Some u \<Rightarrow> Some (uuid_be u))" by (rule 2(1)) (use 2(2) in simp)
  ultimately show ?case by (auto split: option.split)
qed simp

lemma map_of_live_pairs: "live e \<Longrightarrow> map_of (live_pairs olds) e = map_of olds e"
  by (induction olds) (auto simp: live_pairs_def)

lemma length_live_pairs: "length us = length es \<Longrightarrow> length (live_pairs (zip es us)) = lives es"
  unfolding live_pairs_def lives_def by (induction es us rule: list_induct2') auto

lemma distinct_filter_nth:
  "(\<And>i j. i < length xs \<Longrightarrow> j < length xs \<Longrightarrow> P (xs ! i) \<Longrightarrow> xs ! i = xs ! j \<Longrightarrow> i = j) \<Longrightarrow> distinct (filter P xs)"
proof (induction xs)
  case (Cons x xs)
  have "distinct (filter P xs)" using Cons.prems [of "Suc _" "Suc _"] by (intro Cons.IH) simp
  moreover have "x \<notin> set xs" if "P x"
  proof
    assume "x \<in> set xs"
    then obtain j where "j < length xs" "xs ! j = x" unfolding in_set_conv_nth by blast
    then show False using Cons.prems [of 0 "Suc j"] that by simp
  qed
  ultimately show ?case by simp
qed simp

lemma distinct_live_pairs:
  assumes "table es us"
  shows "distinct (map fst (live_pairs (zip es us)))"
proof -
  have l: "length us = length es" using assms by (simp add: table_def)
  have m: "map fst (live_pairs (zip es us)) = filter live es"
    using l unfolding live_pairs_def by (induction es us rule: list_induct2') auto
  have "distinct (filter live es)" by (rule distinct_filter_nth) (rule table_unique [OF assms])
  then show ?thesis by (simp add: m)
qed

lemma put_all_table:
  assumes "table es us"
  shows "put_all (live_pairs (zip es us)) Map.empty = table_map es us"
proof
  fix p
  have "map_of (live_pairs (zip es us)) (to_be p) = (if live p then map_of (zip es us) (to_be p) else None)"
    by (auto simp: map_of_live_pairs) (auto simp: live_pairs_def map_of_eq_None_iff)
  then show "put_all (live_pairs (zip es us)) Map.empty p = table_map es us p"
    by (simp add: put_all_map [OF distinct_live_pairs [OF assms]] table_map_def split: option.split)
qed

section \<open>The operations of the table\<close>

text \<open>The invariant of a table: its counters count the entries and the slots that were ever used.\<close>

definition buffers_ok :: "internal_buffers \<Rightarrow> bool" where
  "buffers_ok b \<longleftrightarrow> table (e164s_buffer b) (uuids_buffer b) \<and> element_count b = lives (e164s_buffer b) \<and> used_slot_count b = used (e164s_buffer b)"

definition contents :: "internal_buffers \<Rightarrow> phone \<rightharpoonup> uuid" where "contents b = table_map (e164s_buffer b) (uuids_buffer b)"

text \<open>The capacity that \<open>rehash\<close> gives.\<close>

definition new_slots :: "internal_buffers \<Rightarrow> nat" where "new_slots b = max (div_trunc (element_count b) (min_load_factor b)) (capacity b)"

lemma rehash_correct:
  assumes "buffers_ok b" "\<not> vec_too_large (new_slots b)"
  shows "\<exists>b'. rehash b = Done b' \<and> buffers_ok b' \<and> contents b' = contents b \<and> capacity b' = new_slots b \<and> element_count b' = element_count b
    \<and> min_load_factor b' = min_load_factor b \<and> max_load_factor b' = max_load_factor b"
proof -
  let ?es = "e164s_buffer b" and ?us = "uuids_buffer b" and ?n = "new_slots b"
  have t: "table ?es ?us" "element_count b = lives ?es" and l: "length ?us = length ?es" "0 < length ?es"
    using assms(1) by (simp_all add: buffers_ok_def table_def)
  have n: "length ?es \<le> ?n" by (simp add: new_slots_def capacity_def)
  then have n: "length ?es \<le> ?n" "0 < ?n" using l(2) by linarith+
  have z: "lives (replicate ?n FREE_E164) = 0" "used (replicate ?n FREE_E164) = 0" by (simp_all add: lives_def used_def)
  have f: "lives (replicate ?n FREE_E164) + length (live_pairs (zip ?es ?us)) \<le> length (replicate ?n FREE_E164)"
    using n lives_le [of ?es] by (simp add: z length_live_pairs l)
  obtain es' us' where r: "rehash_loop (zip ?es ?us) (replicate ?n FREE_E164) (replicate ?n FREE_UUID) 0 = Done (es', us', lives es')"
      "length es' = ?n" "table es' us'" "table_map es' us' = put_all (live_pairs (zip ?es ?us)) Map.empty" "used es' = lives es'" "lives es' = lives ?es"
    using rehash_loop_correct [OF table_replicate(1) [OF n(2)] f distinct_live_pairs [OF t(1)]] z length_live_pairs [OF l(1)]
    by (auto simp: table_replicate(2) [OF n(2)])
  have "rehash b = Done (b\<lparr>e164s_buffer := es', uuids_buffer := us', used_slot_count := lives es'\<rparr>)"
    using r(1) assms(2) by (simp add: rehash_def new_slots_def [symmetric] Let_def)
  then show ?thesis using r t by (simp add: buffers_ok_def contents_def capacity_def put_all_table)
qed

text \<open>The part of \<open>insert\<close> after the first \<open>rehash\<close>.\<close>

lemma add_step:
  assumes "buffers_ok b" "live p" "p \<in> dom (contents b) \<or> element_count b < capacity b"
  shows "\<exists>old es us. add_to_buffer (e164s_buffer b) (uuids_buffer b) p u True = Done (old, es, us) \<and> length es = capacity b \<and> table es us
    \<and> table_map es us = (contents b)(p \<mapsto> u) \<and> (old = p \<longleftrightarrow> p \<in> dom (contents b))
    \<and> lives es = (if old \<noteq> p then element_count b + 1 else element_count b)
    \<and> used es = (if old = FREE_E164 then used_slot_count b + 1 else used_slot_count b)"
proof (cases "p \<in> dom (contents b)")
  case True
  have "p \<noteq> FREE_E164" using assms(2) by auto
  then show ?thesis using add_present [of "e164s_buffer b" "uuids_buffer b" p u True] True assms
    by (auto simp: buffers_ok_def contents_def capacity_def)
next
  case False
  then show ?thesis using add_absent [of "e164s_buffer b" "uuids_buffer b" p u True] assms
    by (auto simp: buffers_ok_def contents_def capacity_def)
qed

text \<open>
  A table whose capacity suits its load factor: a full table grows. Tables of at most \<open>2 ^ 52\<close> slots, more than memory holds, keep the arithmetic exact.
\<close>

definition sized :: "rat \<Rightarrow> internal_buffers \<Rightarrow> bool" where
  "sized f b \<longleftrightarrow> min_load_factor b = Fin f \<and> 0 < f \<and> f \<le> of_nat (capacity b) * (1 - f) \<and> capacity b \<le> 2 ^ 52"

lemma sized_mono: "sized f b \<Longrightarrow> capacity b \<le> capacity b' \<Longrightarrow> capacity b' \<le> 2 ^ 52 \<Longrightarrow> min_load_factor b' = Fin f \<Longrightarrow> sized f b'"
proof -
  assume a: "sized f b" "capacity b \<le> capacity b'" "capacity b' \<le> 2 ^ 52" "min_load_factor b' = Fin f"
  have "0 \<le> 1 - f"
  proof (rule ccontr)
    assume "\<not> 0 \<le> 1 - f"
    then have "of_nat (capacity b) * (1 - f) \<le> 0" by (intro mult_nonneg_nonpos) simp_all
    then show False using a(1) by (simp add: sized_def)
  qed
  then have "of_nat (capacity b) * (1 - f) \<le> of_nat (capacity b') * (1 - f)" using a(2) by (intro mult_right_mono) simp_all
  then show ?thesis using a by (simp add: sized_def)
qed

lemma new_slots_sized:
  assumes "buffers_ok b" "sized f b" "of_nat (element_count b) \<le> 2 ^ 50 * f"
  shows "capacity b \<le> new_slots b" "new_slots b \<le> 2 ^ 52" "element_count b = capacity b \<Longrightarrow> capacity b < new_slots b" "\<not> vec_too_large (new_slots b)"
proof -
  have f: "min_load_factor b = Fin f" "0 < f" "f \<le> of_nat (capacity b) * (1 - f)" "capacity b \<le> 2 ^ 52" using assms(2) by (simp_all add: sized_def)
  have n: "element_count b \<le> capacity b" using assms(1) lives_le by (simp add: buffers_ok_def capacity_def)
  then have e: "element_count b < 2 ^ 53" using f(4) by simp
  show "capacity b \<le> new_slots b" by (simp add: new_slots_def)
  have "of_nat (element_count b) \<le> of_nat (2 ^ 50) * f" using assms(3) by simp
  from div_trunc_le [OF f(2) e this] show u: "new_slots b \<le> 2 ^ 52" using f(1,4) by (simp add: new_slots_def)
  then show "\<not> vec_too_large (new_slots b)" by (simp add: vec_too_large_def)
  assume "element_count b = capacity b"
  moreover have "of_nat (Suc (capacity b)) * f \<le> of_nat (capacity b)" using f(3) by (simp add: algebra_simps)
  ultimately have "Suc (capacity b) \<le> div_trunc (element_count b) (Fin f)" using e f(4) by (intro div_trunc_ge [OF f(2)]) simp_all
  then show "capacity b < new_slots b" using f(1) by (simp add: new_slots_def)
qed

lemma rehash_sized:
  assumes "buffers_ok b" "sized f b" "of_nat (element_count b) \<le> 2 ^ 50 * f"
  shows "\<exists>b'. rehash b = Done b' \<and> buffers_ok b' \<and> sized f b' \<and> contents b' = contents b \<and> element_count b' = element_count b \<and> capacity b \<le> capacity b'
    \<and> (element_count b = capacity b \<longrightarrow> capacity b < capacity b')"
proof -
  note n = new_slots_sized [OF assms]
  obtain b' where b: "rehash b = Done b'" "buffers_ok b'" "contents b' = contents b" "capacity b' = new_slots b" "element_count b' = element_count b"
      "min_load_factor b' = min_load_factor b" using rehash_correct [OF assms(1) n(4)] by blast
  moreover have "sized f b'" by (rule sized_mono [OF assms(2)]) (use b n assms(2) in \<open>simp_all add: sized_def\<close>)
  ultimately show ?thesis using n by auto
qed

lemma buffers_insert_sized:
  assumes "buffers_ok b" "sized f b" "live p" "of_nat (element_count b + 1) \<le> 2 ^ 50 * f"
  shows "\<exists>b'. buffers_insert b p u = Done (p \<notin> dom (contents b), b') \<and> buffers_ok b' \<and> sized f b' \<and> contents b' = (contents b)(p \<mapsto> u)
    \<and> element_count b' = element_count b + of_bool (p \<notin> dom (contents b))"
proof -
  let ?c = "capacity b"
  have k: "of_nat (element_count b) \<le> 2 ^ 50 * f" using assms(4) by simp
  have l: "element_count b \<le> ?c" using assms(1) lives_le by (simp add: buffers_ok_def capacity_def)
  obtain b1 where b1: "(if element_count b = ?c then rehash b else Done b) = Done b1" "buffers_ok b1" "sized f b1" "contents b1 = contents b"
      "element_count b1 = element_count b" "element_count b1 < capacity b1"
    using rehash_sized [OF assms(1,2) k] assms(1,2) l by (cases "element_count b = ?c") auto
  obtain old es us where a: "add_to_buffer (e164s_buffer b1) (uuids_buffer b1) p u True = Done (old, es, us)" "length es = capacity b1" "table es us"
      "table_map es us = (contents b)(p \<mapsto> u)" "old = p \<longleftrightarrow> p \<in> dom (contents b)"
      "lives es = (if old \<noteq> p then element_count b + 1 else element_count b)" "used es = (if old = FREE_E164 then used_slot_count b1 + 1 else used_slot_count b1)"
    using add_step [OF b1(2) assms(3) disjI2 [OF b1(6)], of u, unfolded b1(4,5)] by blast
  define b2 where "b2 = count_added b1 old (old \<noteq> p) es us"
  have b2: "buffers_ok b2" "contents b2 = (contents b)(p \<mapsto> u)" "capacity b2 = capacity b1" "min_load_factor b2 = min_load_factor b1"
    "element_count b2 = element_count b + of_bool (p \<notin> dom (contents b))"
    using a b1(5) by (simp_all add: b2_def count_added_def buffers_ok_def contents_def capacity_def)
  have s2: "sized f b2" by (rule sized_mono [OF b1(3)]) (use b2 b1(3) in \<open>simp_all add: sized_def\<close>)
  have "of_nat (element_count b2) \<le> 2 ^ 50 * f" using assms(4) k b2(5) by simp
  then obtain b3 where b3: "rehash b2 = Done b3" "buffers_ok b3" "sized f b3" "contents b3 = contents b2" "element_count b3 = element_count b2"
    using rehash_sized [OF b2(1) s2] by blast
  have "buffers_insert b p u
      = Done (old \<noteq> p, if mul_trunc (capacity b2) (max_load_factor b2) \<le> used_slot_count b2 then b3 else b2)"
    using assms(3) l a(1) b1(1,5) b3(1) by (simp add: buffers_insert_def live_def Let_def flip: b2_def)
  then show ?thesis using a(5) b2 b3 s2 by simp
qed

lemma buffers_remove_correct:
  assumes "buffers_ok b" "live p"
  shows "\<exists>b'. buffers_remove b p = Done (p \<in> dom (contents b), b') \<and> buffers_ok b' \<and> contents b' = (contents b)(p := None)
    \<and> capacity b' = capacity b \<and> min_load_factor b' = min_load_factor b \<and> element_count b' + of_bool (p \<in> dom (contents b)) = element_count b"
proof -
  let ?d = "p \<in> dom (contents b)"
  obtain es us where r: "remove_from_buffer (e164s_buffer b) (uuids_buffer b) p = Done (?d, es, us)" "length es = capacity b" "table es us"
      "table_map es us = (contents b)(p := None)" "lives es + of_bool ?d = element_count b" "used es = used_slot_count b"
    using remove_from_buffer_correct [of "e164s_buffer b" "uuids_buffer b" p] assms by (auto simp: buffers_ok_def contents_def capacity_def)
  define b' where "b' = b\<lparr>e164s_buffer := es, uuids_buffer := us, element_count := (if ?d then usize_dec (element_count b) else element_count b)\<rparr>"
  have e: "(if ?d then usize_dec (element_count b) else element_count b) = lives es" using r(5) by (cases ?d) (simp_all add: usize_dec_def)
  have "buffers_remove b p = Done (?d, b')" using r(1) assms(2) by (simp add: buffers_remove_def live_def b'_def)
  moreover have "buffers_ok b'" "contents b' = (contents b)(p := None)" "capacity b' = capacity b" "min_load_factor b' = min_load_factor b"
    "element_count b' + of_bool ?d = element_count b"
    unfolding b'_def e using r by (simp_all add: buffers_ok_def contents_def capacity_def)
  ultimately show ?thesis by blast
qed

lemma length_resize [simp]: "length (resize n x xs) = n"
  by (simp add: resize_def min_def)

lemma copy_from_correct: "buffers_ok b \<Longrightarrow> buffers_ok a \<Longrightarrow> copy_from a b = Done b"
  by (simp add: copy_from_def buffers_ok_def table_def capacity_def Let_def)

end
