(* ===== verification/Directory_Refinement.thy ===== *)
theory Directory_Refinement imports Directory_Correct begin

text \<open>
  What the directory of the host promises: any sequence of insertions, removals and commits behaves as on two maps, one that changes and one that is served,
  and the enclave finds in the served table exactly the served map. A saved directory is loaded as it was.
\<close>

section \<open>The promise\<close>

datatype dir_op = Insert phone uuid | Remove phone | Commit

record directory_spec =
  sp_changed :: bool
  sp_building :: "phone \<rightharpoonup> uuid"
  sp_serving :: "phone \<rightharpoonup> uuid"

fun spec_op :: "dir_op \<Rightarrow> directory_spec \<Rightarrow> (internal_buffers_error + bool) \<times> directory_spec" where
  "spec_op (Insert p u) s =
     (if live p
      then (Inr (p \<notin> dom (sp_building s)), s\<lparr>sp_building := (sp_building s)(p \<mapsto> u), sp_changed := sp_changed s \<or> p \<notin> dom (sp_building s)\<rparr>)
      else (Inl (InvalidE164 p), s))"
| "spec_op (Remove p) s =
     (if live p
      then (Inr (p \<in> dom (sp_building s)), s\<lparr>sp_building := (sp_building s)(p := None), sp_changed := sp_changed s \<or> p \<in> dom (sp_building s)\<rparr>)
      else (Inl (InvalidE164 p), s))"
| "spec_op Commit s = (Inr (sp_changed s), if sp_changed s then s\<lparr>sp_serving := sp_building s, sp_changed := False\<rparr> else s)"

fun spec_ops :: "dir_op list \<Rightarrow> directory_spec \<Rightarrow> (internal_buffers_error + bool) list \<times> directory_spec" where
  "spec_ops [] s = ([], s)"
| "spec_ops (c # cs) s = (let (r, s) = spec_op c s; (rs, s) = spec_ops cs s in (r # rs, s))"

text \<open>A sequence of calls on the map of the service; no value when one of them panics.\<close>

fun run_op :: "dir_op \<Rightarrow> directory_map \<Rightarrow> (bool \<times> directory_map) outcome" where
  "run_op (Insert p u) m = directory_insert m p u"
| "run_op (Remove p) m = directory_remove m p"
| "run_op Commit m = directory_commit m"

fun run_ops :: "dir_op list \<Rightarrow> directory_map \<Rightarrow> ((internal_buffers_error + bool) list \<times> directory_map) option" where
  "run_ops [] m = Some ([], m)"
| "run_ops (c # cs) m =
     (case run_op c m of
        Panic \<Rightarrow> None
      | Fail err \<Rightarrow> map_option (\<lambda>(rs, m). (Inl err # rs, m)) (run_ops cs m)
      | Done (r, m) \<Rightarrow> map_option (\<lambda>(rs, m). (Inr r # rs, m)) (run_ops cs m))"

section \<open>Refinement\<close>

definition abs_directory :: "directory_map \<Rightarrow> directory_spec" where
  "abs_directory m = \<lparr>sp_changed = dm_changed m, sp_building = contents (dm_building m), sp_serving = contents (dm_serving m)\<rparr>"

definition directory_ok :: "rat \<Rightarrow> directory_map \<Rightarrow> bool" where
  "directory_ok f m \<longleftrightarrow> buffers_ok (dm_building m) \<and> buffers_ok (dm_serving m) \<and> sized f (dm_building m)"

lemma remove_sized:
  assumes "buffers_ok b" "sized f b" "live p"
  shows "\<exists>b'. buffers_remove b p = Done (p \<in> dom (contents b), b') \<and> buffers_ok b' \<and> sized f b' \<and> contents b' = (contents b)(p := None)
    \<and> element_count b' \<le> element_count b"
proof -
  obtain b' where b: "buffers_remove b p = Done (p \<in> dom (contents b), b')" "buffers_ok b'" "contents b' = (contents b)(p := None)" "capacity b' = capacity b"
      "min_load_factor b' = min_load_factor b" "element_count b' + of_bool (p \<in> dom (contents b)) = element_count b"
    using buffers_remove_correct [OF assms(1,3)] by blast
  have "sized f b'" by (rule sized_mono [OF assms(2)]) (use b assms(2) in \<open>simp_all add: sized_def\<close>)
  then show ?thesis using b by (metis le_add1)
qed

lemma run_op_refines:
  assumes "directory_ok f m" "of_nat (element_count (dm_building m) + 1) \<le> 2 ^ 50 * f"
  shows "\<exists>r s. spec_op c (abs_directory m) = (r, s) \<and>
    (case r of
       Inl err \<Rightarrow> run_op c m = Fail err \<and> s = abs_directory m
     | Inr x \<Rightarrow> \<exists>m'. run_op c m = Done (x, m') \<and> s = abs_directory m' \<and> directory_ok f m'
         \<and> element_count (dm_building m') \<le> element_count (dm_building m) + 1)"
proof -
  let ?b = "dm_building m"
  have ok: "buffers_ok ?b" "buffers_ok (dm_serving m)" "sized f ?b" using assms(1) by (simp_all add: directory_ok_def)
  show ?thesis
  proof (cases c)
    case (Insert p u)
    show ?thesis
    proof (cases "live p")
      case True
      then obtain b' where "buffers_insert ?b p u = Done (p \<notin> dom (contents ?b), b')" "buffers_ok b'" "sized f b'" "contents b' = (contents ?b)(p \<mapsto> u)"
          "element_count b' = element_count ?b + of_bool (p \<notin> dom (contents ?b))"
        using buffers_insert_sized [OF ok(1,3) True assms(2)] by blast
      then show ?thesis using ok True by (simp add: Insert directory_insert_def abs_directory_def directory_ok_def)
    next
      case False
      then have "buffers_insert ?b p u = Fail (InvalidE164 p)" by (auto simp: buffers_insert_def live_def)
      then show ?thesis using False by (simp add: Insert directory_insert_def)
    qed
  next
    case (Remove p)
    show ?thesis
    proof (cases "live p")
      case True
      then obtain b' where "buffers_remove ?b p = Done (p \<in> dom (contents ?b), b')" "buffers_ok b'" "sized f b'" "contents b' = (contents ?b)(p := None)"
          "element_count b' \<le> element_count ?b"
        using remove_sized [OF ok(1,3) True] by blast
      then show ?thesis using ok True by (simp add: Remove directory_remove_def abs_directory_def directory_ok_def)
    next
      case False
      then have "buffers_remove ?b p = Fail (InvalidE164 p)" by (auto simp: buffers_remove_def live_def)
      then show ?thesis using False by (simp add: Remove directory_remove_def)
    qed
  next
    case Commit
    then show ?thesis using ok copy_from_correct [OF ok(1,2)] assms(1) by (simp add: directory_commit_def abs_directory_def directory_ok_def Let_def)
  qed
qed

lemma run_ops_refines:
  assumes "directory_ok f m" "of_nat (element_count (dm_building m) + length cs) \<le> 2 ^ 50 * f"
  shows "\<exists>m'. run_ops cs m = Some (fst (spec_ops cs (abs_directory m)), m') \<and> abs_directory m' = snd (spec_ops cs (abs_directory m)) \<and> directory_ok f m'"
  using assms
proof (induction cs arbitrary: m)
  case (Cons c cs)
  have "of_nat (element_count (dm_building m) + 1) \<le> 2 ^ 50 * f" using Cons.prems(2) by simp
  then obtain r s where r: "spec_op c (abs_directory m) = (r, s)" "case r of
       Inl err \<Rightarrow> run_op c m = Fail err \<and> s = abs_directory m
     | Inr x \<Rightarrow> \<exists>m'. run_op c m = Done (x, m') \<and> s = abs_directory m' \<and> directory_ok f m'
         \<and> element_count (dm_building m') \<le> element_count (dm_building m) + 1" using run_op_refines [OF Cons.prems(1)] by blast
  show ?case
  proof (cases r)
    case (Inl err)
    have "of_nat (element_count (dm_building m) + length cs) \<le> 2 ^ 50 * f" using Cons.prems(2) by simp
    then show ?thesis using r Cons.IH [OF Cons.prems(1)] by (auto simp: Inl split: prod.splits)
  next
    case (Inr x)
    then obtain m1 where m1: "run_op c m = Done (x, m1)" "s = abs_directory m1" "directory_ok f m1"
      "element_count (dm_building m1) \<le> element_count (dm_building m) + 1" using r(2) by auto
    have "(of_nat (element_count (dm_building m1) + length cs) :: rat) \<le> of_nat (element_count (dm_building m) + length (c # cs))"
      unfolding of_nat_le_iff using m1(4) by simp
    then have "of_nat (element_count (dm_building m1) + length cs) \<le> 2 ^ 50 * f" using Cons.prems(2) by (rule order_trans)
    then show ?thesis using r(1) m1(1,2) Cons.IH [OF m1(3)] by (auto simp: Inr split: prod.splits)
  qed
qed simp

section \<open>What is served\<close>

lemma dir_lookup_snoc [simp]: "dir_lookup (D @ [x]) q = (if fst x = q then snd x else dir_lookup D q)"
  by (simp add: dir_lookup_def)

lemma dir_lookup_unique: "(\<And>v. (q, v) \<in> set D \<Longrightarrow> v = w) \<Longrightarrow> dir_lookup D q = (if q \<in> fst ` set D then w else (0, 0))"
proof (induction D rule: rev_induct)
  case (snoc x D)
  then show ?case by (cases x) (auto simp: image_iff)
qed (simp add: dir_lookup_def)

lemma in_zipE:
  assumes "(k, v) \<in> set (zip xs ys)"
  obtains j where "j < length xs" "xs ! j = k" "ys ! j = v"
  using assms by (auto simp: in_set_zip)

lemma table_lookup:
  assumes "table es us"
  shows "dir_lookup (zip es us) (to_be p) = (case table_map es us p of None \<Rightarrow> (0, 0) | Some u \<Rightarrow> uuid_be u)"
proof -
  have l: "length us = length es" using assms by (simp add: table_def)
  have fst: "fst ` set (zip es us) = set es" using l by (metis list.set_map map_fst_zip)
  show ?thesis
  proof (cases "to_be p \<in> set es")
    case True
    then obtain i where i: "i < length es" "es ! i = to_be p" unfolding in_set_conv_nth by blast
    show ?thesis
    proof (cases "live p")
      case lp: True
      have "v = us ! i" if z: "(to_be p, v) \<in> set (zip es us)" for v
      proof -
        obtain j where "j < length es" "es ! j = to_be p" "us ! j = v" by (rule in_zipE [OF z])
        then show ?thesis using table_unique [OF assms, of j i] i lp by simp
      qed
      from dir_lookup_unique [of "to_be p", OF this] show ?thesis using True table_map_at [OF assms i lp] by (simp add: fst)
    next
      case False
      have "v = (0, 0)" if z: "(to_be p, v) \<in> set (zip es us)" for v
      proof -
        obtain j where "j < length es" "es ! j = to_be p" "us ! j = v" by (rule in_zipE [OF z])
        then show ?thesis using assms False unfolding table_def FREE_UUID_def by (metis live_to_be)
      qed
      from dir_lookup_unique [of "to_be p", OF this] show ?thesis using False by (simp add: table_map_def)
    qed
  next
    case False
    have "v = (0, 0)" if "(to_be p, v) \<in> set (zip es us)" for v using that False by (metis set_zip_leftD)
    from dir_lookup_unique [of "to_be p", OF this] show ?thesis using False by (simp add: fst table_map_None)
  qed
qed

lemma served_lookup:
  assumes "directory_ok f m" "borrow_serving_buffers m = (es, us)"
  shows "length us = length es" "dir_lookup (zip es us) (to_be p) = (case sp_serving (abs_directory m) p of None \<Rightarrow> (0, 0) | Some u \<Rightarrow> uuid_be u)"
  using assms table_lookup [of es us p]
  by (auto simp: borrow_serving_buffers_def directory_ok_def buffers_ok_def abs_directory_def contents_def table_def)

lemma new_ok:
  assumes "directory_map_new cap_e cap_u n (Fin f) mx = Done m" "cap_e n = c" "cap_u n = c" "0 < f" "f \<le> of_nat c * (1 - f)" "c \<le> 2 ^ 52"
  shows "directory_ok f m" "abs_directory m = \<lparr>sp_changed = False, sp_building = Map.empty, sp_serving = Map.empty\<rparr>" "element_count (dm_building m) = 0"
proof -
  let ?b = "\<lparr>min_load_factor = Fin f, max_load_factor = mx, element_count = 0, used_slot_count = 0,
      e164s_buffer = replicate c FREE_E164, uuids_buffer = replicate c FREE_UUID\<rparr>"
  have m: "m = \<lparr>dm_changed = False, dm_building = ?b, dm_serving = ?b\<rparr>"
    using assms(1-3) by (auto simp: directory_map_new_def buffers_new_def split: if_splits)
  have c: "0 < c" using assms(4,5) by (cases c) auto
  have "buffers_ok ?b" "sized f ?b" "contents ?b = Map.empty"
    using c assms(4-6) table_replicate [OF c] by (simp_all add: buffers_ok_def sized_def contents_def capacity_def lives_def used_def)
  then show "directory_ok f m" "abs_directory m = \<lparr>sp_changed = False, sp_building = Map.empty, sp_serving = Map.empty\<rparr>" "element_count (dm_building m) = 0"
    by (simp_all add: m directory_ok_def abs_directory_def)
qed

text \<open>C5. The directory of the host. From a new map whose capacity suits its minimum load factor, no sequence of insertions, removals and commits panics;
  every call answers as on two maps from numbers to identifiers, and for every number the enclave's scan of the buffers that are then served finds
  the identifier of the served map, or zero when the number is not in it.\<close>

theorem directory_refinement:
  assumes "directory_map_new cap_e cap_u n (Fin f) mx = Done m" "cap_e n = c" "cap_u n = c" "0 < f" "f \<le> of_nat c * (1 - f)" "c \<le> 2 ^ 52"
    and "of_nat (length cs) \<le> 2 ^ 50 * f"
    and "spec_ops cs \<lparr>sp_changed = False, sp_building = Map.empty, sp_serving = Map.empty\<rparr> = (rs, s)"
  shows "\<exists>m' es us. run_ops cs m = Some (rs, m') \<and> borrow_serving_buffers m' = (es, us) \<and> length us = length es
    \<and> (\<forall>p. dir_lookup (zip es us) (to_be p) = (case sp_serving s p of None \<Rightarrow> (0, 0) | Some u \<Rightarrow> uuid_be u))"
proof -
  note new = new_ok [OF assms(1-6)]
  have "of_nat (element_count (dm_building m) + length cs) \<le> 2 ^ 50 * f" using assms(7) new(3) by simp
  from run_ops_refines [OF new(1) this] obtain m' where m': "run_ops cs m = Some (rs, m')" "abs_directory m' = s" "directory_ok f m'"
    using new(2) assms(8) by auto
  obtain es us where "borrow_serving_buffers m' = (es, us)" by (rule prod.exhaust)
  with served_lookup [OF m'(3) this] m'(1,2) show ?thesis by simp
qed

text \<open>The load factors of the service's configuration: 0.75 and the 32-bit number nearest to 0.85.\<close>

definition demo_ops :: "dir_op list" where
  "demo_ops = [Insert 15555550100 (1, 2), Insert 15555550101 (3, 4), Commit, Remove 15555550100, Insert 0 (5, 6)]"

lemma demo_spec:
  "spec_ops demo_ops \<lparr>sp_changed = False, sp_building = Map.empty, sp_serving = Map.empty\<rparr>
    = ([Inr True, Inr True, Inr True, Inr True, Inl (InvalidE164 0)],
       \<lparr>sp_changed = True, sp_building = [15555550101 \<mapsto> (3, 4)], sp_serving = [15555550100 \<mapsto> (1, 2), 15555550101 \<mapsto> (3, 4)]\<rparr>)"
  by (simp add: demo_ops_def live_def FREE_E164_def DELETED_E164_def fun_upd_twist fun_eq_iff)

theorem directory_refinement_witness:
  "\<exists>m m' es us. directory_map_new id id 1000 (Fin (3 / 4)) (Fin (14260634 / 2 ^ 24)) = Done m
    \<and> run_ops demo_ops m = Some ([Inr True, Inr True, Inr True, Inr True, Inl (InvalidE164 0)], m') \<and> borrow_serving_buffers m' = (es, us)
    \<and> dir_lookup (zip es us) (to_be 15555550100) = uuid_be (1, 2) \<and> dir_lookup (zip es us) (to_be 15555550102) = (0, 0)"
proof -
  obtain m where m: "directory_map_new id id 1000 (Fin (3 / 4)) (Fin (14260634 / 2 ^ 24)) = Done m"
    by (simp add: directory_map_new_def buffers_new_def f32_less_def f32_ge_def f32_eq_def vec_too_large_def)
  have "of_nat (length demo_ops) \<le> (2 :: rat) ^ 50 * (3 / 4)" by (simp add: demo_ops_def)
  from directory_refinement [OF m _ _ _ _ _ this demo_spec, of 1000] m show ?thesis by fastforce
qed

section \<open>Saving and loading\<close>

lemma read_words_append: "read_words (length ws) (concat (map (le_bytes 8) ws) @ rest) = ws"
  by (induction ws) (simp_all add: le_word_le_bytes)

lemma length_words [simp]: "length (concat (map (le_bytes 8) (ws :: u64 list))) = length ws * 8"
  by (induction ws) simp_all

lemma uuid_words: "concat (map uuid_bytes us) = concat (map (le_bytes 8) (concat (map (\<lambda>u. [fst u, snd u]) us)))"
  by (induction us) (simp_all add: uuid_bytes_def)

lemma length_uuid_words [simp]: "length (concat (map (\<lambda>u. [fst u, snd u]) us)) = 2 * length us"
  by (induction us) simp_all

lemma pairs_words [simp]: "pairs (concat (map (\<lambda>u. [fst u, snd u]) us)) = us"
  by (induction us) simp_all

lemma read_uuids: "pairs (read_words (2 * length us) (concat (map uuid_bytes us) @ rest)) = us"
  using read_words_append [of "concat (map (\<lambda>u. [fst u, snd u]) us)" rest] by (simp add: uuid_words)

lemma length_uuids [simp]: "length (concat (map uuid_bytes us)) = length us * 16"
  by (simp add: uuid_words)

lemma u32_be: "length (u32_be n) = 4" "n < 2 ^ 32 \<Longrightarrow> unat (be_word (u32_be n) :: u32) = n"
  by (simp_all add: u32_be_def be_word_be_bytes unat_of_nat)

lemma padded_append: "length xs = n \<Longrightarrow> padded n (xs @ ys) = xs"
  by (simp add: padded_def)

lemma read_from_write_to:
  assumes "buffers_ok b" "capacity b < 2 ^ 32"
  shows "read_from a (write_to b @ rest) = (Done (), a\<lparr>element_count := element_count b, used_slot_count := used_slot_count b,
    e164s_buffer := e164s_buffer b, uuids_buffer := uuids_buffer b\<rparr>)"
proof -
  let ?es = "e164s_buffer b" and ?us = "uuids_buffer b"
  let ?c = "length ?es" and ?E = "concat (map (le_bytes 8) (e164s_buffer b))" and ?U = "concat (map uuid_bytes (uuids_buffer b))"
  have l: "length ?us = ?c" using assms(1) by (simp add: buffers_ok_def table_def)
  have "used ?es \<le> ?c" by (simp add: used_def)
  then have n: "?c < 2 ^ 32" "element_count b < 2 ^ 32" "used_slot_count b < 2 ^ 32"
    using assms lives_le [of ?es] by (simp_all add: capacity_def buffers_ok_def)
  have w: "write_to b @ rest = u32_be ?c @ u32_be (element_count b) @ u32_be (used_slot_count b) @ ?E @ ?U @ rest"
    by (simp add: write_to_def capacity_def)
  have t: "take 4 (write_to b @ rest) = u32_be ?c" "take 4 (drop 4 (write_to b @ rest)) = u32_be (element_count b)"
    "take 4 (drop 8 (write_to b @ rest)) = u32_be (used_slot_count b)" "drop 12 (write_to b @ rest) = ?E @ ?U @ rest"
    unfolding w by (simp_all add: u32_be(1))
  have e: "read_words ?c ?E = ?es" using read_words_append [of ?es "[]"] by simp
  have u: "pairs (read_words (2 * ?c) ?U) = ?us" using read_uuids [of ?us "[]"] by (simp add: l)
  have p: "padded (?c * 16) (?U @ rest) = ?U" by (rule padded_append) (simp add: l)
  have s: "\<not> length (write_to b @ rest) < 12" unfolding w by (simp add: u32_be(1))
  show ?thesis unfolding read_from_def t u32_be(2) [OF n(1)] u32_be(2) [OF n(2)] u32_be(2) [OF n(3)]
    using s by (simp add: Let_def l e u p clear_to_capacity_def)
qed

text \<open>C21. Saving and loading. What a service writes, another service reads back: after the next commit it serves the same buffers, which the
  enclave scans with the same answers.\<close>

theorem directory_read_write:
  assumes "directory_ok f m" "directory_capacity m < 2 ^ 32" "directory_ok f' m1"
  shows "\<exists>m2 m3. directory_read_from m1 (directory_write_to m @ rest) = (Done (), m2) \<and> directory_commit m2 = Done (True, m3)
    \<and> borrow_serving_buffers m3 = borrow_serving_buffers m \<and> directory_size m3 = directory_size m
    \<and> sp_serving (abs_directory m3) = sp_serving (abs_directory m) \<and> sp_building (abs_directory m3) = sp_serving (abs_directory m)"
proof -
  let ?s = "dm_serving m" and ?b = "dm_building m1"
  define b where "b = ?b\<lparr>element_count := element_count ?s, used_slot_count := used_slot_count ?s, e164s_buffer := e164s_buffer ?s, uuids_buffer := uuids_buffer ?s\<rparr>"
  have ok: "buffers_ok ?s" "buffers_ok (dm_serving m1)" "capacity ?s < 2 ^ 32" using assms by (simp_all add: directory_ok_def directory_capacity_def)
  have r: "read_from ?b (write_to ?s @ rest) = (Done (), b)" unfolding b_def by (rule read_from_write_to [OF ok(1,3)])
  have b: "buffers_ok b" "contents b = contents ?s" using ok(1) by (simp_all add: b_def buffers_ok_def contents_def)
  have "directory_read_from m1 (directory_write_to m @ rest) = (Done (), m1\<lparr>dm_building := b, dm_changed := True\<rparr>)"
    using r by (simp add: directory_read_from_def directory_write_to_def)
  moreover have "directory_commit (m1\<lparr>dm_building := b, dm_changed := True\<rparr>) = Done (True, m1\<lparr>dm_serving := b, dm_building := b, dm_changed := False\<rparr>)"
    using copy_from_correct [OF b(1) ok(2)] by (simp add: directory_commit_def Let_def)
  ultimately show ?thesis using b
    by (simp add: borrow_serving_buffers_def directory_size_def abs_directory_def) (simp add: b_def)
qed

section \<open>Where the table falls short\<close>

text \<open>C40. A full table that does not grow. When the quotient of the number of entries and the minimum load factor, cut off, is not above the capacity,
  the insertion of a further number panics.\<close>

theorem insert_panics_when_full:
  assumes "buffers_ok b" "live p" "p \<notin> dom (contents b)" "element_count b = capacity b" "new_slots b = capacity b" "\<not> vec_too_large (capacity b)"
  shows "buffers_insert b p u = Panic"
proof -
  obtain b' where b: "rehash b = Done b'" "buffers_ok b'" "contents b' = contents b" "capacity b' = capacity b" "element_count b' = element_count b"
    using rehash_correct [OF assms(1)] assms(5,6) by auto
  have "add_to_buffer (e164s_buffer b') (uuids_buffer b') p u True = Panic"
    using b(2-5) assms(2-4) by (intro add_full) (simp_all add: buffers_ok_def contents_def capacity_def)
  then show ?thesis using assms(2,4) b by (simp add: buffers_insert_def live_def)
qed

text \<open>Examples: a table of four slots with one entry and one deleted slot, and a table of one slot that is full.\<close>

definition demo_table :: "phone list \<Rightarrow> uuid list \<Rightarrow> nat \<Rightarrow> internal_buffers" where
  "demo_table es us n = \<lparr>min_load_factor = Fin (3 / 4), max_load_factor = Fin (14260634 / 2 ^ 24), element_count = 1, used_slot_count = n,
     e164s_buffer = es, uuids_buffer = us\<rparr>"

definition demo_four :: internal_buffers where
  "demo_four = demo_table [0, to_be 5, DELETED_E164, 0] [(0, 0), uuid_be (1, 2), (0, 0), (0, 0)] 2"

definition demo_one :: internal_buffers where
  "demo_one = demo_table [to_be 5] [uuid_be (1, 2)] 1"

lemma demo_to_be: "to_be 5 = 0x0500000000000000" "to_be 6 = 0x0600000000000000" "to_be 0x0500000000000000 = 5"
  by code_simp+

lemmas demo_defs = demo_four_def demo_one_def demo_table_def live_def lives_def used_def FREE_E164_def DELETED_E164_def FREE_UUID_def

lemma all_less_Suc: "(\<forall>i < Suc n. P i) \<longleftrightarrow> P n \<and> (\<forall>i < n. P i)"
  by (auto simp: less_Suc_eq)

lemma demo_four_ok: "buffers_ok demo_four"
  by (simp add: buffers_ok_def table_def all_less_Suc demo_defs demo_to_be home_def hash_element_def slots_from_def upt_rec)

lemma demo_one_ok: "buffers_ok demo_one"
  by (simp add: buffers_ok_def table_def all_less_Suc demo_defs demo_to_be home_def hash_element_def slots_from_def upt_rec)

lemma demo_four_sized: "sized (3 / 4) demo_four"
  by (simp add: sized_def demo_four_def demo_table_def capacity_def)

lemma demo_contents: "contents demo_four 5 = Some (1, 2)" "contents demo_one 5 = Some (1, 2)" "contents demo_one 6 = None"
  by (simp_all add: contents_def table_map_def demo_defs demo_to_be)

definition demo_directory :: directory_map where
  "demo_directory = \<lparr>dm_changed = False, dm_building = demo_four, dm_serving = demo_four\<rparr>"

lemma demo_directory_ok: "directory_ok (3 / 4) demo_directory" "element_count (dm_building demo_directory) = 1"
  using demo_four_ok demo_four_sized by (simp_all add: directory_ok_def demo_directory_def demo_four_def demo_table_def)

theorem directory_read_write_witness:
  "\<exists>m2 m3. directory_read_from demo_directory (directory_write_to demo_directory) = (Done (), m2) \<and> directory_commit m2 = Done (True, m3)
    \<and> sp_serving (abs_directory m3) 5 = Some (1, 2)"
proof -
  have c: "directory_capacity demo_directory < 2 ^ 32"
    by (simp add: directory_capacity_def demo_directory_def demo_four_def demo_table_def capacity_def)
  have "sp_serving (abs_directory demo_directory) 5 = Some (1, 2)" by (simp add: abs_directory_def demo_directory_def demo_contents)
  then show ?thesis using directory_read_write [OF demo_directory_ok(1) c demo_directory_ok(1), of "[]"] by auto
qed

lemma demo_one_stays: "new_slots demo_one = capacity demo_one"
proof -
  have "\<lfloor>4 / 3 :: rat\<rfloor> = 1" by (simp add: floor_eq_iff)
  then have "floorlog 2 (nat \<lfloor>4 / 3 :: rat\<rfloor>) = 1" by (simp add: compute_floorlog)
  then have "f64_ulp (4 / 3) = 1 / 2 ^ 52" using f64_ulp_small [of "4 / 3"] by simp
  then have "f64_near (4 / 3) < 2" "1 \<le> f64_near (4 / 3)" using f64_near_half [of "4 / 3"] f64_near_ge [of "4 / 3" 1] by simp_all
  then have "\<lfloor>f64_near (4 / 3)\<rfloor> = 1" by (simp add: floor_eq_iff)
  then have "f64_trunc (4 / 3) = 1" by (simp add: f64_trunc_def)
  then show ?thesis by (simp add: new_slots_def capacity_def demo_one_def demo_table_def f64_of_nat_exact)
qed

theorem insert_panics_when_full_witness: "buffers_insert demo_one 6 (3, 4) = Panic"
proof (rule insert_panics_when_full [OF demo_one_ok])
  show "6 \<notin> dom (contents demo_one)" using demo_contents(3) by (simp add: domIff)
qed (simp_all add: demo_one_stays live_def FREE_E164_def DELETED_E164_def vec_too_large_def, simp_all add: demo_one_def demo_table_def capacity_def)

text \<open>C39. A change of an identifier alone is not committed. Inserting a number that is in the directory replaces its identifier in the table that changes,
  answers that nothing was added, and leaves the mark unset: the commit that follows does nothing, and the old identifier stays served.\<close>

theorem update_not_committed:
  assumes "directory_ok f m" "of_nat (element_count (dm_building m) + 1) \<le> 2 ^ 50 * f" "\<not> dm_changed m" "p \<in> dom (contents (dm_building m))"
  shows "\<exists>m'. directory_insert m p u = Done (False, m') \<and> contents (dm_building m') p = Some u \<and> directory_commit m' = Done (False, m')
    \<and> borrow_serving_buffers m' = borrow_serving_buffers m"
proof -
  have ok: "buffers_ok (dm_building m)" "sized f (dm_building m)" using assms(1) by (simp_all add: directory_ok_def)
  have "live p" using assms(4) table_map_live unfolding contents_def dom_def by blast
  from buffers_insert_sized [OF ok this assms(2)] obtain b where "buffers_insert (dm_building m) p u = Done (False, b)" "contents b = (contents (dm_building m))(p \<mapsto> u)"
    using assms(4) by metis
  then show ?thesis using assms(3) by (simp add: directory_insert_def directory_commit_def borrow_serving_buffers_def)
qed

theorem update_not_committed_witness:
  "\<exists>m'. directory_insert demo_directory 5 (7, 8) = Done (False, m') \<and> contents (dm_building m') 5 = Some (7, 8) \<and> directory_commit m' = Done (False, m')
    \<and> sp_serving (abs_directory demo_directory) 5 = Some (1, 2) \<and> borrow_serving_buffers m' = borrow_serving_buffers demo_directory"
proof -
  have "\<not> dm_changed demo_directory" "5 \<in> dom (contents (dm_building demo_directory))" "sp_serving (abs_directory demo_directory) 5 = Some (1, 2)"
    using demo_contents(1) by (simp_all add: demo_directory_def domIff abs_directory_def)
  moreover have "of_nat (element_count (dm_building demo_directory) + 1) \<le> 2 ^ 50 * (3 / 4 :: rat)" by (simp add: demo_directory_ok)
  ultimately show ?thesis using update_not_committed [OF demo_directory_ok(1), of 5 "(7, 8)"] by simp
qed

end
