(* ===== verification/Cds_Client.thy ===== *)
theory Cds_Client imports Cds_Enclave Directory_Refinement begin

text \<open>
  The client, \<open>src/client/cds_client/src/lib.rs\<close>, and the host's way of passing its request on: \<open>RequestManager.java\<close> and \<open>SgxEnclave.java\<close>, which
  copy the fields of a request, and \<open>jni/cds_jni/src/sgx_enclave.rs\<close>, which checks them and lays them out for the enclave. The cryptographic
  packages of the client are a record of functions.
\<close>

section \<open>The packages of the client\<close>

datatype cds_client_error = EncryptionError | DecryptionError | CreateEncryptionKeyError | CreateDecryptionKeyError | CreateClientKeyError
  | U64u8SliceConversionError | ExtractHkdfError | MutexLockError | NoServerKeyError | U8UuidConverionError

text \<open>
  \<open>lib_open\<close> is \<open>open_in_place\<close>: the buffer after the call, which starts with the plaintext. \<open>lib_hkdf\<close> extracts and expands with an empty info string.
\<close>

record 'r client_lib =
  lib_fill :: "nat \<Rightarrow> 'r \<Rightarrow> bytes \<times> 'r"
  lib_secret :: "'r \<Rightarrow> bytes \<times> 'r"
  lib_public :: "bytes \<Rightarrow> bytes"
  lib_diffie_hellman :: "bytes \<Rightarrow> bytes \<Rightarrow> bytes"
  lib_sha256 :: "bytes \<Rightarrow> bytes"
  lib_seal :: "bytes \<Rightarrow> bytes \<Rightarrow> bytes \<Rightarrow> bytes \<Rightarrow> (bytes \<times> bytes) option"
  lib_open :: "bytes \<Rightarrow> bytes \<Rightarrow> bytes \<Rightarrow> bytes \<Rightarrow> bytes option"
  lib_hkdf :: "bytes \<Rightarrow> bytes \<Rightarrow> nat \<Rightarrow> bytes option"

text \<open>What the packages document: AES-256-GCM, SHA-256 and HKDF-SHA256, and generators that fill the buffer.\<close>

definition standard_lib :: "'r client_lib \<Rightarrow> bool" where
  "standard_lib L \<longleftrightarrow>
     (\<forall>key iv aad pt. length key = 32 \<and> length iv = 12 \<and> length pt < 2 ^ 36 \<longrightarrow>
        (let E = aes_encrypt key; ct = gcm_crypt E iv pt in lib_seal L key iv aad pt = Some (ct, gcm_tag E iv aad ct)))
     \<and> (\<forall>key iv aad ct. length key = 32 \<and> length iv = 12 \<longrightarrow>
        (let E = aes_encrypt key in \<exists>rest. lib_open L key iv aad (ct @ gcm_tag E iv aad ct) = Some (gcm_crypt E iv ct @ rest)))
     \<and> (\<forall>m. lib_sha256 L m = fips_sha256 m)
     \<and> (\<forall>salt secret. let prk = rfc2104_hmac fips_sha256 salt secret in lib_hkdf L salt secret 64 = Some (rfc5869_T prk 1 @ rfc5869_T prk 2))
     \<and> (\<forall>n r. length (fst (lib_fill L n r)) = n)"

text \<open>Diffie-Hellman: the client's secret with the public key of any secret of the enclave gives what that secret gives with the client's public key.\<close>

definition agrees :: "'r client_lib \<Rightarrow> bytes \<Rightarrow> bool" where
  "agrees L a \<longleftrightarrow> length (lib_public L a) = 32 \<and>
     (\<forall>b. length b = 32 \<longrightarrow> lib_diffie_hellman L a (curve25519_donna b BASEPOINT) = curve25519_donna b (lib_public L a))"

section \<open>The client\<close>

record client =
  cl_privkey :: bytes
  cl_pubkey :: bytes

record encrypted_message =
  em_iv :: bytes
  em_mac :: bytes
  em_data :: bytes

record request_negotiation =
  rn_server_ephemeral_pubkey :: bytes
  rn_server_static_pubkey :: bytes
  rn_encrypted_pending_request_id :: encrypted_message

record discovery_request_envelope =
  env_request_id :: bytes
  env_data :: bytes
  env_iv :: bytes
  env_mac :: bytes

record discovery_request_t =
  dr_address_count :: u32
  dr_commitment :: bytes
  dr_data :: bytes
  dr_iv :: bytes
  dr_mac :: bytes
  dr_envelopes :: "string \<rightharpoonup> discovery_request_envelope"

record discovery_response =
  resp_request_id :: bytes
  resp_data :: bytes
  resp_iv :: bytes
  resp_mac :: bytes

definition client_new :: "'r client_lib \<Rightarrow> 'r \<Rightarrow> client \<times> 'r" where
  "client_new L r = (let (k, r) = lib_secret L r in (\<lparr>cl_privkey = k, cl_pubkey = lib_public L k\<rparr>, r))"

definition seal_in_place :: "'r client_lib \<Rightarrow> bytes \<Rightarrow> bytes \<Rightarrow> encrypted_message \<Rightarrow> cds_client_error + encrypted_message" where
  "seal_in_place L key aad m =
     (if length key \<noteq> 32 then Inl CreateEncryptionKeyError
      else case lib_seal L key (em_iv m) aad (em_data m) of
             None \<Rightarrow> Inl EncryptionError
           | Some (ct, mac) \<Rightarrow> Inr (m\<lparr>em_data := ct, em_mac := mac\<rparr>))"

definition open_in_place :: "'r client_lib \<Rightarrow> bytes \<Rightarrow> bytes \<Rightarrow> bytes \<Rightarrow> bytes \<Rightarrow> cds_client_error + bytes" where
  "open_in_place L key iv aad cyphertext =
     (if length key \<noteq> 32 then Inl CreateDecryptionKeyError
      else case lib_open L key iv aad cyphertext of None \<Rightarrow> Inl DecryptionError | Some buf \<Rightarrow> Inr buf)"

definition encrypt_data :: "'r client_lib \<Rightarrow> bytes \<Rightarrow> bytes \<Rightarrow> bytes \<Rightarrow> 'r \<Rightarrow> (cds_client_error + encrypted_message) \<times> 'r" where
  "encrypt_data L key data aad r =
     (let (iv, r) = lib_fill L 12 r in (seal_in_place L key aad \<lparr>em_iv = iv, em_mac = replicate 16 0, em_data = data\<rparr>, r))"

definition key_agreement :: "'r client_lib \<Rightarrow> client \<Rightarrow> bytes \<Rightarrow> bytes \<Rightarrow> cds_client_error + bytes \<times> bytes" where
  "key_agreement L c ephemeral static =
     (let hkdf_secret = lib_diffie_hellman L (cl_privkey c) ephemeral @ lib_diffie_hellman L (cl_privkey c) static;
          hkdf_salt = cl_pubkey c @ ephemeral @ static
      in case lib_hkdf L hkdf_salt hkdf_secret 64 of
           None \<Rightarrow> Inl ExtractHkdfError
         | Some keys \<Rightarrow> Inr (take 32 keys, take 32 (drop 32 keys)))"

definition be_phone_data :: "phone list \<Rightarrow> bytes" where "be_phone_data phones = concat (map (be_bytes 8) phones)"

text \<open>The part of \<open>discovery_request\<close> that draws the nonce and the query key and seals key and query.\<close>

definition seal_query :: "'r client_lib \<Rightarrow> string \<Rightarrow> bytes \<Rightarrow> bytes \<Rightarrow> bytes \<Rightarrow> phone list \<Rightarrow> 'r
    \<Rightarrow> (cds_client_error + bytes \<times> discovery_request_t) \<times> 'r" where
  "seal_query L attestation_key client_key server_key pending_request_id phone_list r =
     (let (query_nonce, r) = lib_fill L 32 r;
          query_data = query_nonce @ be_phone_data phone_list;
          commitment = lib_sha256 L query_data;
          (query_data_key_entropy, r) = lib_fill L 32 r;
          (envelope, r) = encrypt_data L client_key query_data_key_entropy pending_request_id r
      in case envelope of
           Inl err \<Rightarrow> (Inl err, r)
         | Inr envelope \<Rightarrow>
             let discovery_envelope = \<lparr>env_request_id = pending_request_id, env_data = em_data envelope, env_iv = em_iv envelope, env_mac = em_mac envelope\<rparr>;
                 (query_data_message, r) = encrypt_data L query_data_key_entropy query_data [] r
             in (case query_data_message of
                  Inl err \<Rightarrow> (Inl err, r)
                | Inr q \<Rightarrow>
                    (Inr (server_key, \<lparr>dr_address_count = of_nat (length phone_list), dr_commitment = commitment, dr_data = em_data q, dr_iv = em_iv q,
                       dr_mac = em_mac q, dr_envelopes = [attestation_key \<mapsto> discovery_envelope]\<rparr>), r)))"

definition discovery_request :: "'r client_lib \<Rightarrow> client \<Rightarrow> string \<Rightarrow> request_negotiation \<Rightarrow> phone list \<Rightarrow> 'r
    \<Rightarrow> (cds_client_error + bytes \<times> discovery_request_t) \<times> 'r" where
  "discovery_request L c attestation_key negotiation phone_list r =
     (case key_agreement L c (rn_server_ephemeral_pubkey negotiation) (rn_server_static_pubkey negotiation) of
        Inl err \<Rightarrow> (Inl err, r)
      | Inr (client_key, server_key) \<Rightarrow>
          let m = rn_encrypted_pending_request_id negotiation
          in (case open_in_place L server_key (em_iv m) [] (em_data m @ em_mac m) of
               Inl err \<Rightarrow> (Inl err, r)
             | Inr buf \<Rightarrow> seal_query L attestation_key client_key server_key (take (length (em_data m)) buf) phone_list r))"

fun chunks_exact :: "nat \<Rightarrow> nat \<Rightarrow> bytes \<Rightarrow> bytes list" where
  "chunks_exact n 0 bs = []"
| "chunks_exact n (Suc k) bs = take n bs # chunks_exact n k (drop n bs)"

text \<open>\<open>Uuid::from_slice\<close> on sixteen bytes, as the two halves that the host uses.\<close>

definition uuid_from_slice :: "bytes \<Rightarrow> uuid" where "uuid_from_slice bs = (be_word (take 8 bs), be_word (drop 8 bs))"

definition decode_discovery_response :: "'r client_lib \<Rightarrow> bytes \<Rightarrow> discovery_response \<Rightarrow> cds_client_error + uuid list" where
  "decode_discovery_response L server_key response =
     (case open_in_place L server_key (resp_iv response) [] (resp_data response @ resp_mac response) of
        Inl err \<Rightarrow> Inl err
      | Inr buf \<Rightarrow>
          let uuid_array = take (length (resp_data response)) buf
          in Inr (map uuid_from_slice (chunks_exact 16 (length uuid_array div 16) uuid_array)))"

section \<open>The host\<close>

text \<open>The answer of \<open>nativeNegotiateRequest\<close>, as it reaches the client.\<close>

definition negotiation_of :: "sgxsd_request_negotiation_response \<Rightarrow> request_negotiation" where
  "negotiation_of resp = \<lparr>rn_server_ephemeral_pubkey = server_ephemeral_pubkey resp, rn_server_static_pubkey = server_static_pubkey resp,
     rn_encrypted_pending_request_id = \<lparr>em_iv = enc_prid_iv resp, em_mac = enc_prid_mac resp, em_data = enc_prid_data resp\<rparr>\<rparr>"

record native_server_call_args =
  na_query_phone_count :: u32
  na_query_data :: bytes
  na_query_iv :: bytes
  na_query_mac :: bytes
  na_query_commitment :: bytes
  na_msg_data :: bytes
  na_msg_iv :: bytes
  na_msg_mac :: bytes
  na_pending_request_id :: bytes

text \<open>\<open>SgxsdBatch\<close>: the counters, and \<open>add\<close> up to the native call. Java's integers are signed words.\<close>

record sgxsd_batch =
  max_phone_count :: u32
  phone_count :: u32
  processed :: bool

datatype host_error = IllegalState | IllegalArgument | NullPointer | SgxException string | RuntimeException

definition batch_add :: "sgxsd_batch \<Rightarrow> discovery_request_envelope \<Rightarrow> discovery_request_t \<Rightarrow> host_error + native_server_call_args \<times> sgxsd_batch" where
  "batch_add b envelope q =
     (if processed b then Inl IllegalState
      else if sint (max_phone_count b - phone_count b) < sint (dr_address_count q) then Inl IllegalArgument
      else Inr (\<lparr>na_query_phone_count = dr_address_count q, na_query_data = dr_data q, na_query_iv = dr_iv q, na_query_mac = dr_mac q,
                  na_query_commitment = dr_commitment q, na_msg_data = env_data envelope, na_msg_iv = env_iv envelope, na_msg_mac = env_mac envelope,
                  na_pending_request_id = env_request_id envelope\<rparr>, b\<lparr>phone_count := phone_count b + dr_address_count q\<rparr>))"

text \<open>One request of \<open>processBatch\<close>.\<close>

definition process_request :: "string \<Rightarrow> sgxsd_batch \<Rightarrow> discovery_request_t \<Rightarrow> host_error + native_server_call_args \<times> sgxsd_batch" where
  "process_request local_host b request = (case dr_envelopes request local_host of None \<Rightarrow> Inl NullPointer | Some envelope \<Rightarrow> batch_add b envelope request)"

text \<open>\<open>server_call\<close> of the native library: what the enclave is called with, for the query buffer at address \<open>q\<close>.\<close>

definition jni_server_call :: "u64 \<Rightarrow> native_server_call_args \<Rightarrow> host_error + sgxsd_server_handle_call_args \<times> sgxsd_msg_header \<times> bytes" where
  "jni_server_call q args =
     (if na_msg_data args = [] then Inl (SgxException ''bad_msg_data'')
      else if na_query_data args = [] then Inl (SgxException ''bad_query_data'')
      else if length (na_msg_iv args) \<noteq> 12 \<or> length (na_msg_mac args) \<noteq> 16 \<or> length (na_query_iv args) \<noteq> 12 \<or> length (na_query_mac args) \<noteq> 16
          \<or> length (na_query_commitment args) \<noteq> 32 \<or> length (na_pending_request_id args) \<noteq> 36 then Inl RuntimeException
      else Inr (\<lparr>query_phone_count = na_query_phone_count args, ratelimit_state_size = 0, ratelimit_state_uuid = replicate 16 0, ratelimit_state_data = 0,
                  call_query = \<lparr>query_iv = na_query_iv args, query_mac = na_query_mac args, query_size = of_nat (length (na_query_data args)), query_data = q\<rparr>,
                  query_commitment = na_query_commitment args\<rparr>,
                \<lparr>hdr_iv = na_msg_iv args, hdr_mac = na_msg_mac args,
                  hdr_pending_request_id = \<lparr>prid_data = take 8 (na_pending_request_id args), prid_iv = take 12 (drop 8 (na_pending_request_id args)),
                    prid_mac = take 16 (drop 20 (na_pending_request_id args))\<rparr>\<rparr>,
                na_msg_data args))"

text \<open>\<open>server_stop\<close>: the served buffers, at the addresses \<open>p\<close> and \<open>u\<close>. Indexing an empty buffer panics.\<close>

definition jni_server_stop :: "u64 \<Rightarrow> u64 \<Rightarrow> directory_map \<Rightarrow> (host_error + sgxsd_server_terminate_args) option" where
  "jni_server_stop p u m =
     (let (e164s, uuids) = borrow_serving_buffers m
      in if length e164s \<noteq> length uuids then Some (Inl (SgxException ''e164s_and_uuids_buffer_length_mismatch''))
         else if e164s = [] then None
         else Some (Inr \<lparr>in_phones = p, in_phone_count = of_nat (length e164s), in_uuids = u\<rparr>))"

section \<open>What the client computes\<close>

lemma hmac_long_key: "64 < length key \<Longrightarrow> rfc2104_hmac fips_sha256 key m = rfc2104_hmac fips_sha256 (fips_sha256 key) m"
  by (simp add: rfc2104_hmac_def rfc2104_key_def)

lemma standard_libD:
  assumes "standard_lib L"
  shows "length key = 32 \<Longrightarrow> length iv = 12 \<Longrightarrow> length pt < 2 ^ 36
      \<Longrightarrow> lib_seal L key iv aad pt = Some (gcm_crypt (aes_encrypt key) iv pt, gcm_tag (aes_encrypt key) iv aad (gcm_crypt (aes_encrypt key) iv pt))"
    and "length key = 32 \<Longrightarrow> length iv = 12 \<Longrightarrow> \<exists>rest. lib_open L key iv aad (ct @ gcm_tag (aes_encrypt key) iv aad ct) = Some (gcm_crypt (aes_encrypt key) iv ct @ rest)"
    and "lib_sha256 L m = fips_sha256 m"
    and "lib_hkdf L salt secret 64 = Some (rfc5869_T (rfc2104_hmac fips_sha256 salt secret) 1 @ rfc5869_T (rfc2104_hmac fips_sha256 salt secret) 2)"
    and "length (fst (lib_fill L n r)) = n"
  using assms unfolding standard_lib_def Let_def by blast+

lemma key_agreement_ok:
  assumes "standard_lib L" "agrees L (cl_privkey c)" "cl_pubkey c = lib_public L (cl_privkey c)"
    and "wf_key_pair eph" "pubkey eph = curve25519_donna (privkey eph) BASEPOINT"
    and "wf_key_pair static" "pubkey static = curve25519_donna (privkey static) BASEPOINT"
  defines "prk \<equiv> session_prk (cl_pubkey c) eph static"
  shows "key_agreement L c (pubkey eph) (pubkey static) = Inr (client_key_of prk, server_key_of prk)"
proof -
  let ?salt = "cl_pubkey c @ pubkey eph @ pubkey static"
  have l: "length (privkey eph) = 32" "length (privkey static) = 32" "length ?salt = 96"
    using assms(2-4,6) by (simp_all add: wf_key_pair_def agrees_def)
  have "lib_diffie_hellman L (cl_privkey c) (pubkey eph) = curve25519_donna (privkey eph) (cl_pubkey c)"
    "lib_diffie_hellman L (cl_privkey c) (pubkey static) = curve25519_donna (privkey static) (cl_pubkey c)"
    using assms(2,3,5,7) l by (simp_all add: agrees_def)
  then show ?thesis using l(3) hmac_long_key [of ?salt]
    by (simp add: key_agreement_def standard_libD(4) [OF assms(1)] prk_def session_prk_def length_keys Let_def)
qed

lemma encrypt_data_ok:
  assumes "standard_lib L" "length key = 32" "length pt < 2 ^ 36" "lib_fill L 12 r = (iv, r')"
  shows "encrypt_data L key pt aad r = (Inr \<lparr>em_iv = iv, em_mac = gcm_tag (aes_encrypt key) iv aad (gcm_crypt (aes_encrypt key) iv pt),
    em_data = gcm_crypt (aes_encrypt key) iv pt\<rparr>, r')" "length iv = 12"
proof -
  show iv: "length iv = 12" using standard_libD(5) [OF assms(1), of 12 r] assms(4) by simp
  then show "encrypt_data L key pt aad r = (Inr \<lparr>em_iv = iv, em_mac = gcm_tag (aes_encrypt key) iv aad (gcm_crypt (aes_encrypt key) iv pt),
    em_data = gcm_crypt (aes_encrypt key) iv pt\<rparr>, r')"
    using assms(2-4) standard_libD(1) [OF assms(1,2) iv assms(3)] by (simp add: encrypt_data_def seal_in_place_def)
qed

lemma be_phones: "be_phone_data ps = encode_phones (map to_be ps)"
  by (simp add: be_phone_data_def encode_phones_def to_be_def le_bytes_le_word comp_def)

text \<open>A request for phones, from the keys and the random values that it contains.\<close>

definition sealed_request :: "string \<Rightarrow> bytes \<Rightarrow> bytes \<Rightarrow> bytes \<Rightarrow> bytes \<Rightarrow> bytes \<Rightarrow> bytes \<Rightarrow> phone list \<Rightarrow> discovery_request_t" where
  "sealed_request host ck prid nonce key iv qiv ps =
     (let pt = nonce @ encode_phones (map to_be ps); data = gcm_crypt (aes_encrypt ck) iv key; q = gcm_crypt (aes_encrypt key) qiv pt
      in \<lparr>dr_address_count = of_nat (length ps), dr_commitment = fips_sha256 pt, dr_data = q, dr_iv = qiv, dr_mac = gcm_tag (aes_encrypt key) qiv [] q,
          dr_envelopes = [host \<mapsto> \<lparr>env_request_id = prid, env_data = data, env_iv = iv, env_mac = gcm_tag (aes_encrypt ck) iv prid data\<rparr>]\<rparr>)"

lemma seal_query_ok:
  assumes "standard_lib L" "length ck = 32" "length ps * 8 < 2 ^ 35"
  obtains nonce key iv qiv r' where "seal_query L host ck sk prid ps r = (Inr (sk, sealed_request host ck prid nonce key iv qiv ps), r')"
    "length nonce = 32" "length key = 32" "length iv = 12" "length qiv = 12"
proof -
  obtain nonce r1 where 1: "lib_fill L 32 r = (nonce, r1)" by (rule prod.exhaust)
  obtain key r2 where 2: "lib_fill L 32 r1 = (key, r2)" by (rule prod.exhaust)
  obtain iv r3 where 3: "lib_fill L 12 r2 = (iv, r3)" by (rule prod.exhaust)
  obtain qiv r4 where 4: "lib_fill L 12 r3 = (qiv, r4)" by (rule prod.exhaust)
  have l: "length nonce = 32" "length key = 32" using standard_libD(5) [OF assms(1), of 32 r] standard_libD(5) [OF assms(1), of 32 r1] 1 2 by simp_all
  have b: "length key < 2 ^ 36" "length (nonce @ encode_phones (map to_be ps)) < 2 ^ 36" using l assms(3) by simp_all
  note e = encrypt_data_ok [OF assms(1,2) b(1) 3] and q = encrypt_data_ok [OF assms(1) l(2) b(2) 4]
  have "seal_query L host ck sk prid ps r = (Inr (sk, sealed_request host ck prid nonce key iv qiv ps), r4)"
    by (simp add: seal_query_def 1 2 e q be_phones standard_libD(3) [OF assms(1)] sealed_request_def Let_def)
  then show thesis using that l e(2) q(2) by blast
qed

text \<open>A client's request after a negotiation: its keys are those of the enclave's session, and its identifier is the one that the enclave handed out.\<close>

lemma client_request:
  assumes "standard_lib L" "agrees L (cl_privkey c)" "cl_pubkey c = lib_public L (cl_privkey c)"
    and "wf_key_pair eph" "pubkey eph = curve25519_donna (privkey eph) BASEPOINT"
    and "wf_key_pair static" "pubkey static = curve25519_donna (privkey static) BASEPOINT"
    and "prk = session_prk (cl_pubkey c) eph static" "wf_prid prid" "length ps * 8 < 2 ^ 35"
  obtains nonce key iv qiv r' where
    "discovery_request L c host (negotiation_of (seal_response prk (pubkey static) (pubkey eph) prid)) ps r
      = (Inr (server_key_of prk, sealed_request host (client_key_of prk) (prid_bytes prid) nonce key iv qiv ps), r')"
    "length nonce = 32" "length key = 32" "length iv = 12" "length qiv = 12"
proof -
  let ?ck = "client_key_of prk" and ?sk = "server_key_of prk" and ?E = "aes_encrypt (server_key_of prk)"
  have k: "key_agreement L c (pubkey eph) (pubkey static) = Inr (?ck, ?sk)" using key_agreement_ok [OF assms(1-7)] assms(8) by simp
  let ?c = "gcm_crypt ?E (replicate 12 0) (prid_bytes prid)"
  obtain rest where "lib_open L ?sk (replicate 12 0) [] (?c @ gcm_tag ?E (replicate 12 0) [] ?c) = Some (gcm_crypt ?E (replicate 12 0) ?c @ rest)"
    using standard_libD(2) [OF assms(1), of ?sk "replicate 12 0" "[]" ?c] length_keys by auto
  then have o: "open_in_place L ?sk (replicate 12 0) [] (?c @ gcm_tag ?E (replicate 12 0) [] ?c) = Inr (prid_bytes prid @ rest)"
    by (simp add: open_in_place_def length_keys decrypt_encrypt)
  obtain nonce key iv qiv r' where s: "seal_query L host ?ck ?sk (prid_bytes prid) ps r
      = (Inr (?sk, sealed_request host ?ck (prid_bytes prid) nonce key iv qiv ps), r')"
    "length nonce = 32" "length key = 32" "length iv = 12" "length qiv = 12" by (rule seal_query_ok [OF assms(1) length_keys(1) assms(10)])
  have "discovery_request L c host (negotiation_of (seal_response prk (pubkey static) (pubkey eph) prid)) ps r
      = (Inr (?sk, sealed_request host ?ck (prid_bytes prid) nonce key iv qiv ps), r')"
    using k o s(1) by (simp add: discovery_request_def negotiation_of_def seal_response_def Let_def)
  then show thesis using that s(2-5) by blast
qed

section \<open>What the host passes on\<close>

text \<open>The host holds the query of a call at the address that it gives.\<close>

definition holds_query :: "'x svc \<Rightarrow> u64 \<Rightarrow> bytes \<Rightarrow> 'x \<Rightarrow> bool" where
  "holds_query v q ct x \<longleftrightarrow> q \<noteq> 0 \<and> svc_is_outside_enclave v q (length ct) = 1 \<and> \<not> q + of_nat (length ct) < q \<and> svc_read v q (length ct) x = ct"

lemma host_passes:
  assumes "wf_prid prid" "length nonce = 32" "length key = 32" "length iv = 12" "length qiv = 12" "length ps * 16 < 2 ^ 32"
    and "request = sealed_request host ck (prid_bytes prid) nonce key iv qiv ps" "process_request host b request = Inr (na, b')"
    and "jni_server_call q na = Inr (a, hdr, data)" "holds_query v q (dr_data request) x"
  shows "wf_hdr hdr" "hdr_pending_request_id hdr = prid" "hdr_iv hdr = iv" "data = gcm_crypt (aes_encrypt ck) iv key"
    "hdr_mac hdr = gcm_tag (aes_encrypt ck) iv (prid_bytes prid) data" "client_query v key nonce (map to_be ps) a x"
proof -
  let ?pt = "nonce @ encode_phones (map to_be ps)"
  let ?q = "gcm_crypt (aes_encrypt key) qiv ?pt"
  have l: "length (prid_data prid) = 8" "length (prid_iv prid) = 12" "length (prid_mac prid) = 16" using assms(1) by (simp_all add: wf_prid_def)
  have na: "na_query_phone_count na = of_nat (length ps)" "na_query_data na = ?q" "na_query_iv na = qiv" "na_query_mac na = gcm_tag (aes_encrypt key) qiv [] ?q"
    "na_query_commitment na = fips_sha256 ?pt" "na_msg_data na = gcm_crypt (aes_encrypt ck) iv key" "na_msg_iv na = iv"
    "na_msg_mac na = gcm_tag (aes_encrypt ck) iv (prid_bytes prid) (gcm_crypt (aes_encrypt ck) iv key)" "na_pending_request_id na = prid_bytes prid"
    using assms(8) by (auto simp: assms(7) process_request_def batch_add_def sealed_request_def Let_def split: if_splits)
  have j: "hdr = \<lparr>hdr_iv = iv, hdr_mac = na_msg_mac na, hdr_pending_request_id = prid\<rparr>" "data = na_msg_data na"
    "query_phone_count a = of_nat (length ps)" "query_commitment a = fips_sha256 ?pt"
    "call_query a = \<lparr>query_iv = qiv, query_mac = na_query_mac na, query_size = of_nat (length ?q), query_data = q\<rparr>"
    using assms(9) l by (auto simp: jni_server_call_def na prid_bytes_def split: if_splits)
  show "hdr_pending_request_id hdr = prid" "hdr_iv hdr = iv" "data = gcm_crypt (aes_encrypt ck) iv key"
    "hdr_mac hdr = gcm_tag (aes_encrypt ck) iv (prid_bytes prid) data" "wf_hdr hdr"
    using assms(1,4) by (simp_all add: j na wf_hdr_def)
  have n: "length ?q = 32 + 8 * length ps" "unat (of_nat (length ps) :: u32) = length ps" using assms(2,6) by (simp_all add: unat_of_nat)
  have u: "unat (of_nat (length ?q) :: u32) = length ?q" unfolding unat_of_nat using assms(6) by (simp only: n(1)) simp
  then have w: "ucast (of_nat (length ?q) :: u32) = (of_nat (length ?q) :: u64)" by (metis of_nat_unat)
  have "dr_data request = ?q" by (simp add: assms(7) sealed_request_def Let_def)
  then show "client_query v key nonce (map to_be ps) a x"
    using assms(2,3,10) n u w by (simp add: client_query_def query_in_memory_def holds_query_def j na Let_def)
qed

lemma take_drop_concat:
  "(\<And>x. length (f x) = k) \<Longrightarrow> i < length xs \<Longrightarrow> take k (drop (k * i) (concat (map f xs))) = f (xs ! i)"
proof (induction xs arbitrary: i)
  case (Cons x xs)
  then show ?case by (cases i) simp_all
qed simp

text \<open>The host holds the served buffers at the addresses that it gives when it stops a server.\<close>

definition holds_directory :: "'x svc \<Rightarrow> u64 \<Rightarrow> u64 \<Rightarrow> directory_map \<Rightarrow> 'x \<Rightarrow> bool" where
  "holds_directory v p u m x \<longleftrightarrow> (let (es, us) = borrow_serving_buffers m in
     svc_read v p (length es * 8) x = concat (map (le_bytes 8) es) \<and> svc_read v u (length es * 16) x = concat (map uuid_bytes us))"

lemma host_directory_served:
  assumes "jni_server_stop p u m = Some (Inr b)" "borrow_serving_buffers m = (es, us)" "length es < 2 ^ 60" "holds_directory v p u m x"
  shows "host_directory v b x = zip es us"
proof -
  have l: "length us = length es" and b: "in_phones b = p" "in_uuids b = u" "unat (in_phone_count b) = length es"
    using assms(1-3) by (auto simp: jni_server_stop_def unat_of_nat split: if_splits)
  let ?P = "concat (map (le_bytes 8) es)" and ?U = "concat (map uuid_bytes us)"
  have "le_word (take 8 (drop (8 * i) ?P)) = es ! i" if "i < length es" for i
    using take_drop_concat [where f = "le_bytes 8" and k = 8, OF _ that] by (simp add: le_word_le_bytes)
  moreover have "(le_word (take 8 (drop (16 * i) ?U)), le_word (take 8 (drop (16 * i + 8) ?U))) = us ! i" if "i < length es" for i
  proof -
    have t: "take 16 (drop (16 * i) ?U) = uuid_bytes (us ! i)"
      using that l by (intro take_drop_concat) (simp_all add: uuid_bytes_def)
    have "take 8 (drop (16 * i) ?U) = take 8 (take 16 (drop (16 * i) ?U))" "take 8 (drop (16 * i + 8) ?U) = drop 8 (take 16 (drop (16 * i) ?U))"
      by (simp_all add: drop_take add.commute)
    then show ?thesis unfolding t by (simp add: uuid_bytes_def le_word_le_bytes)
  qed
  ultimately show ?thesis using assms(2,4) l
    by (intro nth_equalityI) (simp_all add: host_directory_def read_directory_def holds_directory_def b Let_def)
qed

section \<open>What the client gets\<close>

lemma uuid_from_bytes: "uuid_from_slice (uuid_bytes u) = uuid_be u"
  by (simp add: uuid_from_slice_def uuid_bytes_def uuid_be_def be_word_def to_be_def be_bytes_def)

lemma chunks_exact_concat: "chunks_exact 16 (length us) (concat (map uuid_bytes us)) = map uuid_bytes us"
  by (induction us) (simp_all add: uuid_bytes_def)

lemma decode_answers:
  assumes "standard_lib L" "length sk = 32" "length iv = 12" and ct: "ct = gcm_crypt (aes_encrypt sk) iv (directory_answers D qs)"
  shows "decode_discovery_response L sk \<lparr>resp_request_id = rid, resp_data = ct, resp_iv = iv, resp_mac = gcm_tag (aes_encrypt sk) iv [] ct\<rparr>
    = Inr (map (\<lambda>q. uuid_be (dir_lookup D q)) qs)"
proof -
  have a: "directory_answers D qs = concat (map uuid_bytes (map (dir_lookup D) qs))" by (simp add: directory_answers_def comp_def)
  have l: "length (directory_answers D qs) = length qs * 16" unfolding a by (subst length_uuids) simp
  obtain rest where "lib_open L sk iv [] (ct @ gcm_tag (aes_encrypt sk) iv [] ct) = Some (gcm_crypt (aes_encrypt sk) iv ct @ rest)"
    using standard_libD(2) [OF assms(1-3)] by blast
  then have o: "open_in_place L sk iv [] (ct @ gcm_tag (aes_encrypt sk) iv [] ct) = Inr (directory_answers D qs @ rest)"
    using assms(2) by (simp add: open_in_place_def ct decrypt_encrypt)
  have c: "length ct = length qs * 16" by (simp add: ct l)
  have "chunks_exact 16 (length qs) (directory_answers D qs) = map uuid_bytes (map (dir_lookup D) qs)"
    unfolding a using chunks_exact_concat [of "map (dir_lookup D) qs"] by simp
  then show ?thesis using o by (simp add: decode_discovery_response_def Let_def c l uuid_from_bytes comp_def)
qed

text \<open>What the directory says of a number: its identifier, or zero.\<close>

definition registered :: "directory_map \<Rightarrow> phone \<Rightarrow> uuid" where
  "registered m p = (case sp_serving (abs_directory m) p of None \<Rightarrow> (0, 0) | Some u \<Rightarrow> u)"

lemma served_registered:
  assumes "directory_ok f m" "borrow_serving_buffers m = (es, us)"
  shows "uuid_be (dir_lookup (zip es us) (to_be p)) = registered m p"
proof -
  have "uuid_be (0, 0) = (0, 0)" using to_be_FREE by (simp add: uuid_be_def FREE_E164_def)
  then show ?thesis using served_lookup(2) [OF assms] by (simp add: registered_def split: option.split)
qed

end
