(* ===== verification/Cds_System.thy ===== *)
theory Cds_System imports Cds_Client begin

text \<open>
  The whole system: a client negotiates with the enclave, builds its request, the host passes it on and lends its directory, and the client decodes the answer.
\<close>

lemma host_world_simps:
  "g_node_initialized (s\<lparr>world := w\<rparr>) = g_node_initialized s" "get_desc i (s\<lparr>world := w\<rparr>) = get_desc i s"
  "g_pending_request_id_key (s\<lparr>world := w\<rparr>) = g_pending_request_id_key s" "live_requests (s\<lparr>world := w\<rparr>) = live_requests s"
  "enclave_inv (s\<lparr>world := w\<rparr>) = enclave_inv s"
  by (simp_all add: get_desc_def live_requests_def enclave_inv_def wf_state_def locks_free_def fun_eq_iff split: option.split)

text \<open>After a negotiation the client's request can be built, with the keys of the enclave's session and the identifier of its pending request.\<close>

lemma negotiated_request:
  assumes "standard_lib L" "agrees L (cl_privkey c)" "cl_pubkey c = lib_public L (cl_privkey c)"
    and "enclave_inv s0" "g_node_initialized s0" "g_last_pending_request_id_val s0 \<noteq> - 1"
    and "pubkey (g_dh_keypair s0) = curve25519_donna (privkey (g_dh_keypair s0)) BASEPOINT" "wf_response resp0"
    and "sgxsd_enclave_negotiate_request e (Some \<lparr>client_pubkey = cl_pubkey c\<rparr>) (Some resp0) s0 = ((SGX_SUCCESS, Some resp), s1)"
    and "length ps * 16 < 2 ^ 32" "k = g_last_pending_request_id_val s0 + 1"
  obtains prk prid nonce key eiv qiv r' where "discovery_request L c host (negotiation_of resp) ps r
      = (Inr (server_key_of prk, sealed_request host (client_key_of prk) (prid_bytes prid) nonce key eiv qiv ps), r')"
    "length nonce = 32" "length key = 32" "length eiv = 12" "length qiv = 12" "wf_prid prid"
    "open_id (g_pending_request_id_key s1) prid = Some k" "live_requests s1 k = Some prk"
    "enclave_inv s1" "g_node_initialized s1" "g_server_states s1 = g_server_states s0"
proof -
  obtain eph prk prid where "pubkey eph = curve25519_donna (privkey eph) BASEPOINT" "prk = session_prk (client_pubkey \<lparr>client_pubkey = cl_pubkey c\<rparr>) eph (g_dh_keypair s0)"
    "Some resp = Some (seal_response prk (pubkey (g_dh_keypair s0)) (pubkey eph) prid)" "wf_prid prid" "open_id (g_pending_request_id_key s1) prid = Some k"
    "g_last_pending_request_id_val s1 = k" "live_requests s1 k = Some prk" "g_server_states s1 = g_server_states s0" "wf_key_pair eph"
    by (rule negotiate_success [OF assms(4-6,8,9,11)])
  then have n: "pubkey eph = curve25519_donna (privkey eph) BASEPOINT" "wf_key_pair eph"
    "prk = session_prk (cl_pubkey c) eph (g_dh_keypair s0)" "resp = seal_response prk (pubkey (g_dh_keypair s0)) (pubkey eph) prid"
    "wf_prid prid" "open_id (g_pending_request_id_key s1) prid = Some k" "live_requests s1 k = Some prk" "g_server_states s1 = g_server_states s0" by simp_all
  have wk: "wf_key_pair (g_dh_keypair s0)" using assms(4) wf_key_pairs by (auto simp: enclave_inv_def)
  have b8: "length ps * 8 < 2 ^ 35" using assms(10) by simp
  obtain nonce key eiv qiv r1 where c: "discovery_request L c host (negotiation_of resp) ps r
      = (Inr (server_key_of prk, sealed_request host (client_key_of prk) (prid_bytes prid) nonce key eiv qiv ps), r1)"
    "length nonce = 32" "length key = 32" "length eiv = 12" "length qiv = 12"
    using client_request [OF assms(1-3) n(2,1) wk assms(7) n(3,5) b8] unfolding n(4) by blast
  moreover have "enclave_inv s1" "g_node_initialized s1" using negotiate_advance [OF assms(4) _ assms(6,9)] assms(5,8) by (simp_all add: advance_def later_def)
  ultimately show thesis using that n(5-8) by blast
qed

text \<open>C1. The client gets what the directory says. A client negotiates with an initialised node and builds its request for some numbers from the node's answer. The host passes
  the request on to a started server that holds no other request, and stops the server with the directory that it serves. The numbers fit in the
  server, none of them is 0, and for each chunk of the batch the first lookup key that does not overflow leaves at most twelve different
  numbers in each slot (\<open>good_batches\<close>; the code does not check this, and without it an answer can be wrong); the random generator delivers
  the IV of the answer. Then the call succeeds,
  stopping the server sends one message, and the client that opens this message with the key of its session reads, for exactly its numbers in their order,
  the identifier that the served map has for the number, or zero.\<close>

theorem client_gets_directory:
  assumes "standard_lib L" "agrees L (cl_privkey c)" "cl_pubkey c = lib_public L (cl_privkey c)"
    and "enclave_inv s0" "g_node_initialized s0" "g_last_pending_request_id_val s0 \<noteq> - 1"
    and "pubkey (g_dh_keypair s0) = curve25519_donna (privkey (g_dh_keypair s0)) BASEPOINT" "wf_response resp0"
    and "sgxsd_enclave_negotiate_request (cds_env P) (Some \<lparr>client_pubkey = cl_pubkey c\<rparr>) (Some resp0) s0 = ((SGX_SUCCESS, Some resp), s1)"
    and "discovery_request L c host (negotiation_of resp) ps r = (Inr (sk, request), r')"
    and "process_request host batch request = Inr (na, batch')" "jni_server_call q na = Inr (a, hdr, data)"
    and "s = s1\<lparr>world := w0\<rparr>" "holds_query (enclave_svc P) q (dr_data request) (g_read_rand_state s, world s)"
    and "unat h < SGXSD_ENCLAVE_MAX_SERVERS" "sd_valid (get_desc (unat h) s)"
    and "cw_boxes (world s) (sd_state (get_desc (unat h) s)) = Some st" "server_inv st" "abs_server st = []"
    and "ps \<noteq> []" "length ps \<le> query_capacity st" "length ps * 16 < 2 ^ 32"
    and "sgxsd_enclave_server_call (cds_env P) (Some a) (Some hdr) (Some data) 32 t h s = (out, s2)"
    and "x = (g_read_rand_state s2, (world s2)\<lparr>cw_boxes := (cw_boxes (world s2))(sd_state (get_desc (unat h) s2) := None)\<rparr>)"
    and "directory_ok f m" "borrow_serving_buffers m = (es, us)" "length es < 2 ^ 60"
    and "jni_server_stop p u m = Some (Inr b)" "holds_directory (enclave_svc P) p u m x" "directory_args (enclave_svc P) b"
    and "good_batches (enclave_svc P) (zip es us) (chunks MAX_HASH_TABLE_SIZE (map to_be ps)) x"
    and "lookup_chunks (enclave_svc P) (zip es us) (chunks MAX_HASH_TABLE_SIZE (map to_be ps)) x = (looked_up, rand, w)"
    and "env_read_rand (plat_env P) 12 w = ((SGX_SUCCESS, iv0), w1)" "iv = (fixed 12 iv0)[0 := fixed 12 iv0 ! 0 OR 1]"
    and "ct = gcm_crypt (aes_encrypt sk) iv (directory_answers (zip es us) (map to_be ps))" "mac = gcm_tag (aes_encrypt sk) iv [] ct"
    and "env_ocall_reply (plat_env P) (Some \<lparr>hdr_iv = iv, hdr_mac = mac, hdr_pending_request_id = env_stack_prid (plat_env P) w\<rparr>)
        (Some ct) (of_nat (16 * length ps)) t w1 = ((ocall_res, reply_res), w2)"
  shows "out = (SGX_SUCCESS, Some (replicate 32 0))
    \<and> (\<exists>s3. sgxsd_enclave_server_stop (cds_env P) (Some b) h s2 = (if ocall_res = SGX_SUCCESS then reply_res else ocall_res, s3) \<and> world s3 = w2)
    \<and> decode_discovery_response L sk \<lparr>resp_request_id = rid, resp_data = ct, resp_iv = iv, resp_mac = mac\<rparr> = Inr (map (registered m) ps)"
proof -
  let ?v = "enclave_svc P" and ?x = "(g_read_rand_state s, world s)"
  define k where "k = g_last_pending_request_id_val s0 + 1"
  obtain prk prid nonce key eiv qiv r1 where c: "discovery_request L c host (negotiation_of resp) ps r
      = (Inr (server_key_of prk, sealed_request host (client_key_of prk) (prid_bytes prid) nonce key eiv qiv ps), r1)"
    "length nonce = 32" "length key = 32" "length eiv = 12" "length qiv = 12" "wf_prid prid"
    "open_id (g_pending_request_id_key s1) prid = Some k" "live_requests s1 k = Some prk"
    "enclave_inv s1" "g_node_initialized s1" "g_server_states s1 = g_server_states s0"
    by (rule negotiated_request [OF assms(1-9,22) k_def])
  have sk: "sk = server_key_of prk" and rq: "request = sealed_request host (client_key_of prk) (prid_bytes prid) nonce key eiv qiv ps"
    using c(1) assms(10) by simp_all
  note j = host_passes [OF c(6,2-5) assms(22) rq assms(11,12,14)]
  have s: "enclave_inv s" "g_node_initialized s" "open_id (g_pending_request_id_key s) (hdr_pending_request_id hdr) = Some k" "live_requests s k = Some prk"
    using c(7-10) j(2) by (simp_all add: assms(13) host_world_simps)
  have D: "zip es us = host_directory ?v b x" using host_directory_served [OF assms(28,26,27,29)] by simp
  have e: "length (map to_be ps) * 16 < 2 ^ 32" "length (map to_be ps) \<le> query_capacity st" "map to_be ps \<noteq> []" using assms(20-22) by simp_all
  have sys: "out = (SGX_SUCCESS, Some (replicate 32 0)) \<and> live_requests s2 k = None
    \<and> (\<exists>s3. sgxsd_enclave_server_stop (cds_env P) (Some b) h s2 = (if ocall_res = SGX_SUCCESS then reply_res else ocall_res, s3)
        \<and> world s3 = w2 \<and> get_desc (unat h) s3 = zero_server_desc)
    \<and> gcm_crypt (aes_encrypt (server_key_of prk)) iv ct = directory_answers (zip es us) (map to_be ps)"
  proof (rule end_to_end [OF s(1,2) assms(15,16) j(1) s(3,4) _ _ assms(17-19) j(6) e(3,2,1) assms(23,24,30) D assms(31-34) refl])
  qed (use assms(35-37) j in \<open>simp_all add: sk\<close>)
  have iv: "length iv = 12" by (simp add: assms(34))
  have "decode_discovery_response L sk \<lparr>resp_request_id = rid, resp_data = ct, resp_iv = iv, resp_mac = mac\<rparr>
      = Inr (map (\<lambda>q. uuid_be (dir_lookup (zip es us) q)) (map to_be ps))"
    using decode_answers [OF assms(1) _ iv assms(35)] length_keys(2) by (simp add: assms(36) sk)
  then show ?thesis using sys served_registered [OF assms(25,26)] by (auto simp: comp_def)
qed

section \<open>An example\<close>

lemma rand_negotiates:
  assumes "\<And>n w. fst (fst (env_read_rand e n w)) = SGX_SUCCESS" "wf_state s" "g_node_initialized s" "wf_response resp"
  shows "\<exists>resp' s'. sgxsd_enclave_negotiate_request e (Some req) (Some resp) s = ((SGX_SUCCESS, Some resp'), s')"
proof -
  have r: "\<exists>x s'. sgx_read_rand e n s = ((SGX_SUCCESS, x), s')" for n s
    using assms(1) [of n "world s"] by (auto simp: sgx_read_rand_def split: prod.split)
  obtain x0 s0 where "sgx_read_rand e 32 s = ((SGX_SUCCESS, x0), s0)" using r by blast
  then obtain x s' where "sgxsd_enclave_read_rand e s = ((SGX_SUCCESS, x), s')" by (simp add: sgxsd_enclave_read_rand_def Let_def)
  from generate_keypair_eq [OF this refl] obtain eph s1
    where g: "sgxsd_enclave_generate_curve25519_keypair e zero_key_pair s = ((SGX_SUCCESS, eph), s1)" by simp
  have f: "rand_frame s s1" using generate_keypair_frame [OF g wf_zero_key_pair] by blast
  then have w: "wf_state s1" "g_node_initialized s1" using rand_frame_wf [OF f] assms(2,3) by (simp_all add: rand_frame_def)
  let ?r = "zero_pending_request\<lparr>hkdf_prk := session_prk (client_pubkey req) eph (g_dh_keypair s)\<rparr>"
  obtain iv s2 where "sgx_read_rand e 12 (pending_added (hkdf_prk ?r) s1) = ((SGX_SUCCESS, iv), s2)" using r by blast
  from negotiate_eq [OF assms(2-4) g refl add_pending_eq [OF w wf_zero_prid this, simplified]] show ?thesis by auto
qed

lemma gcm_crypt_Nil: "gcm_crypt (aes_encrypt key) iv d = [] \<longleftrightarrow> d = []"
  by (metis length_gcm_crypt length_0_conv)

lemma host_accepts:
  assumes "wf_prid prid" "length nonce = 32" "length key = 32" "length iv = 12" "length qiv = 12"
    and "request = sealed_request host ck (prid_bytes prid) nonce key iv qiv ps" "\<not> processed b"
    and "sint (of_nat (length ps) :: u32) \<le> sint (max_phone_count b - phone_count b)"
  shows "\<exists>na b' a hdr data. process_request host b request = Inr (na, b') \<and> jni_server_call q na = Inr (a, hdr, data)"
proof -
  have "key \<noteq> []" "nonce @ encode_phones (map to_be ps) \<noteq> []" "length (prid_bytes prid) = 36" using assms(1-3) length_prid_bytes by auto
  then show ?thesis using assms(4-8) by (auto simp: process_request_def batch_add_def sealed_request_def jni_server_call_def gcm_crypt_Nil Let_def)
qed

text \<open>A client whose secret is the number one, with random numbers that are all zero.\<close>

definition demo_lib :: "unit client_lib" where
  "demo_lib = \<lparr>lib_fill = (\<lambda>n r. (replicate n 0, r)), lib_secret = (\<lambda>r. (1 # replicate 31 0, r)), lib_public = (\<lambda>a. BASEPOINT),
     lib_diffie_hellman = (\<lambda>a b. b), lib_sha256 = fips_sha256,
     lib_seal = (\<lambda>key iv aad pt. let E = aes_encrypt key; ct = gcm_crypt E iv pt in Some (ct, gcm_tag E iv aad ct)),
     lib_open = (\<lambda>key iv aad buf. let E = aes_encrypt key; ct = take (length buf - 16) buf
        in if drop (length buf - 16) buf = gcm_tag E iv aad ct then Some (gcm_crypt E iv ct @ replicate 16 0) else None),
     lib_hkdf = (\<lambda>salt secret n. let prk = rfc2104_hmac fips_sha256 salt secret in Some (rfc5869_T prk 1 @ rfc5869_T prk 2))\<rparr>"

lemma demo_lib_ok: "standard_lib demo_lib" "agrees demo_lib a" "lib_public demo_lib a = BASEPOINT"
  by (simp_all add: standard_lib_def agrees_def demo_lib_def BASEPOINT_def Let_def)

text \<open>A host that holds the last query at address 64 and the table with one number at the addresses 128 and 256.\<close>

definition demo_sys :: "bytes platform" where
  "demo_sys = \<lparr>
     plat_env = \<lparr>env_read_rand = (\<lambda>n w. ((SGX_SUCCESS, replicate n 0), w)), env_is_outside_enclave = (\<lambda>a n. 1),
       env_create_report = (\<lambda>qe d w. ((SGX_SUCCESS, d), w)), env_calloc = (\<lambda>n m w. (True, w)),
       env_ocall_reply = (\<lambda>h d n t w. ((SGX_SUCCESS, SGX_SUCCESS), w)),
       env_server_init = (\<lambda>a p x. ((SGX_SUCCESS, p), x)), env_server_handle_call = (\<lambda>a m f p x. ((SGX_SUCCESS, p), x)),
       env_server_terminate = (\<lambda>a p x. (SGX_SUCCESS, x)), env_create_ratelimit_fingerprint = (\<lambda>k a m f fp n x. ((SGX_SUCCESS, fp), x)),
       env_stack_prid = (\<lambda>w. \<lparr>prid_data = replicate 8 1, prid_iv = replicate 12 1, prid_mac = replicate 16 1\<rparr>)\<rparr>,
     plat_read = (\<lambda>p n h. if p = 64 then h else if p = 128 then concat (map (le_bytes 8) (e164s_buffer demo_four))
       else concat (map uuid_bytes (uuids_buffer demo_four))),
     plat_rdrand = (\<lambda>h. ((True, 7), h)),
     plat_capacity = id\<rparr>"

lemma demo_sys_query: "holds_query (enclave_svc demo_sys) 64 q (rand, w)" if "length q = 40" "cw_host w = q"
  using that by (simp add: holds_query_def enclave_svc_def demo_sys_def)

lemma demo_sys_directory:
  "holds_directory (enclave_svc demo_sys) 128 256 demo_directory x" "borrow_serving_buffers demo_directory = (e164s_buffer demo_four, uuids_buffer demo_four)"
  "length (e164s_buffer demo_four) = 4" "jni_server_stop 128 256 demo_directory = Some (Inr \<lparr>in_phones = 128, in_phone_count = 4, in_uuids = 256\<rparr>)"
  "directory_args (enclave_svc demo_sys) \<lparr>in_phones = 128, in_phone_count = 4, in_uuids = 256\<rparr>" "registered demo_directory 5 = (1, 2)"
proof -
  show b: "borrow_serving_buffers demo_directory = (e164s_buffer demo_four, uuids_buffer demo_four)" "length (e164s_buffer demo_four) = 4"
    by (simp_all add: borrow_serving_buffers_def demo_directory_def demo_four_def demo_table_def)
  show "holds_directory (enclave_svc demo_sys) 128 256 demo_directory x"
    by (cases x) (simp add: holds_directory_def b enclave_svc_def demo_sys_def)
  show "jni_server_stop 128 256 demo_directory = Some (Inr \<lparr>in_phones = 128, in_phone_count = 4, in_uuids = 256\<rparr>)"
    by (simp add: jni_server_stop_def b) (simp add: demo_four_def demo_table_def)
  show "directory_args (enclave_svc demo_sys) \<lparr>in_phones = 128, in_phone_count = 4, in_uuids = 256\<rparr>"
    by (simp add: directory_args_def untrusted_slice_new_def enclave_svc_def demo_sys_def)
  show "registered demo_directory 5 = (1, 2)" by (simp add: registered_def abs_directory_def demo_directory_def demo_contents)
qed

lemma demo_sys_rdrand: "fst (fst (svc_rdrand (enclave_svc demo_sys) x))"
  by (cases x) (simp add: demo_sys_def enclave_svc_def)

lemma one_chunk: "chunks MAX_HASH_TABLE_SIZE [q :: phone] = [[q]]"
  by (simp add: MAX_HASH_TABLE_SIZE_def MAX_HASH_TABLE_ORDER_def chunks.simps [of 8192])

text \<open>An initialised node with a started server and a key pair.\<close>

definition demo_node :: "bytes cds_world sgxsd_state" where
  "demo_node = (rehost \<lparr>cw_boxes = Map.empty, cw_next = 1, cw_host = []\<rparr> demo_run)
     \<lparr>g_dh_keypair := \<lparr>privkey = replicate 32 0, pubkey = curve25519_donna (replicate 32 0) BASEPOINT\<rparr>\<rparr>"

lemma demo_node_ok: "enclave_inv demo_node" "g_node_initialized demo_node" "g_last_pending_request_id_val demo_node = 0" "sd_valid (get_desc 0 demo_node)"
  "pubkey (g_dh_keypair demo_node) = curve25519_donna (privkey (g_dh_keypair demo_node)) BASEPOINT"
proof -
  let ?s = "rehost \<lparr>cw_boxes = Map.empty, cw_next = 1, cw_host = []\<rparr> demo_run :: bytes cds_world sgxsd_state"
  let ?kp = "\<lparr>privkey = replicate 32 0, pubkey = curve25519_donna (replicate 32 0) BASEPOINT\<rparr>"
  have "wf_key_pair ?kp" using length_donna [of "replicate 32 0" BASEPOINT] by (simp add: wf_key_pair_def BASEPOINT_def)
  moreover have "enclave_inv ?s" using demo_run_facts(4) by (simp add: rehost_simps)
  ultimately have "advance ?s demo_node" unfolding demo_node_def by (intro keypair_advance)
  then show "enclave_inv demo_node" by (simp add: advance_def)
  show "g_node_initialized demo_node" "g_last_pending_request_id_val demo_node = 0" "sd_valid (get_desc 0 demo_node)"
    "pubkey (g_dh_keypair demo_node) = curve25519_donna (privkey (g_dh_keypair demo_node)) BASEPOINT"
    using demo_run_facts by (simp_all add: demo_node_def rehost_def get_desc_def)
qed

lemma demo_resp_ok: "wf_response demo_resp"
  by (simp add: wf_response_def demo_resp_def)

lemma demo_session: "\<exists>resp s1. sgxsd_enclave_negotiate_request (cds_env demo_sys) (Some req) (Some demo_resp) demo_node = ((SGX_SUCCESS, Some resp), s1)"
  using demo_node_ok(1,2) by (intro rand_negotiates demo_resp_ok) (simp_all add: enclave_inv_def cds_env_def demo_sys_def)

lemma demo_iv: "(fixed 12 (replicate 12 0))[0 := fixed 12 (replicate 12 0) ! 0 OR 1] = (1 :: u8) # replicate 11 0"
  by (simp add: fixed_def numeral_eq_Suc)

theorem client_gets_directory_witness:
  "\<exists>resp s1 sk request a hdr data w0 s2 b s3 ct mac.
    sgxsd_enclave_negotiate_request (cds_env demo_sys) (Some \<lparr>client_pubkey = BASEPOINT\<rparr>) (Some demo_resp) demo_node = ((SGX_SUCCESS, Some resp), s1)
    \<and> discovery_request demo_lib \<lparr>cl_privkey = 1 # replicate 31 0, cl_pubkey = BASEPOINT\<rparr> ''host'' (negotiation_of resp) [5] () = (Inr (sk, request), ())
    \<and> sgxsd_enclave_server_call (cds_env demo_sys) (Some a) (Some hdr) (Some data) 32 7 0 (s1\<lparr>world := w0\<rparr>) = ((SGX_SUCCESS, Some (replicate 32 0)), s2)
    \<and> sgxsd_enclave_server_stop (cds_env demo_sys) (Some b) 0 s2 = (SGX_SUCCESS, s3)
    \<and> decode_discovery_response demo_lib sk \<lparr>resp_request_id = [], resp_data = ct, resp_iv = 1 # replicate 11 0, resp_mac = mac\<rparr> = Inr [(1, 2)]"
proof -
  let ?P = demo_sys and ?v = "enclave_svc demo_sys" and ?c = "\<lparr>cl_privkey = 1 # replicate 31 0, cl_pubkey = BASEPOINT\<rparr>"
  let ?batch = "\<lparr>max_phone_count = 1, phone_count = 0, processed = False\<rparr>" and ?D = "zip (e164s_buffer demo_four) (uuids_buffer demo_four)"
  have k: "g_last_pending_request_id_val demo_node \<noteq> - 1" by (simp add: demo_node_ok)
  obtain resp s1 where neg: "sgxsd_enclave_negotiate_request (cds_env ?P) (Some \<lparr>client_pubkey = cl_pubkey ?c\<rparr>) (Some demo_resp) demo_node
      = ((SGX_SUCCESS, Some resp), s1)" using demo_session by blast
  have lib: "cl_pubkey ?c = lib_public demo_lib (cl_privkey ?c)" "length [5 :: phone] * 16 < 2 ^ 32" by (simp_all add: demo_lib_ok)
  note lib0 = demo_lib_ok(1) demo_lib_ok(2) [of "cl_privkey ?c"] lib(1) demo_node_ok(1,2) k demo_node_ok(5) demo_resp_ok neg
  obtain prk prid nonce key eiv qiv r' where c: "discovery_request demo_lib ?c ''host'' (negotiation_of resp) [5] ()
      = (Inr (server_key_of prk, sealed_request ''host'' (client_key_of prk) (prid_bytes prid) nonce key eiv qiv [5]), r')"
    "length nonce = 32" "length key = 32" "length eiv = 12" "length qiv = 12" "wf_prid prid" "g_server_states s1 = g_server_states demo_node"
    by (rule negotiated_request [OF lib0 lib(2) refl])
  define request where rq: "request = sealed_request ''host'' (client_key_of prk) (prid_bytes prid) nonce key eiv qiv [5]"
  have d: "discovery_request demo_lib ?c ''host'' (negotiation_of resp) [5] () = (Inr (server_key_of prk, request), ())" using c(1) by (simp add: rq)
  obtain na b' a hdr data where h: "process_request ''host'' ?batch request = Inr (na, b')" "jni_server_call 64 na = Inr (a, hdr, data)"
    using host_accepts [OF c(6,2-5) rq, of ?batch 64] by auto
  define w0 where "w0 = \<lparr>cw_boxes = \<lambda>_. Some demo_empty, cw_next = 1, cw_host = dr_data request\<rparr>"
  define s where "s = s1\<lparr>world := w0\<rparr>"
  have "length (dr_data request) = 40" using c(2) by (simp add: rq sealed_request_def Let_def)
  then have hq: "holds_query ?v 64 (dr_data request) (g_read_rand_state s, world s)" by (intro demo_sys_query) (simp_all add: s_def w0_def)
  have sv: "unat (0 :: u64) < SGXSD_ENCLAVE_MAX_SERVERS" "sd_valid (get_desc (unat (0 :: u64)) s)"
    "cw_boxes (world s) (sd_state (get_desc (unat (0 :: u64)) s)) = Some demo_empty"
    using demo_node_ok(4) c(7) by (simp_all add: SGXSD_ENCLAVE_MAX_SERVERS_def s_def w0_def get_desc_def)
  have st: "server_inv demo_empty" "abs_server demo_empty = []" "[5 :: phone] \<noteq> []" "length [5 :: phone] \<le> query_capacity demo_empty"
    by (simp_all add: demo_empty_def server_inv_def abs_server_def)
  obtain out s2 where run: "sgxsd_enclave_server_call (cds_env ?P) (Some a) (Some hdr) (Some data) 32 7 0 s = (out, s2)" by (rule prod.exhaust)
  define x where "x = (g_read_rand_state s2, (world s2)\<lparr>cw_boxes := (cw_boxes (world s2))(sd_state (get_desc (unat (0 :: u64)) s2) := None)\<rparr>)"
  have "good_batch (svc_rdrand ?v) [to_be 5] x" by (rule small_batch_good) (simp_all add: demo_sys_rdrand demo_to_be)
  then have g: "good_batches ?v ?D (chunks MAX_HASH_TABLE_SIZE (map to_be [5])) x" by (simp add: one_chunk)
  obtain looked rand w where l: "lookup_chunks ?v ?D (chunks MAX_HASH_TABLE_SIZE (map to_be [5])) x = (looked, rand, w)" by (rule prod_cases3)
  have e: "env_read_rand (plat_env ?P) 12 w = ((SGX_SUCCESS, replicate 12 0), w)"
    "env_ocall_reply (plat_env ?P) hd dt n t w = ((SGX_SUCCESS, SGX_SUCCESS), w)" for hd dt n t by (simp_all add: demo_sys_def)
  have es: "length (e164s_buffer demo_four) < 2 ^ 60" by (simp add: demo_sys_directory)
  note r = client_gets_directory [OF lib0 d h s_def hq sv st lib(2) run x_def demo_directory_ok(1) demo_sys_directory(2) es demo_sys_directory(4,1,5) g l e(1)
      refl refl refl e(2), where rid = "[]", unfolded demo_iv]
  then obtain s3 where s3: "out = (SGX_SUCCESS, Some (replicate 32 0))"
    "sgxsd_enclave_server_stop (cds_env ?P) (Some \<lparr>in_phones = 128, in_phone_count = 4, in_uuids = 256\<rparr>) 0 s2 = (SGX_SUCCESS, s3)" by auto
  show ?thesis using neg d run s3 conjunct2 [OF conjunct2 [OF r]]
    by (intro exI conjI) (assumption | simp add: s_def demo_sys_directory(6))+
qed

end
