(* ===== verification/Spec2Isabelle.thy ===== *)
theory Spec2Isabelle imports Sgxsd_Host Sgxsd_Locks Cds_System begin

text \<open>
  The contact discovery service: the enclave, \<open>src/enclave\<close>, the client, \<open>src/client\<close>, and the host's directory, \<open>src/service\<close>. Clients negotiate a session with the enclave, send it a query of phone
  numbers through an untrusted host, and get back, encrypted for them, the identifiers that the host's directory has for
  those numbers. The host must learn neither the numbers nor the answers.

  \<^bold>\<open>Conventions.\<close> A byte buffer is a list of 8-bit words, a machine integer is a word of its width, and a pointer that
  may be null is an option, or in the bridges a pair of an address and what it points to. A struct is a record with the fields of the source.
  A function that fails returns its status. What the sources only call is a field of a record of functions, an argument of
  the definitions: \<open>env\<close> for the SGX SDK, the outgoing call and the server callbacks of the core, \<open>trts\<close> for the trusted
  runtime of the bridges, \<open>svc\<close> and \<open>platform\<close> for what the service sees, \<open>client_lib\<close> for the cryptographic packages of the client. The world outside is the type variable \<open>'w\<close>, threaded
  through every call. No property assumes more of these parameters than its hypotheses say, and its witness
  shows an instance.

  \<^bold>\<open>Cryptography\<close> (\<open>c_src/bearssl\<close>, \<open>c_src/curve25519-donna-c64.c\<close>). Each theory has the code and, beside it, the standard that the code
  is proved to implement.

  \<^item> \<open>Prelude\<close>: bytes, words, little- and big-endian readings, copies into a buffer.
  \<^item> \<open>CT_Inner\<close>: codecs and constant-time primitives of \<open>inner.h\<close>. The comparisons return the truth value they are named after.
  \<^item> \<open>Hash_Stream\<close>, \<open>SHA1\<close>, \<open>SHA2\<close>: hash contexts and the interface \<open>stream_hash\<close> of a streaming hash, interpreted by \<open>hash/sha1.c\<close>
    and \<open>hash/sha2small.c\<close>: for every cut of a message into updates the digest is that of FIPS 180-4. The constants of SHA-2
    are taken from roots of primes, as the standard defines them, and the tables of the code are proved equal to them.
  \<^item> \<open>HMAC\<close>: \<open>mac/hmac.c\<close> is RFC 2104, for every hash class.
  \<^item> \<open>M128\<close>, \<open>AES_NI\<close>, \<open>GHASH\<close>, \<open>GCM\<close>: 128-bit registers and the instructions used; \<open>symcipher/aes_x86ni.c\<close> and \<open>aes_x86ni_ctr.c\<close> against
    FIPS 197; \<open>hash/ghash_pclmul.c\<close> and \<open>aead/gcm.c\<close> against SP 800-38D, for every cut into calls.
  \<^item> \<open>Curve25519\<close>, \<open>Curve25519_Field\<close>, \<open>Curve25519_Ladder\<close>: \<open>curve25519_donna\<close> is the X25519 function of RFC 7748. The bounds on
    limbs that exclude overflow are proved, and the bound that a comment of \<open>fmul\<close> states is shown not to be enough.

  \<^bold>\<open>The enclave core\<close> (\<open>c_src/sgxsd-enclave.c\<close>, \<open>include/sgxsd.h\<close>, \<open>include/sgxsd-enclave.h\<close>, \<open>include/cds.h\<close>).

  \<^item> \<open>Sgxsd_Crypto\<close>: the AES-GCM, HMAC and HKDF helpers.
  \<^item> \<open>Sgxsd_State\<close>: the static variables as one record, random numbers, key pairs, node initialisation, reports and quotes.
  \<^item> \<open>Sgxsd_Pending\<close>: the ring table of pending requests, which refines a finite map from identifiers to keys; a request stays available for fewer than
    \<open>2 ^ order\<close> further ones and identifiers cannot be forged without the node's key.
  \<^item> \<open>Sgxsd_Server\<close>: negotiation, replies, and starting, calling and stopping servers.
  \<^item> \<open>Sgxsd_Ecalls\<close>: the entry points as a step relation; the invariant of all reachable states, delivery, rejection of forged
    messages, use of a request at most once, life cycles and error returns. \<open>Sgxsd_Reply\<close>: what a reply hands to the host and what it erases.
  \<^item> \<open>Sgxsd_Locks\<close>: threads that interleave on one descriptor; exclusion, and how a stop breaks it.

  \<^bold>\<open>The boundary\<close> (\<open>include/cds_enclave_t.c\<close>, \<open>include/cds_enclave_u.c\<close>).

  \<^item> \<open>Sgxsd_Bridge\<close>: the trusted bridges with their pointer checks and copies, and the outgoing call. All but the one of the
    rate-limit fingerprint, whose buffer is too small, refine the entry points.
  \<^item> \<open>Sgxsd_Host\<close>: the untrusted proxies; proxy, bridge and entry point together are transparent.

  \<^bold>\<open>The service\<close> (\<open>cds_enclave\<close>, \<open>sgxsd_ffi\<close>, \<open>sgx_ffi\<close>).

  \<^item> \<open>Hash_Lookup\<close>, \<open>Hash_Lookup_Correct\<close>: the oblivious lookup of \<open>c_src/cds-enclave-hash.rs\<close> on 256-bit registers. It gives the answers of
    the directory when no slot gets more than twelve different phones, reports an overflow above sixteen, and drops phones between the two. The number 0 is taken for a dummy
    and gets an answer that has nothing to do with the directory.
  \<^item> \<open>Cds_Lookup\<close>: its caller \<open>src/ffi/hash_lookup.rs\<close>, which sizes the table and retries on overflow.
  \<^item> \<open>Cds_Service\<close>, \<open>Cds_Service_Correct\<close>: \<open>service/main.rs\<close> with slices of host memory, senders and rate-limit fingerprints. The service refines a list of senders with
    their phones; a client's query is decoded to its phones.
  \<^item> \<open>Cds_Enclave\<close>: the service as the callbacks of the core (\<open>sgxsd_ffi/src/ecalls.rs\<close>); stopping a server makes one outgoing call for each sender, except for one whose answer
    fails for want of a random number; the whole way of a query from the call to the encrypted answer.

  \<^bold>\<open>The directory of the host\<close> (\<open>src/service/src/main/jni/cds_jni/src/directory_map_native.rs\<close> and \<open>directory_map_native/internal_buffers.rs\<close>).

  \<^item> \<open>Directory_Map\<close>: the hash tables with linear probing, deletion marks and rehashing, the pair of a table that changes and one that is served, saving and loading.
    A method ends with a panic, an error or a value.
  \<^item> \<open>Directory_Float\<close>: bounds on the rounded quotients that decide how a table grows.
  \<^item> \<open>Directory_Correct\<close>: every key is found by its search, in every order of insertions, removals and rehashes; each operation is the update of a map.
  \<^item> \<open>Directory_Refinement\<close>: sequences of calls refine two finite maps and never panic when the starting capacity suits the load factor; the enclave's scan finds
    the served map; what is saved is loaded. Two shortcomings: a full small table panics, and a changed identifier alone is never committed.

  \<^bold>\<open>Clients and the whole system\<close> (\<open>src/client/cds_client/src/lib.rs\<close>, \<open>RequestManager.java\<close>, \<open>SgxEnclave.java\<close>, \<open>jni/cds_jni/src/sgx_enclave.rs\<close>).

  \<^item> \<open>Cds_Client\<close>: key agreement, requests and answers of the client, and how the host passes requests and its directory on. \<open>standard_lib\<close> says that the client's packages
    are the standard algorithms, and \<open>agrees\<close> that Diffie-Hellman secrets agree.
  \<^item> \<open>Cds_System\<close>: the client reads in the answer what the served directory has for its numbers.

  \<^bold>\<open>Bounds and fuel.\<close> Loops with a count in the source have it here: ten attempts to draw a hash key, 128 attempts of a lookup. Both are
  counts of the code; a lookup that uses them up reports an error. \<open>good_batch\<close> is the condition under which a batch is answered
  from the directory: no phone is 0, and the first of the 128 keys that does not overflow leaves at most twelve different phones in each slot. The code checks neither,
  so it is a hypothesis of the properties that speak of answers: of the service, of the way of a query and of the whole system. What happens without it is shown for the
  lookup; a batch of twelve phones or fewer without 0 is good whenever the generator delivers. All other recursions are structural or have a termination proof.

  \<^bold>\<open>Not modelled.\<close> Timing, caches and the obliviousness of memory accesses: values only are modelled. Erasure of freed memory and of
  the stack, except where the code erases a buffer or a table that a caller sees. The padding and alignment of structs: their sizes are the
  constants that the static assertions of the headers fix. Test programs, mocks, benchmarks, generated bindings, and the headers of BearSSL for
  parts that are not linked into the enclave. Of the host: queues, threads, futures, the web
  service and its storage, the quoting and attestation exchange, and the encoding of messages as JSON, which are input and output through libraries. Methods of the
  directory map hold a lock for their whole run and are single steps.
\<close>

end
